(* ===== verification/Xv6_Prelude.thy ===== *)
theory Xv6_Prelude
  imports Main "HOL-Library.Word"
begin

text \<open>
  Shared vocabulary of the development: machine types, the outcome of a kernel operation, the
  combinators operations are written with, a weakest-precondition operator for them, byte-level
  encodings, and generic lemmas on lists.

  A kernel operation is a function from a state to an \<open>out\<close>come.  \<open>Ret a s\<close> is a return
  with value \<open>a\<close> in state \<open>s\<close>; \<open>Panic msg\<close> is a call of \<^verbatim>\<open>panic(msg)\<close>; \<open>Swtch s\<close> says that the
  kernel thread gave up its CPU by \<^verbatim>\<open>sched()\<close> in state \<open>s\<close> (it sleeps, yielded or exited);
  \<open>Hang\<close> is a loop that never ends; \<open>Fault\<close> is an access that C leaves undefined (a null
  pointer, an index outside its array, a division by zero).
\<close>

section \<open>Machine types\<close>

type_synonym u8 = "8 word"
type_synonym u16 = "16 word"
type_synonym u32 = "32 word"
type_synonym bytes = "u8 list"

text \<open>Two's complement readings of integers that a C \<^verbatim>\<open>int\<close> or \<^verbatim>\<open>short\<close> stores, and of \<^verbatim>\<open>uint\<close>.\<close>

definition s32 :: "int \<Rightarrow> int" where
  "s32 x = (x + 2 ^ 31) mod 2 ^ 32 - 2 ^ 31"

definition s16 :: "int \<Rightarrow> int" where
  "s16 x = (x + 2 ^ 15) mod 2 ^ 16 - 2 ^ 15"

definition w32 :: "nat \<Rightarrow> nat" where
  "w32 x = x mod 2 ^ 32"

text \<open>C division truncates towards zero; the remainder has the sign of the dividend.\<close>

definition cdiv :: "int \<Rightarrow> int \<Rightarrow> int" where
  "cdiv a b = sgn a * sgn b * (\<bar>a\<bar> div \<bar>b\<bar>)"

definition cmod :: "int \<Rightarrow> int \<Rightarrow> int" where
  "cmod a b = a - b * cdiv a b"

section \<open>Outcomes and operations\<close>

datatype ('a, 's) out = Ret 'a 's | Panic string | Swtch 's | Hang | Fault

type_synonym ('s, 'a) kop = "'s \<Rightarrow> ('a, 's) out"

definition kret :: "'a \<Rightarrow> ('s, 'a) kop" where
  "kret a s = Ret a s"

definition kbind :: "('s, 'a) kop \<Rightarrow> ('a \<Rightarrow> ('s, 'b) kop) \<Rightarrow> ('s, 'b) kop" where
  "kbind m f s = (case m s of
     Ret a t \<Rightarrow> f a t
   | Panic e \<Rightarrow> Panic e
   | Swtch t \<Rightarrow> Swtch t
   | Hang \<Rightarrow> Hang
   | Fault \<Rightarrow> Fault)"

abbreviation kseq :: "('s, 'a) kop \<Rightarrow> ('s, 'b) kop \<Rightarrow> ('s, 'b) kop" where
  "kseq m n \<equiv> kbind m (\<lambda>_. n)"

definition kget :: "('s \<Rightarrow> 'a) \<Rightarrow> ('s, 'a) kop" where
  "kget f s = Ret (f s) s"

definition kmod :: "('s \<Rightarrow> 's) \<Rightarrow> ('s, unit) kop" where
  "kmod f s = Ret () (f s)"

definition kpanic :: "string \<Rightarrow> ('s, 'a) kop" where
  "kpanic e s = Panic e"

definition kfault :: "('s, 'a) kop" where
  "kfault s = Fault"

definition khang :: "('s, 'a) kop" where
  "khang s = Hang"

definition kskip :: "('s, unit) kop" where
  "kskip = kret ()"

text \<open>A statement guarded by a condition, a loop over a list of indices, and a bounds check.\<close>

definition kwhen :: "bool \<Rightarrow> ('s, unit) kop \<Rightarrow> ('s, unit) kop" where
  "kwhen b m = (if b then m else kskip)"

primrec kfor :: "'x list \<Rightarrow> ('x \<Rightarrow> ('s, unit) kop) \<Rightarrow> ('s, unit) kop" where
  "kfor [] f = kskip"
| "kfor (x # xs) f = kbind (f x) (\<lambda>_. kfor xs f)"

definition kassert :: "('s \<Rightarrow> bool) \<Rightarrow> ('s, unit) kop" where
  "kassert P s = (if P s then Ret () s else Fault)"

text \<open>A pointer that may be null: dereferencing \<open>None\<close> is a fault.\<close>

definition kderef :: "'a option \<Rightarrow> ('s, 'a) kop" where
  "kderef p = (case p of None \<Rightarrow> kfault | Some a \<Rightarrow> kret a)"

section \<open>Weakest preconditions\<close>

text \<open>
  \<open>wp m Q s\<close>: operation \<open>m\<close> started in \<open>s\<close> returns (it neither panics, sleeps, hangs nor
  faults) and its value and final state satisfy \<open>Q\<close>.
\<close>

definition wp :: "('s, 'a) kop \<Rightarrow> ('a \<Rightarrow> 's \<Rightarrow> bool) \<Rightarrow> 's \<Rightarrow> bool" where
  "wp m Q s = (case m s of Ret a t \<Rightarrow> Q a t | _ \<Rightarrow> False)"

named_theorems wp_rules \<open>weakest preconditions of the combinators\<close>

lemma kbind_simps [simp]:
  "m s = Ret a t \<Longrightarrow> kbind m f s = f a t"
  "m s = Panic e \<Longrightarrow> kbind m f s = Panic e"
  "m s = Swtch t \<Longrightarrow> kbind m f s = Swtch t"
  "m s = Hang \<Longrightarrow> kbind m f s = Hang"
  "m s = Fault \<Longrightarrow> kbind m f s = Fault"
  by (simp_all add: kbind_def)

lemma kbind_Ret: "kbind m f s = Ret b u \<longleftrightarrow> (\<exists>a t. m s = Ret a t \<and> f a t = Ret b u)"
  by (cases "m s") (auto simp: kbind_def)

lemma wp_kbind [wp_rules, simp]: "wp (kbind m f) Q s = wp m (\<lambda>a. wp (f a) Q) s"
  by (cases "m s") (auto simp: wp_def kbind_def)

lemma wp_kbind_fun: "wp (kbind m f) Q = wp m (\<lambda>a. wp (f a) Q)"
  by (rule ext) simp

lemma wp_kret [wp_rules, simp]: "wp (kret a) Q s = Q a s"
  by (simp add: wp_def kret_def)

lemma wp_kskip [wp_rules, simp]: "wp kskip Q s = Q () s"
  by (simp add: kskip_def)

lemma wp_kget [wp_rules, simp]: "wp (kget f) Q s = Q (f s) s"
  by (simp add: wp_def kget_def)

lemma wp_kmod [wp_rules, simp]: "wp (kmod f) Q s = Q () (f s)"
  by (simp add: wp_def kmod_def)

lemma wp_kpanic [wp_rules, simp]: "\<not> wp (kpanic e) Q s"
  by (simp add: wp_def kpanic_def)

lemma wp_kfault [wp_rules, simp]: "\<not> wp kfault Q s"
  by (simp add: wp_def kfault_def)

lemma wp_khang [wp_rules, simp]: "\<not> wp khang Q s"
  by (simp add: wp_def khang_def)

lemma wp_if [wp_rules, simp]: "wp (if b then m else n) Q s = (if b then wp m Q s else wp n Q s)"
  by simp

lemma wp_kwhen [wp_rules, simp]: "wp (kwhen b m) Q s = (if b then wp m Q s else Q () s)"
  by (simp add: kwhen_def)

lemma wp_kassert [wp_rules, simp]: "wp (kassert P) Q s = (P s \<and> Q () s)"
  by (simp add: wp_def kassert_def)

lemma wp_kderef [wp_rules, simp]: "wp (kderef p) Q s = (\<exists>a. p = Some a \<and> Q a s)"
  by (cases p) (simp_all add: kderef_def)

lemma wp_RetI: "m s = Ret a t \<Longrightarrow> Q a t \<Longrightarrow> wp m Q s"
  by (simp add: wp_def)

lemma wp_RetD: "wp m Q s \<Longrightarrow> \<exists>a t. m s = Ret a t \<and> Q a t"
  by (cases "m s") (auto simp: wp_def)

lemma wp_iff_Ret: "wp m Q s \<longleftrightarrow> (\<exists>a t. m s = Ret a t \<and> Q a t)"
  by (cases "m s") (auto simp: wp_def)

lemma wp_mono: "wp m Q s \<Longrightarrow> (\<And>a t. Q a t \<Longrightarrow> R a t) \<Longrightarrow> wp m R s"
  by (cases "m s") (auto simp: wp_def)

lemma wp_step: "wp m P s \<Longrightarrow> (\<And>a t. P a t \<Longrightarrow> wp (f a) Q t) \<Longrightarrow> wp (kbind m f) Q s"
  by (auto intro: wp_mono)

lemma wp_conj: "wp m Q s \<Longrightarrow> wp m R s \<Longrightarrow> wp m (\<lambda>a t. Q a t \<and> R a t) s"
  by (cases "m s") (auto simp: wp_def)

text \<open>A loop over a list keeps an invariant indexed by what has been processed.\<close>

lemma wp_kfor:
  assumes "I 0 s"
    and "\<And>i t. i < length xs \<Longrightarrow> I i t \<Longrightarrow> wp (f (xs ! i)) (\<lambda>_. I (Suc i)) t"
    and "\<And>t. I (length xs) t \<Longrightarrow> Q () t"
  shows "wp (kfor xs f) Q s"
  using assms
proof (induction xs arbitrary: I s)
  case Nil
  then show ?case by simp
next
  case (Cons x xs)
  have "wp (f x) (\<lambda>_. I (Suc 0)) s"
    using Cons.prems(1) Cons.prems(2) [of 0 s] by simp
  moreover have "wp (kfor xs f) Q t" if "I (Suc 0) t" for t
  proof (rule Cons.IH [of "\<lambda>i. I (Suc i)"])
    show "wp (f (xs ! i)) (\<lambda>_. I (Suc (Suc i))) u" if "i < length xs" "I (Suc i) u" for i u
      using Cons.prems(2) [of "Suc i" u] that by simp
  qed (use that Cons.prems(3) in simp_all)
  ultimately show ?case
    by (auto intro: wp_mono)
qed

lemma kfor_kmod: "kfor xs (\<lambda>x. kmod (g x)) s = Ret () (fold g xs s)"
  by (induction xs arbitrary: s) (simp_all add: kskip_def kret_def kmod_def kbind_def)

section \<open>Byte-level encodings\<close>

text \<open>\<open>peek\<close> and \<open>poke\<close> read and overwrite a run of bytes of a block, as \<^verbatim>\<open>memmove\<close> to and from it does.\<close>

definition peek :: "bytes \<Rightarrow> nat \<Rightarrow> nat \<Rightarrow> bytes" where
  "peek bs off n = take n (drop off bs)"

definition poke :: "bytes \<Rightarrow> nat \<Rightarrow> bytes \<Rightarrow> bytes" where
  "poke bs off xs = take off bs @ xs @ drop (off + length xs) bs"

primrec le_bytes :: "nat \<Rightarrow> nat \<Rightarrow> bytes" where
  "le_bytes 0 v = []"
| "le_bytes (Suc n) v = of_nat v # le_bytes n (v div 256)"

primrec of_le :: "bytes \<Rightarrow> nat" where
  "of_le [] = 0"
| "of_le (b # bs) = unat b + 256 * of_le bs"

definition get32 :: "bytes \<Rightarrow> nat \<Rightarrow> nat" where
  "get32 bs off = of_le (peek bs off 4)"

definition put32 :: "bytes \<Rightarrow> nat \<Rightarrow> nat \<Rightarrow> bytes" where
  "put32 bs off v = poke bs off (le_bytes 4 v)"

definition get16 :: "bytes \<Rightarrow> nat \<Rightarrow> nat" where
  "get16 bs off = of_le (peek bs off 2)"

definition put16 :: "bytes \<Rightarrow> nat \<Rightarrow> nat \<Rightarrow> bytes" where
  "put16 bs off v = poke bs off (le_bytes 2 v)"

lemma length_le_bytes [simp]: "length (le_bytes n v) = n"
  by (induction n arbitrary: v) simp_all

lemma of_le_le_bytes [simp]: "of_le (le_bytes n v) = v mod 256 ^ n"
proof (induction n arbitrary: v)
  case 0
  then show ?case by simp
next
  case (Suc n)
  have "unat (of_nat v :: u8) = v mod 256"
    by (simp add: unat_of_nat)
  then show ?case
    using Suc.IH [of "v div 256"] by (simp add: mod_mult2_eq mult.commute)
qed

lemma unat_u8_bound: "unat (b :: u8) < 256"
proof -
  have "unat b < 2 ^ LENGTH(8)" by (rule unsigned_less)
  then show ?thesis by simp
qed

lemma of_le_bound: "of_le bs < 256 ^ length bs"
proof (induction bs)
  case Nil
  then show ?case by simp
next
  case (Cons b bs)
  have "unat b < 256"
    by (rule unat_u8_bound)
  then show ?case
    using Cons.IH by simp
qed

lemma le_bytes_of_le [simp]: "length bs = n \<Longrightarrow> le_bytes n (of_le bs) = bs"
proof (induction bs arbitrary: n)
  case Nil
  then show ?case by simp
next
  case (Cons b bs)
  have b: "unat b < 256"
    by (rule unat_u8_bound)
  have z: "(256 :: u8) = 0"
    by (simp add: word_eq_iff_unsigned)
  have "(of_nat (unat b + 256 * of_le bs) :: u8) = b"
    by (simp add: z)
  moreover have "(unat b + 256 * of_le bs) div 256 = of_le bs"
    using b by simp
  ultimately show ?case
    using Cons by auto
qed

lemma length_poke [simp]: "off + length xs \<le> length bs \<Longrightarrow> length (poke bs off xs) = length bs"
  by (simp add: poke_def)

lemma length_peek [simp]: "off + n \<le> length bs \<Longrightarrow> length (peek bs off n) = n"
  by (simp add: peek_def)

lemma peek_poke_same [simp]:
  "off + length xs \<le> length bs \<Longrightarrow> n = length xs \<Longrightarrow> peek (poke bs off xs) off n = xs"
  by (simp add: peek_def poke_def)

lemma nth_poke:
  "off + length xs \<le> length bs \<Longrightarrow> i < length bs \<Longrightarrow>
   poke bs off xs ! i = (if off \<le> i \<and> i < off + length xs then xs ! (i - off) else bs ! i)"
  by (auto simp: poke_def nth_append)

lemma nth_peek: "off + n \<le> length bs \<Longrightarrow> i < n \<Longrightarrow> peek bs off n ! i = bs ! (off + i)"
  by (simp add: peek_def)

lemma peek_poke_disjoint:
  assumes "off + length xs \<le> length bs" "o2 + n \<le> length bs" "o2 + n \<le> off \<or> off + length xs \<le> o2"
  shows "peek (poke bs off xs) o2 n = peek bs o2 n"
proof (rule nth_equalityI)
  show "length (peek (poke bs off xs) o2 n) = length (peek bs o2 n)"
    using assms by simp
next
  fix i assume "i < length (peek (poke bs off xs) o2 n)"
  then have "i < n" using assms by simp
  then show "peek (poke bs off xs) o2 n ! i = peek bs o2 n ! i"
    using assms by (auto simp: nth_peek nth_poke)
qed

lemma poke_peek_id: "off + n \<le> length bs \<Longrightarrow> poke bs off (peek bs off n) = bs"
  by (rule nth_equalityI) (auto simp: nth_poke nth_peek)

lemma length_put32 [simp]: "off + 4 \<le> length bs \<Longrightarrow> length (put32 bs off v) = length bs"
  by (simp add: put32_def)

lemma length_put16 [simp]: "off + 2 \<le> length bs \<Longrightarrow> length (put16 bs off v) = length bs"
  by (simp add: put16_def)

lemma get32_put32 [simp]: "off + 4 \<le> length bs \<Longrightarrow> get32 (put32 bs off v) off = w32 v"
  by (simp add: get32_def put32_def w32_def)

lemma get16_put16 [simp]: "off + 2 \<le> length bs \<Longrightarrow> get16 (put16 bs off v) off = v mod 65536"
  by (simp add: get16_def put16_def)

lemma get32_put32_disjoint:
  "off + 4 \<le> length bs \<Longrightarrow> o2 + 4 \<le> length bs \<Longrightarrow> o2 + 4 \<le> off \<or> off + 4 \<le> o2 \<Longrightarrow>
   get32 (put32 bs off v) o2 = get32 bs o2"
  by (simp add: get32_def put32_def peek_poke_disjoint)

lemma get32_bound: "off + 4 \<le> length bs \<Longrightarrow> get32 bs off < 2 ^ 32"
  using of_le_bound [of "peek bs off 4"] by (simp add: get32_def)

lemma get16_bound: "off + 2 \<le> length bs \<Longrightarrow> get16 bs off < 65536"
  using of_le_bound [of "peek bs off 2"] by (simp add: get16_def)

section \<open>Integers\<close>

lemma s32_id [simp]: "- (2 ^ 31) \<le> x \<Longrightarrow> x < 2 ^ 31 \<Longrightarrow> s32 x = x"
  by (simp add: s32_def)

lemma s32_range: "- (2 ^ 31) \<le> s32 x \<and> s32 x < 2 ^ 31"
  using pos_mod_bound [of "2 ^ 32" "x + 2 ^ 31"] pos_mod_sign [of "2 ^ 32" "x + 2 ^ 31"]
  by (simp add: s32_def)

lemma s16_id [simp]: "- (2 ^ 15) \<le> x \<Longrightarrow> x < 2 ^ 15 \<Longrightarrow> s16 x = x"
  by (simp add: s16_def)

lemma w32_id [simp]: "x < 2 ^ 32 \<Longrightarrow> w32 x = x"
  by (simp add: w32_def)

lemma w32_bound [simp]: "w32 x < 2 ^ 32"
  by (simp add: w32_def)

lemma cdiv_nonneg [simp]: "0 \<le> a \<Longrightarrow> 0 < b \<Longrightarrow> cdiv a b = a div b"
  by (cases "a = 0") (simp_all add: cdiv_def sgn_if)

lemma cmod_nonneg [simp]: "0 \<le> a \<Longrightarrow> 0 < b \<Longrightarrow> cmod a b = a mod b"
  by (simp add: cmod_def minus_mult_div_eq_mod)

section \<open>Lists\<close>

text \<open>Index of the first element that satisfies a predicate, as a table scan finds it.\<close>

primrec find_index :: "('a \<Rightarrow> bool) \<Rightarrow> 'a list \<Rightarrow> nat option" where
  "find_index P [] = None"
| "find_index P (x # xs) = (if P x then Some 0 else map_option Suc (find_index P xs))"

lemma find_index_None: "find_index P xs = None \<longleftrightarrow> (\<forall>x \<in> set xs. \<not> P x)"
  by (induction xs) auto

lemma find_index_Some:
  "find_index P xs = Some i \<longleftrightarrow> i < length xs \<and> P (xs ! i) \<and> (\<forall>j < i. \<not> P (xs ! j))"
proof (induction xs arbitrary: i)
  case Nil
  then show ?case by simp
next
  case (Cons x xs)
  show ?case
  proof (cases i)
    case 0
    then show ?thesis by (auto simp: Cons)
  next
    case (Suc k)
    then show ?thesis
      by (auto simp: Cons less_Suc_eq_0_disj nth_Cons split: nat.splits)
  qed
qed

lemma map_list_update: "map f (xs[i := x]) = (map f xs)[i := f x]"
  by (rule map_update)

lemma list_update_same_conv: "i < length xs \<Longrightarrow> xs[i := xs ! i] = xs"
  by simp

section \<open>Invariants of step relations\<close>

text \<open>
  The interface every step relation of the development is proved against: an invariant that
  holds initially and is kept by each step holds in every reachable state.
\<close>

locale inv_system =
  fixes init :: "'s \<Rightarrow> bool" and step :: "'s \<Rightarrow> 's \<Rightarrow> bool" and inv :: "'s \<Rightarrow> bool"
  assumes inv_init: "init s \<Longrightarrow> inv s"
    and inv_step: "inv s \<Longrightarrow> step s t \<Longrightarrow> inv t"
begin

lemma inv_steps: "step\<^sup>*\<^sup>* s t \<Longrightarrow> inv s \<Longrightarrow> inv t"
  by (induction rule: rtranclp_induct) (auto intro: inv_step)

lemma inv_reachable: "init s \<Longrightarrow> step\<^sup>*\<^sup>* s t \<Longrightarrow> inv t"
  using inv_init inv_steps by blast

end

end
