(* ===== verification/Strings.thy ===== *)
theory Strings
  imports Xv6_Prelude
begin

unbundle bit_operations_syntax

text \<open>
  \<^verbatim>\<open>string.c\<close>: the kernel's memory and string routines over byte-addressed memory, and the
  little-endian word accesses that C pointers make.  Memory is a total function on 32-bit
  addresses, so pointer arithmetic wraps as it does on the machine.  \<open>strncmp_l\<close> and
  \<open>strncpy_l\<close> are the same routines on byte lists, which the file system uses for the
  fixed-size name arrays it keeps in local variables; they are related to the memory versions
  by \<open>strncmp_l_refines\<close>.
\<close>

type_synonym memory = "u32 \<Rightarrow> u8"

section \<open>Loads, stores and the x86 string instructions\<close>

definition load32 :: "memory \<Rightarrow> u32 \<Rightarrow> u32" where
  "load32 m a = ucast (m a) OR push_bit 8 (ucast (m (a + 1))) OR
     push_bit 16 (ucast (m (a + 2))) OR push_bit 24 (ucast (m (a + 3)))"

definition store32 :: "memory \<Rightarrow> u32 \<Rightarrow> u32 \<Rightarrow> memory" where
  "store32 m a w = m(a := ucast w, a + 1 := ucast (drop_bit 8 w),
     a + 2 := ucast (drop_bit 16 w), a + 3 := ucast (drop_bit 24 w))"

primrec stosb :: "nat \<Rightarrow> memory \<Rightarrow> u32 \<Rightarrow> u8 \<Rightarrow> memory" where
  "stosb 0 m a c = m"
| "stosb (Suc n) m a c = stosb n (m(a := c)) (a + 1) c"

primrec stosl :: "nat \<Rightarrow> memory \<Rightarrow> u32 \<Rightarrow> u32 \<Rightarrow> memory" where
  "stosl 0 m a w = m"
| "stosl (Suc n) m a w = stosl n (store32 m a w) (a + 4) w"

section \<open>Memory routines\<close>

definition memset :: "memory \<Rightarrow> u32 \<Rightarrow> u32 \<Rightarrow> u32 \<Rightarrow> memory" where
  "memset m dst c n =
     (if dst mod 4 = 0 \<and> n mod 4 = 0
      then (let c' = c AND 0xFF
            in stosl (unat (n div 4)) m dst
                 (push_bit 24 c' OR push_bit 16 c' OR push_bit 8 c' OR c'))
      else stosb (unat n) m dst (ucast c))"

primrec memcmp :: "memory \<Rightarrow> u32 \<Rightarrow> u32 \<Rightarrow> nat \<Rightarrow> int" where
  "memcmp m s1 s2 0 = 0"
| "memcmp m s1 s2 (Suc n) =
     (if m s1 \<noteq> m s2 then uint (m s1) - uint (m s2) else memcmp m (s1 + 1) (s2 + 1) n)"

primrec copy_back :: "nat \<Rightarrow> memory \<Rightarrow> u32 \<Rightarrow> u32 \<Rightarrow> memory" where
  "copy_back 0 m d s = m"
| "copy_back (Suc n) m d s = copy_back n (m(d - 1 := m (s - 1))) (d - 1) (s - 1)"

primrec copy_fwd :: "nat \<Rightarrow> memory \<Rightarrow> u32 \<Rightarrow> u32 \<Rightarrow> memory" where
  "copy_fwd 0 m d s = m"
| "copy_fwd (Suc n) m d s = copy_fwd n (m(d := m s)) (d + 1) (s + 1)"

definition memmove :: "memory \<Rightarrow> u32 \<Rightarrow> u32 \<Rightarrow> u32 \<Rightarrow> memory" where
  "memmove m dst src n =
     (if src < dst \<and> dst < src + n
      then copy_back (unat n) m (dst + n) (src + n)
      else copy_fwd (unat n) m dst src)"

definition memcpy :: "memory \<Rightarrow> u32 \<Rightarrow> u32 \<Rightarrow> u32 \<Rightarrow> memory" where
  "memcpy m dst src n = memmove m dst src n"

section \<open>String routines\<close>

primrec strncmp :: "memory \<Rightarrow> u32 \<Rightarrow> u32 \<Rightarrow> nat \<Rightarrow> int" where
  "strncmp m p q 0 = 0"
| "strncmp m p q (Suc n) =
     (if m p \<noteq> 0 \<and> m p = m q then strncmp m (p + 1) (q + 1) n else uint (m p) - uint (m q))"

text \<open>
  \<^verbatim>\<open>strncpy\<close> has two loops: the first copies up to and including a NUL, the second pads with
  NULs.  \<open>n\<close> counts what the \<^verbatim>\<open>n-- > 0\<close> tests still allow (nothing when \<^verbatim>\<open>n\<close> is negative).
\<close>

primrec strncpy_pad :: "nat \<Rightarrow> memory \<Rightarrow> u32 \<Rightarrow> memory" where
  "strncpy_pad 0 m s = m"
| "strncpy_pad (Suc n) m s = strncpy_pad n (m(s := 0)) (s + 1)"

primrec strncpy_copy :: "nat \<Rightarrow> memory \<Rightarrow> u32 \<Rightarrow> u32 \<Rightarrow> memory" where
  "strncpy_copy 0 m s t = m"
| "strncpy_copy (Suc n) m s t =
     (let m' = m(s := m t)
      in if m t \<noteq> 0 then strncpy_copy n m' (s + 1) (t + 1) else strncpy_pad n m' (s + 1))"

definition strncpy :: "memory \<Rightarrow> u32 \<Rightarrow> u32 \<Rightarrow> int \<Rightarrow> memory" where
  "strncpy m s t n = strncpy_copy (nat n) m s t"

primrec safestrcpy_loop :: "nat \<Rightarrow> memory \<Rightarrow> u32 \<Rightarrow> u32 \<Rightarrow> memory" where
  "safestrcpy_loop 0 m s t = m(s := 0)"
| "safestrcpy_loop (Suc n) m s t =
     (let m' = m(s := m t)
      in if m t \<noteq> 0 then safestrcpy_loop n m' (s + 1) (t + 1) else m'(s + 1 := 0))"

definition safestrcpy :: "memory \<Rightarrow> u32 \<Rightarrow> u32 \<Rightarrow> int \<Rightarrow> memory" where
  "safestrcpy m s t n = (if n \<le> 0 then m else safestrcpy_loop (nat (n - 1)) m s t)"

text \<open>\<^verbatim>\<open>strlen\<close> scans for a NUL; a string without one makes it run on (\<open>None\<close>).\<close>

partial_function (option) strlen_from :: "memory \<Rightarrow> u32 \<Rightarrow> nat \<Rightarrow> nat option" where
  "strlen_from m s n = (if m (s + of_nat n) = 0 then Some n else strlen_from m s (Suc n))"

definition strlen :: "memory \<Rightarrow> u32 \<Rightarrow> nat option" where
  "strlen m s = strlen_from m s 0"

section \<open>The list versions\<close>

definition chr0 :: "bytes \<Rightarrow> u8" where
  "chr0 xs = (case xs of [] \<Rightarrow> 0 | x # _ \<Rightarrow> x)"

primrec strncmp_l :: "bytes \<Rightarrow> bytes \<Rightarrow> nat \<Rightarrow> int" where
  "strncmp_l p q 0 = 0"
| "strncmp_l p q (Suc n) =
     (if chr0 p \<noteq> 0 \<and> chr0 p = chr0 q then strncmp_l (tl p) (tl q) n
      else uint (chr0 p) - uint (chr0 q))"

primrec strncpy_l :: "bytes \<Rightarrow> nat \<Rightarrow> bytes" where
  "strncpy_l t 0 = []"
| "strncpy_l t (Suc n) = (if chr0 t \<noteq> 0 then chr0 t # strncpy_l (tl t) n else replicate (Suc n) 0)"

definition safestrcpy_l :: "bytes \<Rightarrow> nat \<Rightarrow> bytes" where
  "safestrcpy_l t n = (if n = 0 then [] else takeWhile (\<lambda>b. b \<noteq> 0) (take (n - 1) t) @ [0])"

section \<open>Facts about words used as addresses\<close>

lemma unat_diff_succ:
  "x \<noteq> (a :: u32) \<Longrightarrow> unat (x - (a + 1)) = unat (x - a) - 1"
  using unat_minus_one [of "x - a"] by (simp add: algebra_simps)

lemma unat_less_Suc_diff:
  "n \<le> 2 ^ 32 - 1 \<Longrightarrow> unat (x - (a :: u32)) < Suc n \<longleftrightarrow> x = a \<or> unat (x - (a + 1)) < n"
proof (cases "x = a")
  case False
  then have "unat (x - a) \<noteq> 0" by (simp add: unsigned_eq_0_iff)
  with False show ?thesis by (auto simp: unat_diff_succ)
qed auto

lemma unat_of_nat_u32 [simp]: "n < 2 ^ 32 \<Longrightarrow> unat (of_nat n :: u32) = n"
  by (simp add: unat_of_nat)

lemma unat_u32_bound: "unat (a :: u32) < 2 ^ 32"
proof -
  have "unat a < 2 ^ LENGTH(32)" by (rule unsigned_less)
  then show ?thesis by simp
qed

lemma of_nat_unat_u32 [simp]: "of_nat (unat (a :: u32)) = a"
  by simp

section \<open>Properties\<close>

subsection \<open>Filling memory\<close>

lemma stosb_eq:
  "n \<le> 2 ^ 32 - 1 \<Longrightarrow> stosb n m a c = (\<lambda>x. if unat (x - a) < n then c else m x)"
proof (induction n arbitrary: m a)
  case 0
  then show ?case by simp
next
  case (Suc n)
  have "stosb n (m(a := c)) (a + 1) c = (\<lambda>x. if unat (x - (a + 1)) < n then c else (m(a := c)) x)"
    using Suc by simp
  then show ?case
    using Suc.prems by (auto simp: fun_eq_iff unat_less_Suc_diff)
qed

lemma stosb_add: "stosb (k + n) m a c = stosb n (stosb k m a c) (a + of_nat k) c"
  by (induction k arbitrary: m a) (simp_all add: algebra_simps)

lemma replicated_bytes:
  fixes c :: u32
  defines "w \<equiv> push_bit 24 (c AND 0xFF) OR push_bit 16 (c AND 0xFF) OR push_bit 8 (c AND 0xFF) OR (c AND 0xFF)"
  shows "(ucast w :: u8) = ucast c" "(ucast (drop_bit 8 w) :: u8) = ucast c"
    "(ucast (drop_bit 16 w) :: u8) = ucast c" "(ucast (drop_bit 24 w) :: u8) = ucast c"
proof -
  have ff: "(0xFF :: u32) = mask 8" by (simp add: mask_eq_exp_minus_1)
  show "(ucast w :: u8) = ucast c" "(ucast (drop_bit 8 w) :: u8) = ucast c"
    "(ucast (drop_bit 16 w) :: u8) = ucast c" "(ucast (drop_bit 24 w) :: u8) = ucast c"
    unfolding w_def ff by (auto intro!: bit_word_eqI simp: bit_simps)
qed

lemma stosl_eq_stosb:
  assumes "(ucast w :: u8) = c" "(ucast (drop_bit 8 w) :: u8) = c"
    "(ucast (drop_bit 16 w) :: u8) = c" "(ucast (drop_bit 24 w) :: u8) = c"
  shows "stosl k m a w = stosb (4 * k) m a c"
proof (induction k arbitrary: m a)
  case 0
  then show ?case by simp
next
  case (Suc k)
  have "store32 m a w = stosb 4 m a c"
    using assms by (simp add: store32_def eval_nat_numeral add.assoc)
  then show ?case
    using Suc.IH stosb_add [of 4 "4 * k" m a c] by simp
qed

text \<open>Both branches of \<^verbatim>\<open>memset\<close> fill exactly the bytes of the range.\<close>

lemma memset_eq: "memset m dst c n = (\<lambda>x. if unat (x - dst) < unat n then ucast c else m x)"
proof (cases "dst mod 4 = 0 \<and> n mod 4 = 0")
  case True
  then have "unat (n mod 4) = 0" by simp
  then have "4 * unat (n div 4) = unat n"
    by (simp add: unat_mod unat_div mult_div_mod_eq dvd_eq_mod_eq_0 [symmetric])
  with True show ?thesis
    using unat_u32_bound [of n] stosl_eq_stosb [OF replicated_bytes]
    by (simp add: memset_def Let_def stosb_eq)
next
  case False
  then have "memset m dst c n = stosb (unat n) m dst (ucast c)"
    by (auto simp: memset_def)
  then show ?thesis
    using unat_u32_bound [of n] by (simp add: stosb_eq)
qed

subsection \<open>Copying memory\<close>

lemma copy_fwd_eq:
  "n \<le> 2 ^ 32 - 1 \<Longrightarrow> (\<And>i j. j < i \<Longrightarrow> i < n \<Longrightarrow> s + of_nat i \<noteq> d + of_nat j) \<Longrightarrow>
   copy_fwd n m d s = (\<lambda>x. if unat (x - d) < n then m (s + (x - d)) else m x)"
proof (induction n arbitrary: m d s)
  case 0
  then show ?case by simp
next
  case (Suc n)
  let ?m = "m(d := m s)"
  have step: "s + 1 + of_nat i \<noteq> d + 1 + of_nat j" if "j < i" "i < n" for i j
    using Suc.prems(2) [of "Suc j" "Suc i"] that by (simp add: algebra_simps)
  have IH: "copy_fwd n ?m (d + 1) (s + 1) =
      (\<lambda>x. if unat (x - (d + 1)) < n then ?m (s + 1 + (x - (d + 1))) else ?m x)"
    using Suc.prems(1) step by (intro Suc.IH) auto
  have old: "?m (s + 1 + (x - (d + 1))) = m (s + (x - d))" if "unat (x - (d + 1)) < n" "x \<noteq> d" for x
  proof -
    have "unat (x - d) < Suc n"
      using that Suc.prems(1) by (simp add: unat_less_Suc_diff)
    moreover have "0 < unat (x - d)"
      using that by (simp add: unsigned_eq_0_iff word_greater_zero_iff flip: neq0_conv)
    ultimately have "s + (x - d) \<noteq> d"
      using Suc.prems(2) [of 0 "unat (x - d)"] by simp
    then show ?thesis by (simp add: algebra_simps)
  qed
  have "n \<le> unat (- 1 :: u32)"
    using Suc.prems(1) by (simp add: unsigned_minus_1_eq_mask mask_eq_exp_minus_1)
  then have at_d: "\<not> unat (d - (d + 1)) < n" by simp
  have "copy_fwd n ?m (d + 1) (s + 1) x = (if unat (x - d) < Suc n then m (s + (x - d)) else m x)" for x
  proof (cases "x = d")
    case True
    with at_d show ?thesis by (simp add: IH)
  next
    case False
    then show ?thesis
      using old [of x] Suc.prems(1) by (auto simp: IH unat_less_Suc_diff)
  qed
  then show ?case by (simp add: fun_eq_iff)
qed

lemma copy_back_eq:
  "n \<le> 2 ^ 32 - 1 \<Longrightarrow> (\<And>i j. i < j \<Longrightarrow> j < n \<Longrightarrow> s + of_nat i \<noteq> d + of_nat j) \<Longrightarrow>
   copy_back n m (d + of_nat n) (s + of_nat n) =
     (\<lambda>x. if unat (x - d) < n then m (s + (x - d)) else m x)"
proof (induction n arbitrary: m)
  case 0
  then show ?case by simp
next
  case (Suc n)
  let ?m = "m(d + of_nat n := m (s + of_nat n))"
  have IH: "copy_back n ?m (d + of_nat n) (s + of_nat n) =
      (\<lambda>x. if unat (x - d) < n then ?m (s + (x - d)) else ?m x)"
    using Suc.prems by (intro Suc.IH) auto
  have "?m (s + (x - d)) = m (s + (x - d))" if "unat (x - d) < n" for x
    using Suc.prems(2) [of "unat (x - d)" n] that by auto
  moreover have "unat (x - d) < Suc n \<longleftrightarrow> unat (x - d) < n \<or> x = d + of_nat n" for x
  proof -
    have "unat (x - d) = n \<longleftrightarrow> x - d = of_nat n"
      using Suc.prems(1) by (simp add: word_unat_eq_iff)
    then show ?thesis by (auto simp: less_Suc_eq algebra_simps)
  qed
  ultimately show ?case
    by (auto simp: IH fun_eq_iff algebra_simps)
qed

lemma of_nat_diff_neq:
  assumes "unat (s :: u32) + i < 2 ^ 32" "unat d + j < 2 ^ 32" "unat s + i \<noteq> unat d + j"
  shows "s + of_nat i \<noteq> d + of_nat j"
proof -
  have "unat (s + of_nat i) = unat s + i" "unat (d + of_nat j) = unat d + j"
    using assms(1,2) by (simp_all add: unat_word_ariths)
  with assms(3) show ?thesis by metis
qed

lemma memmove_eq:
  assumes "unat src + unat n < 2 ^ 32" "unat dst + unat n < 2 ^ 32"
  shows "memmove m dst src n = (\<lambda>x. if unat (x - dst) < unat n then m (src + (x - dst)) else m x)"
proof -
  have b: "unat n \<le> 2 ^ 32 - 1"
    using unat_u32_bound [of n] by simp
  have sum: "unat (src + n) = unat src + unat n"
    using assms(1) by (simp add: unat_word_ariths)
  show ?thesis
  proof (cases "src < dst \<and> dst < src + n")
    case True
    then have "unat src < unat dst"
      by (simp add: word_less_nat_alt)
    then have "src + of_nat i \<noteq> dst + of_nat j" if "i < j" "j < unat n" for i j
      using that assms by (intro of_nat_diff_neq) auto
    then show ?thesis
      using copy_back_eq [OF b, of src dst m] True by (simp add: memmove_def)
  next
    case False
    then have "unat dst \<le> unat src \<or> unat src + unat n \<le> unat dst"
      by (auto simp: word_less_nat_alt sum)
    then have "src + of_nat i \<noteq> dst + of_nat j" if "j < i" "i < unat n" for i j
      using that assms by (intro of_nat_diff_neq) auto
    then have "copy_fwd (unat n) m dst src =
        (\<lambda>x. if unat (x - dst) < unat n then m (src + (x - dst)) else m x)"
      using b by (intro copy_fwd_eq) auto
    with False show ?thesis by (auto simp: memmove_def)
  qed
qed

text \<open>
  C14: \<^verbatim>\<open>memmove\<close> copies correctly whether or not the two ranges overlap: afterwards the
  destination range holds the bytes the source range held before, and no other byte changed.
\<close>

theorem memmove_correct:
  assumes "unat src + unat n < 2 ^ 32" "unat dst + unat n < 2 ^ 32"
  shows "memmove m dst src n x = (if unat (x - dst) < unat n then m (src + (x - dst)) else m x)"
  by (simp add: memmove_eq [OF assms])

theorem memmove_correct_witness:
  "memmove (\<lambda>a. ucast a) 0x1002 0x1000 6 0x1004 = (2 :: u8)"
  using memmove_correct [of "0x1000" 6 "0x1002" "\<lambda>a. ucast a" "0x1004"] by simp

lemma load32_store32_same [simp]: "load32 (store32 m a w) a = w"
proof -
  have "a + 1 \<noteq> a" "a + 2 \<noteq> a" "a + 3 \<noteq> a" "a + 2 \<noteq> a + 1" "a + 3 \<noteq> a + 1" "a + 3 \<noteq> a + 2"
    by simp_all
  then have "load32 (store32 m a w) a = ucast (ucast w :: u8) OR push_bit 8 (ucast (ucast (drop_bit 8 w) :: u8)) OR
     push_bit 16 (ucast (ucast (drop_bit 16 w) :: u8)) OR push_bit 24 (ucast (ucast (drop_bit 24 w) :: u8))"
    by (simp add: load32_def store32_def)
  also have "\<dots> = w"
  proof (rule bit_word_eqI)
    fix n assume "n < LENGTH(32)"
    then consider "n < 8" | "8 \<le> n \<and> n < 16" | "16 \<le> n \<and> n < 24" | "24 \<le> n \<and> n < 32"
      by fastforce
    then show "bit ((ucast (ucast w :: u8) :: u32) OR push_bit 8 (ucast (ucast (drop_bit 8 w) :: u8)) OR
       push_bit 16 (ucast (ucast (drop_bit 16 w) :: u8)) OR
       push_bit 24 (ucast (ucast (drop_bit 24 w) :: u8))) n = bit w n"
      by cases (auto simp: bit_simps)
  qed
  finally show ?thesis .
qed

text \<open>A word store leaves every byte outside its four bytes alone.\<close>

lemma store32_other: "4 \<le> unat (x - a) \<Longrightarrow> store32 m a w x = m x"
proof -
  assume h: "4 \<le> unat (x - a)"
  have "x \<noteq> a + of_nat k" if "k < 4" for k
  proof
    assume "x = a + of_nat k"
    then have "unat (x - a) = k" using that by simp
    with h that show False by simp
  qed
  from this [of 0] this [of 1] this [of 2] this [of 3] show ?thesis
    by (simp add: store32_def)
qed

lemma load32_cong: "(\<And>k. k < 4 \<Longrightarrow> m (a + of_nat k) = m' (a + of_nat k)) \<Longrightarrow> load32 m a = load32 m' a"
proof -
  assume h: "\<And>k. k < 4 \<Longrightarrow> m (a + of_nat k) = m' (a + of_nat k)"
  from h [of 0] h [of 1] h [of 2] h [of 3] show ?thesis
    by (simp add: load32_def)
qed

subsection \<open>Strings\<close>

lemma safestrcpy_loop_outside:
  "n < 2 ^ 32 - 1 \<Longrightarrow> n < unat (x - s) \<Longrightarrow> safestrcpy_loop n m s t x = m x"
proof (induction n arbitrary: m s t)
  case 0
  then show ?case by auto
next
  case (Suc n)
  then have "x \<noteq> s" by auto
  then have "n < unat (x - (s + 1))"
    using Suc.prems by (simp add: unat_diff_succ)
  moreover from this have "x \<noteq> s + 1" by auto
  ultimately show ?case
    using Suc \<open>x \<noteq> s\<close> by (simp add: Let_def)
qed

text \<open>The first NUL of the source among its first \<open>n\<close> bytes, or \<open>n\<close>.\<close>

primrec nul_before :: "memory \<Rightarrow> u32 \<Rightarrow> nat \<Rightarrow> nat" where
  "nul_before m t 0 = 0"
| "nul_before m t (Suc n) = (if m t = 0 then 0 else Suc (nul_before m (t + 1) n))"

lemma nul_before_le: "nul_before m t n \<le> n"
  by (induction n arbitrary: t) auto

lemma nul_before_cong:
  "(\<And>i. i < n \<Longrightarrow> m (t + of_nat i) = m' (t + of_nat i)) \<Longrightarrow> nul_before m t n = nul_before m' t n"
proof (induction n arbitrary: t)
  case 0
  then show ?case by simp
next
  case (Suc n)
  have "nul_before m (t + 1) n = nul_before m' (t + 1) n"
    using Suc.prems [of "Suc i" for i] by (intro Suc.IH) (simp add: algebra_simps)
  moreover have "m t = m' t" using Suc.prems [of 0] by simp
  ultimately show ?case by simp
qed

lemma safestrcpy_loop_copies:
  assumes "n < 2 ^ 32 - 1" "\<And>i j. i \<le> n \<Longrightarrow> j \<le> n \<Longrightarrow> t + of_nat i \<noteq> s + of_nat j"
  shows "safestrcpy_loop n m s t (s + of_nat (nul_before m t n)) = 0 \<and>
     (\<forall>i < nul_before m t n. safestrcpy_loop n m s t (s + of_nat i) = m (t + of_nat i))"
  using assms
proof (induction n arbitrary: m s t)
  case 0
  then show ?case by simp
next
  case (Suc n)
  define m' where "m' = m(s := m t)"
  have sep: "t + 1 + of_nat i \<noteq> s + 1 + of_nat j" if "i \<le> n" "j \<le> n" for i j
    using Suc.prems(2) [of "Suc i" "Suc j"] that by (simp add: algebra_simps)
  have src: "m' (t + 1 + of_nat i) = m (t + 1 + of_nat i)" if "i \<le> n" for i
    using Suc.prems(2) [of "Suc i" 0] that by (auto simp: m'_def algebra_simps)
  show ?case
  proof (cases "m t = 0")
    case True
    then show ?thesis by (simp add: Let_def)
  next
    case False
    let ?r = "safestrcpy_loop n m' (s + 1) (t + 1)"
    have k: "nul_before m' (t + 1) n = nul_before m (t + 1) n"
      using src by (intro nul_before_cong) simp
    have IH: "?r (s + 1 + of_nat (nul_before m (t + 1) n)) = 0"
      "\<And>i. i < nul_before m (t + 1) n \<Longrightarrow> ?r (s + 1 + of_nat i) = m' (t + 1 + of_nat i)"
      using Suc.IH [of "t + 1" "s + 1" m'] Suc.prems(1) sep by (simp_all add: k)
    have "?r s = m' s"
      using Suc.prems(1)
      by (intro safestrcpy_loop_outside) (simp_all add: unsigned_minus_1_eq_mask mask_eq_exp_minus_1)
    moreover have "?r (s + of_nat i) = m (t + of_nat i)" if "i < Suc (nul_before m (t + 1) n)" for i
    proof (cases i)
      case 0
      then show ?thesis using \<open>?r s = m' s\<close> by (simp add: m'_def)
    next
      case (Suc j)
      then show ?thesis
        using IH(2) [of j] that src [of j] nul_before_le [of m "t + 1" n] by (simp add: algebra_simps)
    qed
    ultimately show ?thesis
      using False IH(1) by (simp add: Let_def algebra_simps flip: m'_def)
  qed
qed

text \<open>
  C18: \<^verbatim>\<open>safestrcpy\<close> into a buffer of \<open>n > 0\<close> bytes writes a NUL-terminated prefix of the
  source that fits (the source string itself when it is shorter than \<open>n\<close>) and touches no byte
  outside the buffer.
\<close>

theorem safestrcpy_terminated:
  fixes m :: memory and n :: int
  assumes "0 < n" "n < 2 ^ 31" "\<And>i j. i < nat n \<Longrightarrow> j < nat n \<Longrightarrow> t + of_nat i \<noteq> s + of_nat j"
  defines "k \<equiv> nul_before m t (nat n - 1)"
  shows "k < nat n \<and> safestrcpy m s t n (s + of_nat k) = 0 \<and>
    (\<forall>i < k. safestrcpy m s t n (s + of_nat i) = m (t + of_nat i)) \<and>
    (\<forall>x. nat n \<le> unat (x - s) \<longrightarrow> safestrcpy m s t n x = m x)"
proof -
  define l where "l = nat n - 1"
  have l: "nat n = Suc l" "nat (n - 1) = l" "l < 2 ^ 32 - 1"
    using assms(1,2) by (auto simp: l_def)
  have k: "k = nul_before m t l"
    by (simp add: k_def l)
  have eq: "safestrcpy m s t n = safestrcpy_loop l m s t"
    using assms(1) by (simp add: safestrcpy_def l)
  have "safestrcpy_loop l m s t (s + of_nat k) = 0"
    "\<forall>i < k. safestrcpy_loop l m s t (s + of_nat i) = m (t + of_nat i)"
    using safestrcpy_loop_copies [OF l(3), of t s m] assms(3) by (simp_all add: k l(1) less_Suc_eq_le)
  moreover have "k < nat n"
    using nul_before_le [of m t l] by (simp add: k l)
  ultimately show ?thesis
    using safestrcpy_loop_outside [OF l(3)] by (simp add: eq l Suc_le_eq)
qed

theorem safestrcpy_terminated_witness:
  "safestrcpy ((\<lambda>_. 7)(0x20 := 65, 0x21 := 66)) 0x10 0x20 3 (0x10 + of_nat 2) = (0 :: u8)"
proof -
  have sep: "(0x20 :: u32) + of_nat i \<noteq> 0x10 + of_nat j" if "i < nat 3" "j < nat 3" for i j
  proof -
    have "i = 0 \<or> i = 1 \<or> i = 2" "j = 0 \<or> j = 1 \<or> j = 2" using that by auto
    then show ?thesis by auto
  qed
  have two: "nat 3 - 1 = Suc (Suc 0)" by simp
  have "nul_before ((\<lambda>_. 7)(0x20 := 65, 0x21 := 66)) 0x20 (nat 3 - 1) = 2"
    unfolding two by simp
  then show ?thesis
    using safestrcpy_terminated [of 3 "0x20" "0x10" "(\<lambda>_. 7)(0x20 := 65, 0x21 := 66)"] sep by simp
qed

subsection \<open>Fixed-size names\<close>

text \<open>The string that an array of \<open>n\<close> bytes holds: the bytes before the first NUL, at most \<open>n\<close>.\<close>

definition cname :: "nat \<Rightarrow> bytes \<Rightarrow> bytes" where
  "cname n xs = takeWhile (\<lambda>b. b \<noteq> 0) (take n xs)"

lemma cname_0 [simp]: "cname 0 xs = []"
  by (simp add: cname_def)

lemma cname_Suc: "cname (Suc n) xs = (if chr0 xs = 0 then [] else chr0 xs # cname n (tl xs))"
  by (cases xs) (simp_all add: cname_def chr0_def)

lemma length_strncpy_l [simp]: "length (strncpy_l t n) = n"
  by (induction n arbitrary: t) simp_all

lemma cname_strncpy_l [simp]: "cname n (strncpy_l t n) = cname n t"
  by (induction n arbitrary: t) (simp_all add: cname_Suc chr0_def)

lemma strncmp_l_eq_0: "strncmp_l p q n = 0 \<longleftrightarrow> cname n p = cname n q"
  by (induction n arbitrary: p q) (auto simp: cname_Suc uint_0_iff simp flip: word_uint_eq_iff)

text \<open>
  The list versions agree with the routines on memory wherever the lists are what memory holds,
  as long as the comparison does not run past them.
\<close>

lemma strncmp_l_refines:
  "n \<le> length p \<Longrightarrow> n \<le> length q \<Longrightarrow>
   (\<And>i. i < n \<Longrightarrow> m (a + of_nat i) = p ! i) \<Longrightarrow> (\<And>i. i < n \<Longrightarrow> m (b + of_nat i) = q ! i) \<Longrightarrow>
   strncmp m a b n = strncmp_l p q n"
proof (induction n arbitrary: a b p q)
  case 0
  then show ?case by simp
next
  case (Suc n)
  obtain x p' where p: "p = x # p'" using Suc.prems(1) by (cases p) auto
  obtain y q' where q: "q = y # q'" using Suc.prems(2) by (cases q) auto
  have "strncmp m (a + 1) (b + 1) n = strncmp_l p' q' n"
  proof (rule Suc.IH)
    show "m (a + 1 + of_nat i) = p' ! i" if "i < n" for i
      using Suc.prems(3) [of "Suc i"] that by (simp add: p algebra_simps)
    show "m (b + 1 + of_nat i) = q' ! i" if "i < n" for i
      using Suc.prems(4) [of "Suc i"] that by (simp add: q algebra_simps)
  qed (use Suc.prems(1,2) in \<open>simp_all add: p q\<close>)
  then show ?case
    using Suc.prems(3,4) [of 0] by (simp add: p q chr0_def)
qed

end
