(* ===== verification/Kalloc.thy ===== *)
theory Kalloc
  imports Strings
begin

unbundle bit_operations_syntax

text \<open>
  \<^verbatim>\<open>kalloc.c\<close>: the physical page allocator.  Free pages form a linked list through their first
  words, in memory itself.  The linker symbol \<^verbatim>\<open>end\<close> is the field \<open>kern_end\<close> of the state;
  the symbol \<^verbatim>\<open>data\<close> that \<^verbatim>\<open>vm.c\<close> uses is \<open>kern_data\<close>.  Constants and address macros are
  those of \<^verbatim>\<open>memlayout.h\<close> and \<^verbatim>\<open>mmu.h\<close>.
\<close>

section \<open>Memory layout\<close>

definition EXTMEM :: u32 where "EXTMEM = 0x100000"
definition PHYSTOP :: u32 where "PHYSTOP = 0xE000000"
definition DEVSPACE :: u32 where "DEVSPACE = 0xFE000000"
definition KERNBASE :: u32 where "KERNBASE = 0x80000000"
definition KERNLINK :: u32 where "KERNLINK = KERNBASE + EXTMEM"
definition PGSIZE :: u32 where "PGSIZE = 4096"

definition V2P :: "u32 \<Rightarrow> u32" where "V2P a = a - KERNBASE"
definition P2V :: "u32 \<Rightarrow> u32" where "P2V a = a + KERNBASE"

definition PGROUNDUP :: "u32 \<Rightarrow> u32" where
  "PGROUNDUP sz = (sz + PGSIZE - 1) AND NOT (PGSIZE - 1)"

definition PGROUNDDOWN :: "u32 \<Rightarrow> u32" where
  "PGROUNDDOWN a = a AND NOT (PGSIZE - 1)"

section \<open>The allocator\<close>

record kmem_st =
  mem :: memory
  kern_end :: u32
  kern_data :: u32
  use_lock :: bool
  freelist :: u32

definition kfree :: "u32 \<Rightarrow> ('a kmem_st_scheme, unit) kop" where
  "kfree v s =
     (if v mod PGSIZE \<noteq> 0 \<or> v < kern_end s \<or> PHYSTOP \<le> V2P v then Panic ''kfree''
      else (let m1 = memset (mem s) v 1 PGSIZE;
                m2 = store32 m1 v (freelist s)
            in Ret () (s\<lparr>mem := m2, freelist := v\<rparr>)))"

definition kalloc :: "('a kmem_st_scheme, u32) kop" where
  "kalloc s =
     (let r = freelist s
      in if r \<noteq> 0 then Ret r (s\<lparr>freelist := load32 (mem s) r\<rparr>) else Ret r s)"

text \<open>
  The loop of \<^verbatim>\<open>freerange\<close>.  It visits each page of the address space at most once before the
  address wraps to 0, where \<^verbatim>\<open>kfree\<close> panics, so fuel for all \<open>2 ^ 20\<close> pages is enough.
\<close>

primrec freerange_loop :: "nat \<Rightarrow> u32 \<Rightarrow> u32 \<Rightarrow> ('a kmem_st_scheme, unit) kop" where
  "freerange_loop 0 p vend = khang"
| "freerange_loop (Suc f) p vend =
     (if p + PGSIZE \<le> vend then kseq (kfree p) (freerange_loop f (p + PGSIZE) vend) else kskip)"

definition freerange :: "u32 \<Rightarrow> u32 \<Rightarrow> ('a kmem_st_scheme, unit) kop" where
  "freerange vstart vend = freerange_loop (2 ^ 20 + 1) (PGROUNDUP vstart) vend"

definition kinit1 :: "u32 \<Rightarrow> u32 \<Rightarrow> ('a kmem_st_scheme, unit) kop" where
  "kinit1 vstart vend =
     kseq (kmod (\<lambda>s. s\<lparr>use_lock := False\<rparr>)) (freerange vstart vend)"

definition kinit2 :: "u32 \<Rightarrow> u32 \<Rightarrow> ('a kmem_st_scheme, unit) kop" where
  "kinit2 vstart vend =
     kseq (freerange vstart vend) (kmod (\<lambda>s. s\<lparr>use_lock := True\<rparr>))"

section \<open>Specification: a stack of free pages\<close>

definition page_ok :: "'a kmem_st_scheme \<Rightarrow> u32 \<Rightarrow> bool" where
  "page_ok s v \<longleftrightarrow> v mod PGSIZE = 0 \<and> kern_end s \<le> v \<and> V2P v < PHYSTOP \<and> v \<noteq> 0"

primrec chain :: "memory \<Rightarrow> u32 \<Rightarrow> u32 list \<Rightarrow> bool" where
  "chain m p [] \<longleftrightarrow> p = 0"
| "chain m p (x # xs) \<longleftrightarrow> p = x \<and> p \<noteq> 0 \<and> chain m (load32 m p) xs"

definition free_pages :: "'a kmem_st_scheme \<Rightarrow> u32 list \<Rightarrow> bool" where
  "free_pages s xs \<longleftrightarrow> chain (mem s) (freelist s) xs \<and> distinct xs \<and> (\<forall>x \<in> set xs. page_ok s x)"

text \<open>
  What clients of a page allocator rely on: the free pages behave as a stack of distinct pages.
  \<open>touch\<close> is a client's write into a page it owns.
\<close>

locale page_allocator =
  fixes alloc :: "('s, u32) kop" and free :: "u32 \<Rightarrow> ('s, unit) kop"
    and avail :: "'s \<Rightarrow> u32 list \<Rightarrow> bool" and good :: "'s \<Rightarrow> u32 \<Rightarrow> bool"
  assumes alloc_empty: "avail s [] \<Longrightarrow> alloc s = Ret 0 s"
    and alloc_some: "avail s (x # xs) \<Longrightarrow> \<exists>t. alloc s = Ret x t \<and> avail t xs \<and> good t = good s"
    and free_ok: "avail s xs \<Longrightarrow> good s v \<Longrightarrow> v \<notin> set xs \<Longrightarrow>
      \<exists>t. free v s = Ret () t \<and> avail t (v # xs) \<and> good t = good s"
    and avail_distinct: "avail s xs \<Longrightarrow> distinct xs"
    and avail_good: "avail s xs \<Longrightarrow> x \<in> set xs \<Longrightarrow> good s x"
    and good_nonnull: "good s x \<Longrightarrow> x \<noteq> 0"
begin

text \<open>An owner of pages disjoint from the free ones stays so through allocation and release.\<close>

lemma alloc_fresh:
  assumes "avail s xs" "alloc s = Ret r t" "r \<noteq> 0"
  shows "\<exists>ys. xs = r # ys \<and> avail t ys \<and> r \<notin> set ys \<and> good s r \<and> good t = good s"
proof (cases xs)
  case Nil
  then show ?thesis using assms alloc_empty [of s] by auto
next
  case (Cons x ys)
  then show ?thesis
    using assms alloc_some [of s x ys] avail_distinct [of s xs] avail_good [of s xs x] by auto
qed

lemma alloc_null: "avail s xs \<Longrightarrow> alloc s = Ret 0 t \<Longrightarrow> xs = [] \<and> t = s"
  using alloc_empty alloc_some avail_good good_nonnull
  by (cases xs) (force, metis list.set_intros(1) out.inject(1))

lemma free_then_alloc:
  assumes "avail s xs" "good s v" "v \<notin> set xs"
  shows "\<exists>t u. free v s = Ret () t \<and> alloc t = Ret v u \<and> avail u xs"
  using free_ok [OF assms] alloc_some by blast

end

text \<open>
  Executions of the allocator with its clients: \<open>own\<close> is the set of pages handed out and not
  yet returned.  Clients return only pages they own and write only into them.
\<close>

inductive kmem_step ::
  "'a kmem_st_scheme \<times> u32 set \<Rightarrow> 'a kmem_st_scheme \<times> u32 set \<Rightarrow> bool" where
  k_alloc: "kalloc s = Ret r t \<Longrightarrow> r \<noteq> 0 \<Longrightarrow> kmem_step (s, own) (t, insert r own)"
| k_alloc_fail: "kalloc s = Ret 0 t \<Longrightarrow> kmem_step (s, own) (t, own)"
| k_free: "v \<in> own \<Longrightarrow> kfree v s = Ret () t \<Longrightarrow> kmem_step (s, own) (t, own - {v})"
| own_write: "p \<in> own \<Longrightarrow> unat (a - p) < 4096 \<Longrightarrow>
    kmem_step (s, own) (s\<lparr>mem := (mem s)(a := b)\<rparr>, own)"

inductive_cases kmem_stepE: "kmem_step (s, own) (t, own')"

definition kmem_inv :: "'a kmem_st_scheme \<times> u32 set \<Rightarrow> bool" where
  "kmem_inv = (\<lambda>(s, own). (\<exists>xs. free_pages s xs \<and> set xs \<inter> own = {}) \<and> (\<forall>v \<in> own. page_ok s v))"

definition kmem_init :: "'a kmem_st_scheme \<times> u32 set \<Rightarrow> bool" where
  "kmem_init = (\<lambda>(s, own). own = {} \<and> (\<exists>xs. free_pages s xs))"

section \<open>Pages are disjoint\<close>

lemma unat_PGSIZE [simp]: "unat PGSIZE = 4096"
  by (simp add: PGSIZE_def)

lemma aligned_unat: "p mod PGSIZE = 0 \<longleftrightarrow> unat p mod 4096 = 0"
  by (simp add: PGSIZE_def unat_mod word_unat_eq_iff)

lemma aligned_disjoint:
  assumes "p mod PGSIZE = 0" "q mod PGSIZE = 0" "p \<noteq> q" "k < 4096"
  shows "4096 \<le> unat (q + of_nat k - p)"
proof -
  define d where "d = q - p"
  have "unat d mod 4096 = 0"
  proof -
    have "unat p mod 4096 = 0" "unat q mod 4096 = 0"
      using assms(1,2) by (simp_all add: aligned_unat)
    then show ?thesis
      unfolding d_def unat_sub_if'
      by (auto intro!: mod_eq_0_iff_dvd [THEN iffD2] dvd_diff_nat dvd_add simp: mod_eq_0_iff_dvd)
  qed
  then obtain c where c: "unat d = 4096 * c"
    by (auto simp: mod_eq_0_iff_dvd)
  moreover have "unat d \<noteq> 0"
    using assms(3) by (simp add: d_def unsigned_eq_0_iff)
  moreover have "unat d < 2 ^ 32"
    by (rule unat_u32_bound)
  ultimately have d: "4096 \<le> unat d" "unat d \<le> 2 ^ 32 - 4096"
    by simp_all
  then have "unat (d + of_nat k) = unat d + k"
    using assms(4) by (simp add: unat_word_ariths)
  with d show ?thesis by (simp add: d_def algebra_simps)
qed

lemma page_first_word:
  assumes "p mod PGSIZE = 0" "q mod PGSIZE = 0" "p \<noteq> q" "\<And>x. 4096 \<le> unat (x - p) \<Longrightarrow> m' x = m x"
  shows "load32 m' q = load32 m q"
proof (rule load32_cong)
  fix k :: nat assume "k < 4"
  then show "m' (q + of_nat k) = m (q + of_nat k)"
    using aligned_disjoint [OF assms(1-3), of k] by (intro assms(4)) simp
qed

lemma chain_frame:
  "chain m p xs \<Longrightarrow> (\<And>q. q \<in> set xs \<Longrightarrow> load32 m' q = load32 m q) \<Longrightarrow> chain m' p xs"
  by (induction xs arbitrary: p) auto

lemma chain_page_frame:
  assumes "chain m p xs" "v mod PGSIZE = 0" "\<forall>x \<in> set xs. x mod PGSIZE = 0" "v \<notin> set xs"
    "\<And>x. 4096 \<le> unat (x - v) \<Longrightarrow> m' x = m x"
  shows "chain m' p xs"
  using assms(1)
proof (rule chain_frame)
  fix q assume "q \<in> set xs"
  with assms(3,4) have "q mod PGSIZE = 0" "v \<noteq> q" by auto
  then show "load32 m' q = load32 m q"
    by (rule page_first_word [OF assms(2) _ _ assms(5)])
qed

section \<open>The code implements the stack of pages\<close>

lemma page_ok_frame [simp]:
  "page_ok (s\<lparr>mem := m\<rparr>) v = page_ok s v" "page_ok (s\<lparr>freelist := f\<rparr>) v = page_ok s v"
  "page_ok (s\<lparr>use_lock := l\<rparr>) v = page_ok s v"
  by (simp_all add: page_ok_def)

lemma kfree_mem:
  "4096 \<le> unat (x - v) \<Longrightarrow> store32 (memset m v 1 PGSIZE) v w x = m x"
  by (simp add: store32_other memset_eq)

lemma kfree_eq:
  "page_ok s v \<Longrightarrow>
   kfree v s = Ret () (s\<lparr>mem := store32 (memset (mem s) v 1 PGSIZE) v (freelist s), freelist := v\<rparr>)"
  by (auto simp: kfree_def page_ok_def Let_def)

lemma kfree_free_pages:
  assumes "free_pages s xs" "page_ok s v" "v \<notin> set xs"
  shows "\<exists>t. kfree v s = Ret () t \<and> free_pages t (v # xs) \<and> page_ok t = page_ok s"
proof -
  define m' where "m' = store32 (memset (mem s) v 1 PGSIZE) v (freelist s)"
  have al: "v mod PGSIZE = 0" "v \<noteq> 0" "\<forall>x \<in> set xs. x mod PGSIZE = 0"
    using assms(1,2) by (simp_all add: free_pages_def page_ok_def)
  have "chain m' (freelist s) xs"
  proof (rule chain_page_frame [OF _ al(1) al(3) assms(3)])
    show "chain (mem s) (freelist s) xs"
      using assms(1) by (simp add: free_pages_def)
    show "m' x = mem s x" if "4096 \<le> unat (x - v)" for x
      unfolding m'_def using that by (rule kfree_mem)
  qed
  moreover have "load32 m' v = freelist s"
    by (simp add: m'_def)
  ultimately have "free_pages (s\<lparr>mem := m', freelist := v\<rparr>) (v # xs)"
    using assms al(2) by (simp add: free_pages_def)
  moreover have "page_ok (s\<lparr>mem := m', freelist := v\<rparr>) = page_ok s"
    by (rule ext) simp
  ultimately show ?thesis
    using kfree_eq [OF assms(2)] unfolding m'_def [symmetric] by blast
qed

lemma kalloc_free_pages:
  assumes "free_pages s (x # xs)"
  shows "\<exists>t. kalloc s = Ret x t \<and> free_pages t xs \<and> page_ok t = page_ok s"
proof -
  let ?t = "s\<lparr>freelist := load32 (mem s) x\<rparr>"
  have "kalloc s = Ret x ?t"
    using assms by (auto simp: free_pages_def kalloc_def Let_def)
  moreover have "free_pages ?t xs"
    using assms by (auto simp: free_pages_def)
  moreover have "page_ok ?t = page_ok s"
    by (rule ext) simp
  ultimately show ?thesis by blast
qed

lemma kalloc_empty: "free_pages s [] \<Longrightarrow> kalloc s = Ret 0 s"
  by (simp add: free_pages_def kalloc_def Let_def)

interpretation km: page_allocator kalloc kfree free_pages page_ok
proof
  show "distinct xs" if "free_pages s xs" for s :: "'a kmem_st_scheme" and xs
    using that by (simp add: free_pages_def)
  show "page_ok s x" if "free_pages s xs" "x \<in> set xs" for s :: "'a kmem_st_scheme" and xs x
    using that by (simp add: free_pages_def)
  show "x \<noteq> 0" if "page_ok s x" for s :: "'a kmem_st_scheme" and x
    using that by (simp add: page_ok_def)
qed (fact kalloc_empty kalloc_free_pages kfree_free_pages)+

text \<open>A write into a page that is not free leaves the free list alone.\<close>

lemma write_free_pages:
  assumes "free_pages s xs" "page_ok s p" "p \<notin> set xs" "unat (a - p) < 4096"
  shows "free_pages (s\<lparr>mem := (mem s)(a := b)\<rparr>) xs"
proof -
  have "chain ((mem s)(a := b)) (freelist s) xs"
  proof (rule chain_page_frame [OF _ _ _ assms(3)])
    show "((mem s)(a := b)) x = mem s x" if "4096 \<le> unat (x - p)" for x
      using that assms(4) by auto
  qed (use assms(1,2) in \<open>simp_all add: free_pages_def page_ok_def\<close>)
  then show ?thesis
    using assms(1) by (simp add: free_pages_def)
qed

lemma kmem_step_inv: "kmem_inv x \<Longrightarrow> kmem_step x y \<Longrightarrow> kmem_inv y"
proof -
  assume inv: "kmem_inv x" and step: "kmem_step x y"
  obtain s own t own' where xy: "x = (s, own)" "y = (t, own')" by (metis surj_pair)
  obtain xs where xs: "free_pages s xs" "set xs \<inter> own = {}" and own: "\<forall>v \<in> own. page_ok s v"
    using inv by (auto simp: kmem_inv_def xy)
  from step [unfolded xy] show "kmem_inv y"
  proof (cases rule: kmem_step.cases)
    case (k_alloc r)
    then obtain ys where "xs = r # ys" "free_pages t ys" "r \<notin> set ys" "page_ok s r" "page_ok t = page_ok s"
      using km.alloc_fresh [OF xs(1)] by blast
    with k_alloc xs own show ?thesis by (auto simp: kmem_inv_def xy)
  next
    case k_alloc_fail
    then have "t = s" using km.alloc_null [OF xs(1)] by blast
    with k_alloc_fail inv show ?thesis by (simp add: xy)
  next
    case (k_free v)
    then have "page_ok s v" "v \<notin> set xs" using own xs by auto
    then obtain t' where "kfree v s = Ret () t'" "free_pages t' (v # xs)" "page_ok t' = page_ok s"
      using kfree_free_pages [OF xs(1)] by blast
    with k_free xs own show ?thesis by (auto simp: kmem_inv_def xy intro!: exI [of _ "v # xs"])
  next
    case (own_write p a b)
    then have "free_pages t xs"
      using xs own by (auto intro: write_free_pages)
    with own_write xs own show ?thesis by (auto simp: kmem_inv_def xy)
  qed
qed

interpretation kmi: inv_system kmem_init kmem_step kmem_inv
proof
  show "kmem_inv x" if "kmem_init x" for x :: "'a kmem_st_scheme \<times> u32 set"
    using that by (cases x) (auto simp: kmem_inv_def kmem_init_def)
qed (rule kmem_step_inv)

text \<open>
  C7: in every execution of \<^verbatim>\<open>kalloc\<close> and \<^verbatim>\<open>kfree\<close> with clients that return only pages they own
  and write only into them, \<^verbatim>\<open>kalloc\<close> never hands out a page somebody still owns, and returning an
  owned page never panics; a returned page is the next one handed out.
\<close>

theorem kalloc_exclusive:
  assumes "free_pages s0 xs" "kmem_step\<^sup>*\<^sup>* (s0, {}) (s, own)"
  shows "(kalloc s = Ret r t \<and> r \<noteq> 0 \<longrightarrow> r \<notin> own \<and> page_ok s r) \<and>
    (v \<in> own \<longrightarrow> (\<exists>t u. kfree v s = Ret () t \<and> kalloc t = Ret v u))"
proof -
  have "kmem_init (s0, {})"
    using assms(1) by (auto simp: kmem_init_def)
  then have "kmem_inv (s, own)"
    using assms(2) by (rule kmi.inv_reachable)
  then obtain ys where ys: "free_pages s ys" "set ys \<inter> own = {}" "\<forall>v \<in> own. page_ok s v"
    by (auto simp: kmem_inv_def)
  have "r \<notin> own \<and> page_ok s r" if "kalloc s = Ret r t" "r \<noteq> 0"
    using km.alloc_fresh [OF ys(1) that] ys(2) by auto
  moreover have "\<exists>t u. kfree v s = Ret () t \<and> kalloc t = Ret v u" if "v \<in> own"
    using km.free_then_alloc [OF ys(1), of v] ys that by blast
  ultimately show ?thesis by blast
qed

theorem kalloc_exclusive_witness:
  "\<exists>t u. kfree 0x80400000 \<lparr>mem = (\<lambda>_. 0), kern_end = 0x80200000, kern_data = 0, use_lock = False, freelist = 0\<rparr>
       = Ret () t \<and> kalloc t = Ret 0x80400000 u"
proof -
  let ?s0 = "\<lparr>mem = (\<lambda>_. 0), kern_end = 0x80200000, kern_data = 0, use_lock = False,
    freelist = 0x80400000\<rparr> :: kmem_st"
  have fp: "free_pages ?s0 [0x80400000]"
    by (simp add: free_pages_def page_ok_def load32_def PGSIZE_def V2P_def KERNBASE_def PHYSTOP_def)
  have "kmem_step (?s0, {}) (?s0\<lparr>freelist := 0\<rparr>, insert 0x80400000 {})"
    by (rule kmem_step.k_alloc) (simp_all add: kalloc_def load32_def)
  then have "kmem_step\<^sup>*\<^sup>* (?s0, {}) (?s0\<lparr>freelist := 0\<rparr>, {0x80400000})"
    by (rule r_into_rtranclp)
  from kalloc_exclusive [OF fp this, of 0 ?s0 "0x80400000"] show ?thesis by simp
qed

section \<open>Rounding to pages and the initial free list\<close>

lemma page_mask: "PGSIZE - 1 = mask 12"
  by (simp add: PGSIZE_def mask_eq_exp_minus_1)

lemma PGROUNDDOWN_eq: "PGROUNDDOWN a = a - a mod PGSIZE"
proof -
  have "a AND NOT (mask 12) = push_bit 12 (drop_bit 12 a)"
    by (rule bit_word_eqI) (auto simp: bit_simps)
  also have "\<dots> = a - take_bit 12 a"
    using bits_ident [of 12 a] by (metis add_diff_cancel_right')
  finally have "a AND NOT (mask 12) = a - take_bit 12 a" .
  moreover have "take_bit 12 a = a mod PGSIZE"
    by (simp add: take_bit_eq_mod PGSIZE_def)
  ultimately show ?thesis
    unfolding PGROUNDDOWN_def page_mask by (simp only:)
qed

lemma unat_PGROUNDDOWN: "unat (PGROUNDDOWN a) = unat a - unat a mod 4096"
proof -
  have "unat (a mod PGSIZE) = unat a mod 4096"
    by (simp add: unat_mod)
  moreover have "a mod PGSIZE \<le> a"
    by (simp add: word_le_nat_alt unat_mod)
  ultimately show ?thesis
    by (simp add: PGROUNDDOWN_eq unat_sub)
qed

lemma PGROUNDUP_eq: "PGROUNDUP a = PGROUNDDOWN (a + 4095)"
  by (simp add: PGROUNDUP_def PGROUNDDOWN_def PGSIZE_def algebra_simps)

lemma unat_PGROUNDUP:
  "unat a + 4095 < 2 ^ 32 \<Longrightarrow> unat (PGROUNDUP a) = (unat a + 4095) div 4096 * 4096"
  by (simp add: PGROUNDUP_eq unat_PGROUNDDOWN unat_word_ariths minus_mod_eq_div_mult)

lemma PGROUNDDOWN_aligned [simp]: "PGROUNDDOWN a mod PGSIZE = 0"
  by (simp add: aligned_unat unat_PGROUNDDOWN minus_mod_eq_div_mult)

lemma PGROUNDUP_aligned [simp]: "PGROUNDUP a mod PGSIZE = 0"
  by (simp add: PGROUNDUP_eq)

text \<open>The \<open>n\<close> pages from \<open>p\<close> upwards.\<close>

definition page_run :: "u32 \<Rightarrow> nat \<Rightarrow> u32 list" where
  "page_run p n = map (\<lambda>i. p + of_nat (4096 * i)) [0..<n]"

lemma page_run_0 [simp]: "page_run p 0 = []"
  by (simp add: page_run_def)

lemma page_run_Suc: "page_run p (Suc n) = p # page_run (p + PGSIZE) n"
  by (simp add: page_run_def upt_conv_Cons PGSIZE_def algebra_simps flip: map_Suc_upt del: upt_Suc)

lemma page_okI:
  "p mod PGSIZE = 0 \<Longrightarrow> unat (kern_end s) \<le> unat p \<Longrightarrow> 0x80000000 \<le> unat p \<Longrightarrow> unat p < 0x8E000000 \<Longrightarrow>
   page_ok s p"
proof -
  assume h: "p mod PGSIZE = 0" "unat (kern_end s) \<le> unat p" "0x80000000 \<le> unat p" "unat p < 0x8E000000"
  have "unat (V2P p) = unat p - 0x80000000"
    using h(3) by (simp add: V2P_def KERNBASE_def unat_sub word_le_nat_alt)
  with h show ?thesis
    by (auto simp: page_ok_def PHYSTOP_def word_le_nat_alt word_less_nat_alt)
qed

lemma kern_end_kfree: "kfree v s = Ret () t \<Longrightarrow> kern_end t = kern_end s"
  by (auto simp: kfree_def Let_def split: if_splits)

lemma freerange_loop_pages:
  assumes "free_pages s xs" "p mod PGSIZE = 0" "unat (kern_end s) \<le> unat p" "0x80000000 \<le> unat p"
    "unat vend \<le> 0x8E000000" "\<forall>x \<in> set xs. unat x < unat p \<or> unat vend \<le> unat x"
    "unat p + 4096 * n \<le> unat vend" "unat vend < unat p + 4096 * Suc n" "n < f"
  shows "\<exists>t. freerange_loop f p vend s = Ret () t \<and> free_pages t (rev (page_run p n) @ xs)"
  using assms
proof (induction n arbitrary: s xs p f)
  case 0
  then obtain f' where f: "f = Suc f'" by (cases f) auto
  have "unat (p + PGSIZE) = unat p + 4096"
    using 0 by (simp add: unat_word_ariths)
  then have "\<not> p + PGSIZE \<le> vend"
    using 0 by (simp add: word_le_nat_alt)
  then show ?case using 0(1) by (simp add: f kskip_def kret_def)
next
  case (Suc n)
  then obtain f' where f: "f = Suc f'" "n < f'" by (cases f) auto
  have next_p: "unat (p + PGSIZE) = unat p + 4096"
    using Suc.prems by (simp add: unat_word_ariths)
  then have guard: "p + PGSIZE \<le> vend"
    using Suc.prems by (simp add: word_le_nat_alt)
  have "page_ok s p"
    using Suc.prems by (intro page_okI) auto
  moreover have "p \<notin> set xs"
    using Suc.prems(6,7) by auto
  ultimately obtain s' where s': "kfree p s = Ret () s'" "free_pages s' (p # xs)"
    using kfree_free_pages [OF Suc.prems(1)] by blast
  have "\<exists>t. freerange_loop f' (p + PGSIZE) vend s' = Ret () t \<and>
      free_pages t (rev (page_run (p + PGSIZE) n) @ p # xs)"
  proof (rule Suc.IH)
    show "(p + PGSIZE) mod PGSIZE = 0"
      using Suc.prems(2) by (simp add: aligned_unat next_p)
    show "\<forall>x \<in> set (p # xs). unat x < unat (p + PGSIZE) \<or> unat vend \<le> unat x"
      using Suc.prems(6) by (auto simp: next_p)
  qed (use Suc.prems s' f kern_end_kfree [OF s'(1)] in \<open>simp_all add: next_p\<close>)
  then show ?case
    using guard s'(1) by (simp add: f page_run_Suc)
qed

text \<open>
  C15: \<^verbatim>\<open>freerange\<close> puts exactly the whole pages between its two bounds on the free list (the
  partial pages at either end are left out), on top of the pages that were free before.
\<close>

theorem freerange_frees_range:
  assumes "free_pages s xs" "kern_end s \<le> PGROUNDUP vstart" "KERNBASE \<le> vstart" "vstart \<le> P2V PHYSTOP"
    "PGROUNDUP vstart \<le> vend" "vend \<le> P2V PHYSTOP" "\<forall>x \<in> set xs. x < PGROUNDUP vstart \<or> vend \<le> x"
  shows "\<exists>t. freerange vstart vend s = Ret () t \<and>
    free_pages t (rev (page_run (PGROUNDUP vstart) (unat (vend - PGROUNDUP vstart) div 4096)) @ xs)"
proof -
  define p where "p = PGROUNDUP vstart"
  define n where "n = unat (vend - p) div 4096"
  have b: "0x80000000 \<le> unat vstart" "unat vstart \<le> 0x8E000000" "unat p \<le> unat vend" "unat vend \<le> 0x8E000000"
    "unat (kern_end s) \<le> unat p"
    using assms(2-6) by (simp_all add: KERNBASE_def P2V_def PHYSTOP_def word_le_nat_alt p_def)
  have "unat p = (unat vstart + 4095) div 4096 * 4096"
    using b by (simp add: p_def unat_PGROUNDUP)
  then have lo: "0x80000000 \<le> unat p"
    using b(1) by linarith
  have d: "unat (vend - p) = unat vend - unat p"
    using b by (simp add: unat_sub word_le_nat_alt)
  have "unat p + 4096 * n \<le> unat vend" "unat vend < unat p + 4096 * Suc n"
    unfolding n_def d using b(3) by (auto simp: )
  moreover have "n < 2 ^ 20 + 1"
    unfolding n_def d using b(4) by simp
  ultimately show ?thesis
    using freerange_loop_pages [of s xs p vend n "2 ^ 20 + 1"] assms(1,7) b lo
    by (simp add: freerange_def p_def n_def word_le_nat_alt word_less_nat_alt)
qed

theorem freerange_frees_range_witness:
  "\<exists>t. freerange 0x80400001 0x80403000
      \<lparr>mem = (\<lambda>_. 0), kern_end = 0x80200000, kern_data = 0, use_lock = False, freelist = 0\<rparr> = Ret () t \<and>
    free_pages t [0x80402000, 0x80401000]"
proof -
  let ?s0 = "\<lparr>mem = (\<lambda>_. 0), kern_end = 0x80200000, kern_data = 0, use_lock = False,
    freelist = 0\<rparr> :: kmem_st"
  have r: "PGROUNDUP 0x80400001 = 0x80401000"
    by (simp add: PGROUNDUP_def PGSIZE_def)
  have "free_pages ?s0 []"
    by (simp add: free_pages_def)
  moreover have "page_run 0x80401000 2 = [0x80401000, 0x80402000]"
    by (simp add: page_run_def upt_rec)
  ultimately show ?thesis
    using freerange_frees_range [of ?s0 "[]" "0x80400001" "0x80403000"]
    by (simp add: r KERNBASE_def P2V_def PHYSTOP_def)
qed

end
