(* ===== verification/ProcTable.thy ===== *)
theory ProcTable
  imports Kalloc
begin

text \<open>
  The process table of \<^verbatim>\<open>proc.h\<close> and the operations of \<^verbatim>\<open>proc.c\<close> that need nothing but the
  table: sleeping and waking, yielding, killing, counting processes, and the allocation of a
  table slot.  A \<^verbatim>\<open>struct proc *\<close> is the index of its slot, the null pointer is \<open>None\<close>.  The
  trap frame and the kernel context that live on a process's kernel stack are values of its
  slot.  A critical section of \<^verbatim>\<open>ptable.lock\<close> is one atomic operation here (theory \<open>Spinlock\<close>
  shows the mutual exclusion this rests on).
\<close>

section \<open>Data\<close>

text \<open>The addresses that processes sleep on.\<close>

datatype chan =
    ChBuf nat | ChBufLock nat | ChInodeLock nat | ChLog
  | ChPipeRead u32 | ChPipeWrite u32 | ChProc nat | ChTicks | ChInput

text \<open>The spin locks that are passed to \<^verbatim>\<open>sleep\<close>.\<close>

datatype lockref = L_ptable | L_tickslock | L_log | L_idelock | L_cons | L_pipe u32 | L_sleeplock

datatype procstate = UNUSED | EMBRYO | SLEEPING | RUNNABLE | RUNNING | ZOMBIE

record trapframe =
  tf_edi :: u32
  tf_esi :: u32
  tf_ebp :: u32
  tf_oesp :: u32
  tf_ebx :: u32
  tf_edx :: u32
  tf_ecx :: u32
  tf_eax :: u32
  tf_gs :: u16
  tf_fs :: u16
  tf_es :: u16
  tf_ds :: u16
  tf_trapno :: u32
  tf_err :: u32
  tf_eip :: u32
  tf_cs :: u16
  tf_eflags :: u32
  tf_esp :: u32
  tf_ss :: u16

record kcontext =
  ctx_edi :: u32
  ctx_esi :: u32
  ctx_ebx :: u32
  ctx_ebp :: u32
  ctx_eip :: u32

record proc =
  p_sz :: u32
  p_pgdir :: u32
  p_kstack :: u32
  p_state :: procstate
  p_pid :: int
  p_parent :: "nat option"
  p_tf :: trapframe
  p_context :: kcontext
  p_chan :: "chan option"
  p_killed :: bool
  p_ofile :: "nat option list"
  p_cwd :: "nat option"
  p_name :: bytes
  p_syscall_count :: int
  p_tickets :: int
  p_execution_count :: int
  p_execution_time :: int
  p_pass :: int
  p_stride :: int
  p_stack :: u32
  p_thread_indictor :: int

definition NPROC :: nat where "NPROC = 64"
definition NOFILE :: nat where "NOFILE = 16"
definition KSTACKSIZE :: u32 where "KSTACKSIZE = 4096"

text \<open>\<open>cur\<close> is the process this kernel thread runs for, \<^verbatim>\<open>myproc()\<close>; \<open>forkret_addr\<close> and \<open>trapret_addr\<close>
  are the link-time addresses of the two code symbols.\<close>

record proc_st = kmem_st +
  ptable :: "proc list"
  nextpid :: int
  initproc :: "nat option"
  numofthread :: int
  cur :: "nat option"
  ticks :: nat
  forkret_addr :: u32
  trapret_addr :: u32

definition upd_proc :: "nat \<Rightarrow> (proc \<Rightarrow> proc) \<Rightarrow> 'a proc_st_scheme \<Rightarrow> 'a proc_st_scheme" where
  "upd_proc i f s = s\<lparr>ptable := (ptable s)[i := f (ptable s ! i)]\<rparr>"

definition myproc :: "('a proc_st_scheme, nat option) kop" where
  "myproc = kget cur"

text \<open>\<^verbatim>\<open>myproc()->f\<close>: a fault when no process runs.\<close>

definition curproc :: "('a proc_st_scheme, nat) kop" where
  "curproc = kbind myproc kderef"

section \<open>Sleeping, waking, yielding\<close>

text \<open>
  \<^verbatim>\<open>sched()\<close> switches to the scheduler; it refuses to do so for a process still marked as
  running.  (Its checks of the lock nesting concern the elided spin locks.)
\<close>

definition sched :: "('a proc_st_scheme, 'b) kop" where
  "sched s = (case cur s of
     None \<Rightarrow> Fault
   | Some i \<Rightarrow> if p_state (ptable s ! i) = RUNNING then Panic ''sched running'' else Swtch s)"

definition sleep :: "chan \<Rightarrow> lockref option \<Rightarrow> ('a proc_st_scheme, 'b) kop" where
  "sleep ch lk =
     kbind myproc (\<lambda>p.
     case p of
       None \<Rightarrow> kpanic ''sleep''
     | Some i \<Rightarrow>
       (case lk of
          None \<Rightarrow> kpanic ''sleep without lk''
        | Some _ \<Rightarrow>
            kbind (kmod (upd_proc i (\<lambda>p. p\<lparr>p_chan := Some ch, p_state := SLEEPING\<rparr>))) (\<lambda>_. sched)))"

text \<open>What \<^verbatim>\<open>sleep\<close> does once the process runs again.\<close>

definition sleep_return :: "('a proc_st_scheme, unit) kop" where
  "sleep_return = kbind curproc (\<lambda>i. kmod (upd_proc i (\<lambda>p. p\<lparr>p_chan := None\<rparr>)))"

definition wakeup1 :: "chan \<Rightarrow> ('a proc_st_scheme, unit) kop" where
  "wakeup1 ch = kmod (\<lambda>s. s\<lparr>ptable :=
     map (\<lambda>p. if p_state p = SLEEPING \<and> p_chan p = Some ch then p\<lparr>p_state := RUNNABLE\<rparr> else p) (ptable s)\<rparr>)"

definition wakeup :: "chan \<Rightarrow> ('a proc_st_scheme, unit) kop" where
  "wakeup ch = wakeup1 ch"

definition yield :: "('a proc_st_scheme, 'b) kop" where
  "yield = kbind curproc (\<lambda>i.
     kbind (kmod (upd_proc i (\<lambda>p. p\<lparr>p_state := RUNNABLE\<rparr>))) (\<lambda>_. sched))"

definition kill :: "int \<Rightarrow> ('a proc_st_scheme, int) kop" where
  "kill pid s =
     (case find_index (\<lambda>p. p_pid p = pid) (ptable s) of
        None \<Rightarrow> Ret (- 1) s
      | Some i \<Rightarrow>
          Ret 0 (upd_proc i (\<lambda>p. let q = p\<lparr>p_killed := True\<rparr>
            in if p_state q = SLEEPING then q\<lparr>p_state := RUNNABLE\<rparr> else q) s))"

definition running_processes :: "('a proc_st_scheme, int) kop" where
  "running_processes = kget (\<lambda>s. int (length (filter (\<lambda>p. p_state p \<noteq> UNUSED) (ptable s))))"

section \<open>Allocating a slot\<close>

definition zero_context :: kcontext where
  "zero_context = \<lparr>ctx_edi = 0, ctx_esi = 0, ctx_ebx = 0, ctx_ebp = 0, ctx_eip = 0\<rparr>"

definition zero_trapframe :: trapframe where
  "zero_trapframe = \<lparr>tf_edi = 0, tf_esi = 0, tf_ebp = 0, tf_oesp = 0, tf_ebx = 0, tf_edx = 0, tf_ecx = 0,
     tf_eax = 0, tf_gs = 0, tf_fs = 0, tf_es = 0, tf_ds = 0, tf_trapno = 0, tf_err = 0, tf_eip = 0,
     tf_cs = 0, tf_eflags = 0, tf_esp = 0, tf_ss = 0\<rparr>"

text \<open>A slot of the zeroed table.\<close>

definition zero_proc :: proc where
  "zero_proc = \<lparr>p_sz = 0, p_pgdir = 0, p_kstack = 0, p_state = UNUSED, p_pid = 0, p_parent = None,
     p_tf = zero_trapframe, p_context = zero_context, p_chan = None, p_killed = False,
     p_ofile = replicate NOFILE None, p_cwd = None, p_name = replicate 16 0, p_syscall_count = 0,
     p_tickets = 0, p_execution_count = 0, p_execution_time = 0, p_pass = 0, p_stride = 0,
     p_stack = 0, p_thread_indictor = 0\<rparr>"

text \<open>
  The kernel stack page holds, from its top, the 76-byte trap frame, the return address
  \<^verbatim>\<open>trapret\<close>, and the 20-byte context.
\<close>

definition allocproc :: "('a proc_st_scheme, nat option) kop" where
  "allocproc =
     kbind (kget (\<lambda>s. find_index (\<lambda>p. p_state p = UNUSED) (ptable s))) (\<lambda>found.
     case found of
       None \<Rightarrow> kret None
     | Some i \<Rightarrow>
       kbind (kmod (\<lambda>s. (upd_proc i (\<lambda>p. p\<lparr>p_syscall_count := 0, p_state := EMBRYO, p_pid := nextpid s\<rparr>) s)
                \<lparr>nextpid := s32 (nextpid s + 1)\<rparr>)) (\<lambda>_.
       kbind kalloc (\<lambda>k.
       kbind (kmod (upd_proc i (\<lambda>p. p\<lparr>p_kstack := k\<rparr>))) (\<lambda>_.
       if k = 0 then
         kbind (kmod (upd_proc i (\<lambda>p. p\<lparr>p_state := UNUSED\<rparr>))) (\<lambda>_. kret None)
       else
         kbind (kmod (\<lambda>s. s\<lparr>mem := store32 (mem s) (k + KSTACKSIZE - 76 - 4) (trapret_addr s)\<rparr>)) (\<lambda>_.
         kbind (kmod (\<lambda>s. upd_proc i (\<lambda>p. p\<lparr>p_context := zero_context\<lparr>ctx_eip := forkret_addr s\<rparr>\<rparr>) s)) (\<lambda>_.
         kbind (kmod (upd_proc i (\<lambda>p. p\<lparr>p_pass := 0, p_thread_indictor := 0\<rparr>))) (\<lambda>_.
         kret (Some i)))))))) "

section \<open>Properties\<close>

lemma upd_proc_simps [simp]:
  "mem (upd_proc i f s) = mem s" "kern_end (upd_proc i f s) = kern_end s" "freelist (upd_proc i f s) = freelist s"
  "nextpid (upd_proc i f s) = nextpid s" "initproc (upd_proc i f s) = initproc s" "cur (upd_proc i f s) = cur s"
  "numofthread (upd_proc i f s) = numofthread s" "ticks (upd_proc i f s) = ticks s"
  "forkret_addr (upd_proc i f s) = forkret_addr s" "trapret_addr (upd_proc i f s) = trapret_addr s"
  "length (ptable (upd_proc i f s)) = length (ptable s)"
  "i < length (ptable s) \<Longrightarrow> ptable (upd_proc i f s) ! i = f (ptable s ! i)"
  "i \<noteq> j \<Longrightarrow> ptable (upd_proc i f s) ! j = ptable s ! j"
  by (simp_all add: upd_proc_def)

lemma ptable_upd_proc: "ptable (upd_proc i f s) = (ptable s)[i := f (ptable s ! i)]"
  by (simp add: upd_proc_def)

lemma wp_myproc [simp]: "wp myproc Q s = Q (cur s) s"
  by (simp add: myproc_def)

lemma wp_curproc [simp]: "wp curproc Q s = (\<exists>i. cur s = Some i \<and> Q i s)"
  by (simp add: curproc_def)

lemma wp_wakeup1 [simp]:
  "wp (wakeup1 ch) Q s = Q () (s\<lparr>ptable :=
     map (\<lambda>p. if p_state p = SLEEPING \<and> p_chan p = Some ch then p\<lparr>p_state := RUNNABLE\<rparr> else p) (ptable s)\<rparr>)"
  by (simp add: wakeup1_def)

end
