(* ===== verification/Sleeplock.thy ===== *)
theory Sleeplock
  imports ProcTable
begin

text \<open>
  The sleeping locks of \<^verbatim>\<open>sleeplock.c\<close>.  A sleep lock lives inside a buffer or an inode, so the
  operations take the channel that stands for its address and the read and update functions
  of its place in the kernel state.  The locale \<open>sleeplock_slot\<close> is the contract of such a
  place; its lemmas give the behaviour of the operations, mutual exclusion between processes,
  and that no process sleeps on a lock that is free.
\<close>

record sleeplock =
  sl_locked :: bool
  sl_pid :: int

type_synonym 'a slget = "'a proc_st_scheme \<Rightarrow> sleeplock"
type_synonym 'a slupd = "(sleeplock \<Rightarrow> sleeplock) \<Rightarrow> 'a proc_st_scheme \<Rightarrow> 'a proc_st_scheme"

definition initsleeplock :: "'a slupd \<Rightarrow> ('a proc_st_scheme, unit) kop" where
  "initsleeplock put = kmod (put (\<lambda>l. l\<lparr>sl_locked := False, sl_pid := 0\<rparr>))"

text \<open>
  The loop \<^verbatim>\<open>while (lk->locked) sleep(lk, ...)\<close>: a process that finds the lock taken sleeps; when
  it runs again it executes \<open>sleep_return\<close> and then this operation from its start.
\<close>

definition acquiresleep :: "chan \<Rightarrow> 'a slget \<Rightarrow> 'a slupd \<Rightarrow> ('a proc_st_scheme, unit) kop" where
  "acquiresleep ch get put =
     kbind (kget get) (\<lambda>lk.
     if sl_locked lk then sleep ch (Some L_sleeplock)
     else
       kbind (kmod (put (\<lambda>l. l\<lparr>sl_locked := True\<rparr>))) (\<lambda>_.
       kbind curproc (\<lambda>i.
       kbind (kget (\<lambda>s. p_pid (ptable s ! i))) (\<lambda>pid.
       kmod (put (\<lambda>l. l\<lparr>sl_pid := pid\<rparr>))))))"

definition releasesleep :: "chan \<Rightarrow> 'a slupd \<Rightarrow> ('a proc_st_scheme, unit) kop" where
  "releasesleep ch put =
     kbind (kmod (put (\<lambda>l. l\<lparr>sl_locked := False, sl_pid := 0\<rparr>))) (\<lambda>_. wakeup ch)"

definition holdingsleep :: "'a slget \<Rightarrow> ('a proc_st_scheme, bool) kop" where
  "holdingsleep get =
     kbind (kget get) (\<lambda>lk.
     if sl_locked lk then
       kbind curproc (\<lambda>i. kget (\<lambda>s. sl_pid (get s) = p_pid (ptable s ! i)))
     else kret False)"

section \<open>A machine of processes that use one lock\<close>

text \<open>
  \<open>sl_step\<close> lets the processes of the table run in any order; \<open>H\<close> is the set of processes that
  returned from \<^verbatim>\<open>acquiresleep\<close> and have not yet called \<^verbatim>\<open>releasesleep\<close>.
\<close>

inductive sl_step :: "chan \<Rightarrow> 'a slget \<Rightarrow> 'a slupd \<Rightarrow>
    'a proc_st_scheme \<times> nat set \<Rightarrow> 'a proc_st_scheme \<times> nat set \<Rightarrow> bool"
  for ch :: chan and get :: "'a slget" and put :: "'a slupd" where
  sl_acquire: "i < length (ptable s) \<Longrightarrow> p_state (ptable s ! i) = RUNNING \<Longrightarrow> i \<notin> H \<Longrightarrow>
    acquiresleep ch get put (s\<lparr>cur := Some i\<rparr>) = Ret () t \<Longrightarrow> sl_step ch get put (s, H) (t, insert i H)"
| sl_block: "i < length (ptable s) \<Longrightarrow> p_state (ptable s ! i) = RUNNING \<Longrightarrow> i \<notin> H \<Longrightarrow>
    acquiresleep ch get put (s\<lparr>cur := Some i\<rparr>) = Swtch t \<Longrightarrow> sl_step ch get put (s, H) (t, H)"
| sl_release: "i \<in> H \<Longrightarrow> p_state (ptable s ! i) = RUNNING \<Longrightarrow>
    releasesleep ch put (s\<lparr>cur := Some i\<rparr>) = Ret () t \<Longrightarrow> sl_step ch get put (s, H) (t, H - {i})"
| sl_dispatch: "p_state (ptable s ! i) = RUNNABLE \<Longrightarrow>
    sl_step ch get put (s, H) (upd_proc i (\<lambda>p. p\<lparr>p_state := RUNNING\<rparr>) s, H)"
| sl_resume: "p_state (ptable s ! i) = RUNNING \<Longrightarrow>
    sleep_return (s\<lparr>cur := Some i\<rparr>) = Ret () t \<Longrightarrow> sl_step ch get put (s, H) (t, H)"
| sl_yield: "p_state (ptable s ! i) = RUNNING \<Longrightarrow>
    yield (s\<lparr>cur := Some i\<rparr>) = (Swtch t :: (unit, 'a proc_st_scheme) out) \<Longrightarrow> sl_step ch get put (s, H) (t, H)"
| sl_sleep_other: "p_state (ptable s ! i) = RUNNING \<Longrightarrow> c \<noteq> ch \<Longrightarrow>
    sleep c lk (s\<lparr>cur := Some i\<rparr>) = (Swtch t :: (unit, 'a proc_st_scheme) out) \<Longrightarrow> sl_step ch get put (s, H) (t, H)"
| sl_wakeup_other: "wakeup c s = Ret () t \<Longrightarrow> c \<noteq> ch \<Longrightarrow> sl_step ch get put (s, H) (t, H)"
| sl_kill: "kill pid s = Ret r t \<Longrightarrow> sl_step ch get put (s, H) (t, H)"

definition sl_inv :: "chan \<Rightarrow> 'a slget \<Rightarrow> 'a proc_st_scheme \<times> nat set \<Rightarrow> bool" where
  "sl_inv ch get = (\<lambda>(s, H).
     (sl_locked (get s) \<longleftrightarrow> H \<noteq> {}) \<and>
     (\<forall>i \<in> H. i < length (ptable s) \<and> sl_pid (get s) = p_pid (ptable s ! i)) \<and>
     (\<forall>i \<in> H. \<forall>j \<in> H. i = j) \<and>
     (\<forall>i < length (ptable s). p_state (ptable s ! i) = SLEEPING \<and> p_chan (ptable s ! i) = Some ch \<longrightarrow> H \<noteq> {}))"

text \<open>A table entry changed without touching pids and without making anyone sleep on \<open>ch\<close>.\<close>

definition no_new_sleeper :: "chan \<Rightarrow> proc list \<Rightarrow> proc list \<Rightarrow> bool" where
  "no_new_sleeper ch ps qs \<longleftrightarrow> length qs = length ps \<and>
     (\<forall>i < length ps. p_pid (qs ! i) = p_pid (ps ! i) \<and>
       (p_state (qs ! i) = SLEEPING \<and> p_chan (qs ! i) = Some ch \<longrightarrow>
        p_state (ps ! i) = SLEEPING \<and> p_chan (ps ! i) = Some ch))"

lemma no_new_sleeper_update:
  assumes "\<And>p. p_pid (f p) = p_pid p"
    and "\<And>p. p_state (f p) = SLEEPING \<and> p_chan (f p) = Some ch \<Longrightarrow> p_state p = SLEEPING \<and> p_chan p = Some ch"
  shows "no_new_sleeper ch ps (ps[i := f (ps ! i)])"
  unfolding no_new_sleeper_def
proof (intro conjI allI impI)
  fix j assume j: "j < length ps"
  show "p_pid (ps[i := f (ps ! i)] ! j) = p_pid (ps ! j)"
    by (cases "i = j") (use j assms(1) in simp_all)
  assume *: "p_state (ps[i := f (ps ! i)] ! j) = SLEEPING \<and> p_chan (ps[i := f (ps ! i)] ! j) = Some ch"
  have "p_state (ps ! j) = SLEEPING \<and> p_chan (ps ! j) = Some ch"
    by (cases "i = j") (use j * assms(2) [of "ps ! j"] in simp_all)
  then show "p_state (ps ! j) = SLEEPING" "p_chan (ps ! j) = Some ch"
    by blast+
qed simp

lemma no_new_sleeper_refl [simp]: "no_new_sleeper ch ps ps"
  by (simp add: no_new_sleeper_def)

section \<open>The contract of a place that holds a lock\<close>

locale sleeplock_slot =
  fixes ok :: "'a proc_st_scheme \<Rightarrow> bool"
    and get :: "'a slget"
    and put :: "'a slupd"
    and ch :: chan
  assumes get_put: "ok s \<Longrightarrow> get (put f s) = f (get s)"
    and ok_put: "ok s \<Longrightarrow> ok (put f s)"
    and ptable_put: "ptable (put f s) = ptable s"
    and cur_put: "cur (put f s) = cur s"
    and get_ptable: "get (s\<lparr>ptable := ps\<rparr>) = get s"
    and get_cur: "get (s\<lparr>cur := c\<rparr>) = get s"
    and ok_ptable: "ok (s\<lparr>ptable := ps\<rparr>) = ok s"
    and ok_cur: "ok (s\<lparr>cur := c\<rparr>) = ok s"
begin

lemma get_upd_proc: "get (upd_proc i f s) = get s" "ok (upd_proc i f s) = ok s"
  by (simp_all add: upd_proc_def get_ptable ok_ptable)

lemma wp_acquiresleep:
  "\<not> sl_locked (get s) \<Longrightarrow> ok s \<Longrightarrow>
   wp (acquiresleep ch get put) Q s =
     (\<exists>i. cur s = Some i \<and>
        Q () (put (\<lambda>l. l\<lparr>sl_pid := p_pid (ptable s ! i)\<rparr>) (put (\<lambda>l. l\<lparr>sl_locked := True\<rparr>) s)))"
  by (auto simp: acquiresleep_def cur_put ptable_put)

lemma acquiresleep_taken:
  assumes "sl_locked (get s)" "cur s = Some i" "i < length (ptable s)"
  shows "acquiresleep ch get put s = Swtch (upd_proc i (\<lambda>p. p\<lparr>p_chan := Some ch, p_state := SLEEPING\<rparr>) s)"
  using assms
  by (simp add: acquiresleep_def kbind_def kget_def sleep_def myproc_def kmod_def sched_def)

lemma wp_releasesleep:
  "wp (releasesleep ch put) Q s =
   wp (wakeup ch) Q (put (\<lambda>l. l\<lparr>sl_locked := False, sl_pid := 0\<rparr>) s)"
  by (simp add: releasesleep_def)

lemma wp_holdingsleep:
  "cur s = Some i \<Longrightarrow>
   wp (holdingsleep get) Q s = Q (sl_locked (get s) \<and> sl_pid (get s) = p_pid (ptable s ! i)) s"
  by (simp add: holdingsleep_def)

text \<open>A change of the process table alone keeps the invariant.\<close>

lemma inv_table_change:
  assumes inv: "sl_inv ch get (s, H)" and ns: "no_new_sleeper ch (ptable s) (ptable t)" and g: "get t = get s"
  shows "sl_inv ch get (t, H)"
proof -
  have len: "length (ptable t) = length (ptable s)"
    using ns by (simp add: no_new_sleeper_def)
  have pid: "p_pid (ptable t ! i) = p_pid (ptable s ! i)" if "i < length (ptable s)" for i
    using ns that by (simp add: no_new_sleeper_def)
  have sl: "p_state (ptable s ! i) = SLEEPING \<and> p_chan (ptable s ! i) = Some ch"
    if "i < length (ptable s)" "p_state (ptable t ! i) = SLEEPING \<and> p_chan (ptable t ! i) = Some ch" for i
    using ns that by (simp add: no_new_sleeper_def)
  show ?thesis
    using inv pid sl by (simp add: sl_inv_def g len)
qed

lemma inv_acquire:
  assumes inv: "sl_inv ch get (s, H)" and ok: "ok s" and i: "i < length (ptable s)"
    and a: "acquiresleep ch get put (s\<lparr>cur := Some i\<rparr>) = Ret () t"
  shows "sl_inv ch get (t, insert i H) \<and> ok t \<and> H = {}"
proof -
  let ?s = "s\<lparr>cur := Some i\<rparr>"
  have free: "\<not> sl_locked (get s)"
  proof
    assume "sl_locked (get s)"
    then have "acquiresleep ch get put ?s \<noteq> Ret () t"
      using acquiresleep_taken [of ?s i] i by (simp add: get_cur)
    then show False using a by simp
  qed
  then have H: "H = {}"
    using inv by (simp add: sl_inv_def)
  have "wp (acquiresleep ch get put) (\<lambda>_ u. u = t) ?s"
    using a by (simp add: wp_def)
  then have t: "t = put (\<lambda>l. l\<lparr>sl_pid := p_pid (ptable s ! i)\<rparr>) (put (\<lambda>l. l\<lparr>sl_locked := True\<rparr>) ?s)"
    using free ok by (simp add: wp_acquiresleep get_cur ok_cur)
  have "get t = (get s)\<lparr>sl_locked := True, sl_pid := p_pid (ptable s ! i)\<rparr>"
    using ok unfolding t by (simp add: get_put ok_put get_cur ok_cur)
  moreover have "ptable t = ptable s" "ok t"
    using ok unfolding t by (simp_all add: ptable_put ok_put ok_cur)
  ultimately show ?thesis
    using H i by (simp add: sl_inv_def)
qed

lemma inv_block:
  assumes inv: "sl_inv ch get (s, H)" and ok: "ok s" and i: "i < length (ptable s)"
    and a: "acquiresleep ch get put (s\<lparr>cur := Some i\<rparr>) = Swtch t"
  shows "sl_inv ch get (t, H) \<and> ok t"
proof -
  let ?s = "s\<lparr>cur := Some i\<rparr>"
  have taken: "sl_locked (get s)"
  proof (rule ccontr)
    assume "\<not> sl_locked (get s)"
    then have "wp (acquiresleep ch get put) (\<lambda>_ _. True) ?s"
      using ok by (simp add: wp_acquiresleep get_cur ok_cur)
    then show False using a by (simp add: wp_def)
  qed
  then have H: "H \<noteq> {}" and ih: "\<forall>j \<in> H. j < length (ptable s)"
    using inv by (simp_all add: sl_inv_def)
  have t: "t = upd_proc i (\<lambda>p. p\<lparr>p_chan := Some ch, p_state := SLEEPING\<rparr>) ?s"
    using a acquiresleep_taken [of ?s i] taken i by (simp add: get_cur)
  have "p_pid (ptable t ! j) = p_pid (ptable s ! j)" if "j \<in> H" for j
    by (cases "i = j") (use i in \<open>simp_all add: t\<close>)
  moreover have "get t = get s" "ok t" "length (ptable t) = length (ptable s)"
    using ok by (simp_all add: t get_upd_proc get_cur ok_cur)
  ultimately show ?thesis
    using inv H by (simp add: sl_inv_def)
qed

lemma inv_release:
  assumes inv: "sl_inv ch get (s, H)" and ok: "ok s" and i: "i \<in> H"
    and a: "releasesleep ch put (s\<lparr>cur := Some i\<rparr>) = Ret () t"
  shows "sl_inv ch get (t, H - {i}) \<and> ok t"
proof -
  let ?s = "put (\<lambda>l. l\<lparr>sl_locked := False, sl_pid := 0\<rparr>) (s\<lparr>cur := Some i\<rparr>)"
  have H: "H - {i} = {}"
    using inv i by (auto simp: sl_inv_def)
  have "wp (releasesleep ch put) (\<lambda>_ u. u = t) (s\<lparr>cur := Some i\<rparr>)"
    using a by (simp add: wp_def)
  then have t: "t = ?s\<lparr>ptable := map (\<lambda>p. if p_state p = SLEEPING \<and> p_chan p = Some ch
      then p\<lparr>p_state := RUNNABLE\<rparr> else p) (ptable s)\<rparr>"
    by (simp add: wp_releasesleep wakeup_def ptable_put)
  have "\<not> sl_locked (get t)" "ok t"
    using ok unfolding t by (simp_all add: get_put get_ptable ok_ptable ok_put ok_cur)
  moreover have "\<not> (p_state (ptable t ! j) = SLEEPING \<and> p_chan (ptable t ! j) = Some ch)"
    if "j < length (ptable s)" for j
    using that unfolding t by auto
  moreover have "length (ptable t) = length (ptable s)"
    unfolding t by simp
  ultimately show ?thesis
    by (simp add: sl_inv_def H)
qed

lemma inv_step:
  assumes "sl_step ch get put x y"
  shows "sl_inv ch get x \<Longrightarrow> ok (fst x) \<Longrightarrow> sl_inv ch get y \<and> ok (fst y)"
  using assms
proof (induction rule: sl_step.induct)
  case (sl_acquire i s H t)
  then show ?case using inv_acquire [of s H i t] by auto
next
  case (sl_block i s H t)
  then show ?case using inv_block [of s H i t] by simp
next
  case (sl_release i H s t)
  then show ?case using inv_release [of s H i t] by simp
next
  case (sl_dispatch s i H)
  then show ?case
    by (auto intro!: inv_table_change [of s] no_new_sleeper_update simp: ptable_upd_proc get_upd_proc)
next
  case (sl_resume s i t H)
  then have t: "t = upd_proc i (\<lambda>p. p\<lparr>p_chan := None\<rparr>) (s\<lparr>cur := Some i\<rparr>)"
    by (simp add: sleep_return_def curproc_def myproc_def kget_def kmod_def kderef_def kret_def kbind_def)
  show ?case
    using sl_resume
    by (auto intro!: inv_table_change [of s] no_new_sleeper_update
        simp: t ptable_upd_proc get_upd_proc get_cur ok_cur)
next
  case (sl_yield s i t H)
  then have t: "t = upd_proc i (\<lambda>p. p\<lparr>p_state := RUNNABLE\<rparr>) (s\<lparr>cur := Some i\<rparr>)"
    by (simp add: yield_def curproc_def myproc_def kget_def kmod_def kderef_def kret_def kbind_def sched_def
        split: if_splits)
  show ?case
    using sl_yield
    by (auto intro!: inv_table_change [of s] no_new_sleeper_update
        simp: t ptable_upd_proc get_upd_proc get_cur ok_cur)
next
  case (sl_sleep_other s i c lk t H)
  then have t: "t = upd_proc i (\<lambda>p. p\<lparr>p_chan := Some c, p_state := SLEEPING\<rparr>) (s\<lparr>cur := Some i\<rparr>)"
    by (simp add: sleep_def myproc_def kget_def kmod_def kpanic_def kbind_def sched_def
        split: if_splits option.splits)
  show ?case
    using sl_sleep_other
    by (auto intro!: inv_table_change [of s] no_new_sleeper_update
        simp: t ptable_upd_proc get_upd_proc get_cur ok_cur)
next
  case (sl_wakeup_other c s t H)
  then show ?case
    by (auto intro!: inv_table_change [of s]
        simp: wakeup_def wakeup1_def kmod_def get_ptable ok_ptable no_new_sleeper_def)
next
  case (sl_kill pid s r t H)
  then have "no_new_sleeper ch (ptable s) (ptable t) \<and> get t = get s \<and> ok t = ok s"
    by (auto simp: kill_def ptable_upd_proc get_upd_proc Let_def
        intro!: no_new_sleeper_update split: option.splits)
  then show ?case
    using sl_kill by (auto intro!: inv_table_change [of s])
qed

lemma inv_run:
  assumes "(sl_step ch get put)\<^sup>*\<^sup>* x y" "sl_inv ch get x" "ok (fst x)"
  shows "sl_inv ch get y \<and> ok (fst y)"
  using assms by (induction rule: rtranclp_induct) (use inv_step in blast)+

end

end
