(* ===== verification/Bio.thy ===== *)
theory Bio
  imports Sleeplock
begin

text \<open>
  The buffer cache of \<^verbatim>\<open>bio.c\<close> over the in-memory disk driver of \<^verbatim>\<open>memide.c\<close>.  A \<^verbatim>\<open>struct buf *\<close>
  is an index into \<open>bufs\<close>: \<open>0 .. NBUF - 1\<close> are \<^verbatim>\<open>bcache.buf\<close>, index \<open>NBUF\<close> is \<^verbatim>\<open>bcache.head\<close>.  The
  doubly linked ring through \<^verbatim>\<open>prev\<close> and \<^verbatim>\<open>next\<close> is kept as it is in the code; \<open>lru\<close> relates it to
  the list of buffers from the most to the least recently used one.  The disk is the list of
  its blocks; \<open>dtrace\<close> is a ghost record of the block writes it has received.
\<close>

section \<open>Data\<close>

definition MAXOPBLOCKS :: nat where "MAXOPBLOCKS = 10"
definition LOGSIZE :: nat where "LOGSIZE = MAXOPBLOCKS * 3"
definition NBUF :: nat where "NBUF = MAXOPBLOCKS * 3"
definition BSIZE :: nat where "BSIZE = 512"
definition ROOTDEV :: nat where "ROOTDEV = 1"

record buf =
  b_valid :: bool
  b_dirty :: bool
  b_dev :: nat
  b_blockno :: nat
  b_lock :: sleeplock
  b_refcnt :: nat
  b_prev :: nat
  b_next :: nat
  b_qnext :: "nat option"
  b_data :: bytes

record bio_st = proc_st +
  bufs :: "buf list"
  disk :: "bytes list"
  dtrace :: "(nat \<times> bytes) list"

definition upd_buf :: "nat \<Rightarrow> (buf \<Rightarrow> buf) \<Rightarrow> 'a bio_st_scheme \<Rightarrow> 'a bio_st_scheme" where
  "upd_buf b f s = s\<lparr>bufs := (bufs s)[b := f (bufs s ! b)]\<rparr>"

definition buf_lock :: "nat \<Rightarrow> 'a bio_st_scheme \<Rightarrow> sleeplock" where
  "buf_lock b s = b_lock (bufs s ! b)"

definition upd_buf_lock :: "nat \<Rightarrow> (sleeplock \<Rightarrow> sleeplock) \<Rightarrow> 'a bio_st_scheme \<Rightarrow> 'a bio_st_scheme" where
  "upd_buf_lock b f = upd_buf b (\<lambda>x. x\<lparr>b_lock := f (b_lock x)\<rparr>)"

abbreviation bnext :: "'a bio_st_scheme \<Rightarrow> nat \<Rightarrow> nat" where
  "bnext s b \<equiv> b_next (bufs s ! b)"

abbreviation bprev :: "'a bio_st_scheme \<Rightarrow> nat \<Rightarrow> nat" where
  "bprev s b \<equiv> b_prev (bufs s ! b)"

section \<open>The disk driver\<close>

definition iderw :: "nat \<Rightarrow> ('a bio_st_scheme, unit) kop" where
  "iderw b =
     kbind (holdingsleep (buf_lock b)) (\<lambda>h.
     if \<not> h then kpanic ''iderw: buf not locked''
     else
       kbind (kget (\<lambda>s. bufs s ! b)) (\<lambda>bf.
       if b_valid bf \<and> \<not> b_dirty bf then kpanic ''iderw: nothing to do''
       else if b_dev bf \<noteq> 1 then kpanic ''iderw: request not for disk 1''
       else
         kbind (kget (\<lambda>s. length (disk s))) (\<lambda>disksize.
         if disksize \<le> b_blockno bf then kpanic ''iderw: block out of range''
         else
           kbind (if b_dirty bf then
               kbind (kmod (upd_buf b (\<lambda>x. x\<lparr>b_dirty := False\<rparr>))) (\<lambda>_.
               kmod (\<lambda>s. s\<lparr>disk := (disk s)[b_blockno bf := b_data bf],
                           dtrace := dtrace s @ [(b_blockno bf, b_data bf)]\<rparr>))
             else
               kmod (\<lambda>s. upd_buf b (\<lambda>x. x\<lparr>b_data := disk s ! b_blockno bf\<rparr>) s)) (\<lambda>_.
           kmod (upd_buf b (\<lambda>x. x\<lparr>b_valid := True\<rparr>))))))"

section \<open>The buffer cache\<close>

text \<open>
  Inserting \<open>b\<close> behind the head, and taking it out of the ring: the pointer assignments of
  \<^verbatim>\<open>binit\<close> and \<^verbatim>\<open>brelse\<close>.
\<close>

definition push_front :: "nat \<Rightarrow> 'a bio_st_scheme \<Rightarrow> 'a bio_st_scheme" where
  "push_front b s =
     (let s1 = upd_buf b (\<lambda>x. x\<lparr>b_next := bnext s NBUF\<rparr>) s;
          s2 = upd_buf b (\<lambda>x. x\<lparr>b_prev := NBUF\<rparr>) s1;
          s3 = upd_buf (bnext s2 NBUF) (\<lambda>x. x\<lparr>b_prev := b\<rparr>) s2
      in upd_buf NBUF (\<lambda>x. x\<lparr>b_next := b\<rparr>) s3)"

definition unlink_buf :: "nat \<Rightarrow> 'a bio_st_scheme \<Rightarrow> 'a bio_st_scheme" where
  "unlink_buf b s =
     (let s1 = upd_buf (bnext s b) (\<lambda>x. x\<lparr>b_prev := bprev s b\<rparr>) s
      in upd_buf (bprev s1 b) (\<lambda>x. x\<lparr>b_next := bnext s1 b\<rparr>) s1)"

definition binit :: "('a bio_st_scheme, unit) kop" where
  "binit =
     kbind (kmod (upd_buf NBUF (\<lambda>x. x\<lparr>b_prev := NBUF, b_next := NBUF\<rparr>))) (\<lambda>_.
     kfor [0..<NBUF] (\<lambda>b.
       kbind (initsleeplock (upd_buf_lock b)) (\<lambda>_. kmod (push_front b))))"

text \<open>
  A scan around the ring from \<open>b\<close> for a buffer with property \<open>P\<close>: \<open>Some None\<close> when it came back
  to the head.  The ring has \<open>NBUF + 1\<close> nodes, so that much fuel is enough for every ring.
\<close>

fun ring_scan :: "nat \<Rightarrow> (nat \<Rightarrow> nat) \<Rightarrow> (nat \<Rightarrow> bool) \<Rightarrow> nat \<Rightarrow> nat option option" where
  "ring_scan 0 nx P b = None"
| "ring_scan (Suc n) nx P b =
     (if b = NBUF then Some None else if P b then Some (Some b) else ring_scan n nx P (nx b))"

text \<open>The part of \<^verbatim>\<open>bget\<close> under \<^verbatim>\<open>bcache.lock\<close>.\<close>

definition bget_find :: "nat \<Rightarrow> nat \<Rightarrow> ('a bio_st_scheme, nat) kop" where
  "bget_find dev blockno s =
     (case ring_scan (NBUF + 1) (bnext s)
             (\<lambda>b. b_dev (bufs s ! b) = dev \<and> b_blockno (bufs s ! b) = blockno) (bnext s NBUF) of
        None \<Rightarrow> Hang
      | Some (Some b) \<Rightarrow> Ret b (upd_buf b (\<lambda>x. x\<lparr>b_refcnt := w32 (b_refcnt x + 1)\<rparr>) s)
      | Some None \<Rightarrow>
          (case ring_scan (NBUF + 1) (bprev s)
                  (\<lambda>b. b_refcnt (bufs s ! b) = 0 \<and> \<not> b_dirty (bufs s ! b)) (bprev s NBUF) of
             None \<Rightarrow> Hang
           | Some (Some b) \<Rightarrow>
               Ret b (upd_buf b (\<lambda>x. x\<lparr>b_dev := dev, b_blockno := blockno, b_valid := False,
                                        b_dirty := False, b_refcnt := 1\<rparr>) s)
           | Some None \<Rightarrow> Panic ''bget: no buffers''))"

definition bget :: "nat \<Rightarrow> nat \<Rightarrow> ('a bio_st_scheme, nat) kop" where
  "bget dev blockno =
     kbind (bget_find dev blockno) (\<lambda>b.
     kbind (acquiresleep (ChBufLock b) (buf_lock b) (upd_buf_lock b)) (\<lambda>_. kret b))"

definition bread :: "nat \<Rightarrow> nat \<Rightarrow> ('a bio_st_scheme, nat) kop" where
  "bread dev blockno =
     kbind (bget dev blockno) (\<lambda>b.
     kbind (kget (\<lambda>s. b_valid (bufs s ! b))) (\<lambda>valid.
     kbind (kwhen (\<not> valid) (iderw b)) (\<lambda>_. kret b)))"

definition bwrite :: "nat \<Rightarrow> ('a bio_st_scheme, unit) kop" where
  "bwrite b =
     kbind (holdingsleep (buf_lock b)) (\<lambda>h.
     if \<not> h then kpanic ''bwrite''
     else kbind (kmod (upd_buf b (\<lambda>x. x\<lparr>b_dirty := True\<rparr>))) (\<lambda>_. iderw b))"

definition brelse :: "nat \<Rightarrow> ('a bio_st_scheme, unit) kop" where
  "brelse b =
     kbind (holdingsleep (buf_lock b)) (\<lambda>h.
     if \<not> h then kpanic ''brelse''
     else
       kbind (releasesleep (ChBufLock b) (upd_buf_lock b)) (\<lambda>_.
       kbind (kmod (upd_buf b (\<lambda>x. x\<lparr>b_refcnt := w32 (b_refcnt x + (2 ^ 32 - 1))\<rparr>))) (\<lambda>_.
       kbind (kget (\<lambda>s. b_refcnt (bufs s ! b))) (\<lambda>r.
       kwhen (r = 0) (kbind (kmod (unlink_buf b)) (\<lambda>_. kmod (push_front b)))))))"

section \<open>The ring as a list\<close>

lemma nth_list_update_if: "xs[i := v] ! j = (if i = j \<and> j < length xs then v else xs ! j)"
  by (cases "i = j"; cases "j < length xs") (simp_all add: list_update_beyond)

text \<open>\<open>seg nx pv a xs c\<close>: following \<open>nx\<close> from \<open>a\<close> visits \<open>xs\<close> and then \<open>c\<close>, and \<open>pv\<close> leads back.\<close>

primrec seg :: "(nat \<Rightarrow> nat) \<Rightarrow> (nat \<Rightarrow> nat) \<Rightarrow> nat \<Rightarrow> nat list \<Rightarrow> nat \<Rightarrow> bool" where
  "seg nx pv a [] c \<longleftrightarrow> nx a = c \<and> pv c = a"
| "seg nx pv a (x # xs) c \<longleftrightarrow> nx a = x \<and> pv x = a \<and> seg nx pv x xs c"

lemma seg_append: "seg nx pv a (xs @ b # ys) c \<longleftrightarrow> seg nx pv a xs b \<and> seg nx pv b ys c"
  by (induction xs arbitrary: a) auto

lemma seg_cong:
  "seg nx pv a xs c \<Longrightarrow> (\<And>x. x \<in> insert a (set xs) \<Longrightarrow> nx' x = nx x) \<Longrightarrow>
   (\<And>x. x \<in> insert c (set xs) \<Longrightarrow> pv' x = pv x) \<Longrightarrow> seg nx' pv' a xs c"
  by (induction xs arbitrary: a) auto

lemma seg_rev: "seg nx pv a xs c \<longleftrightarrow> seg pv nx c (rev xs) a"
  by (induction xs arbitrary: a c) (auto simp: seg_append)


lemma seg_first: "seg nx pv a xs c \<Longrightarrow> nx a = hd (xs @ [c])"
  by (cases xs) auto

lemma seg_last: "seg nx pv a xs c \<Longrightarrow> pv c = last (a # xs)"
  by (induction xs arbitrary: a) auto

lemma seg_redirect_end:
  assumes "seg nx pv a xs b" "distinct (a # xs)" "c \<notin> set xs"
  shows "seg (nx(pv b := c)) (pv(c := pv b)) a xs c"
  using assms
proof (induction xs arbitrary: a)
  case Nil
  then show ?case by simp
next
  case (Cons x xs)
  have "pv b = last (x # xs)"
    using Cons.prems(1) seg_last [of nx pv x xs b] by simp
  then have "pv b \<noteq> a"
    using Cons.prems(2) by (metis distinct.simps(2) last_in_set list.distinct(1))
  then show ?case
    using Cons by auto
qed

lemma seg_unlink:
  assumes s: "seg nx pv a (ys @ b # zs) c" and d: "distinct (ys @ b # zs)"
    and a: "a \<notin> set (ys @ b # zs)" and c: "c \<notin> set (ys @ b # zs)"
  shows "seg (nx(pv b := nx b)) (pv(nx b := pv b)) a (ys @ zs) c"
proof (cases zs)
  case Nil
  then show ?thesis
    using seg_redirect_end [of nx pv a ys b c] s d a c by (simp add: seg_append)
next
  case (Cons z ws)
  have s1: "seg nx pv a ys b" and s2: "nx b = z" "pv z = b" "seg nx pv z ws c"
    using s by (auto simp: Cons seg_append)
  have "seg (nx(pv b := z)) (pv(z := pv b)) a ys z"
    using s1 d a by (intro seg_redirect_end) (auto simp: Cons)
  moreover have "pv b \<in> insert a (set ys)"
    using seg_last [OF s1] by (metis last_in_set list.distinct(1) list.simps(15))
  then have "seg (nx(pv b := z)) (pv(z := pv b)) z ws c"
    using s2 d a c by (intro seg_cong [OF s2(3)]) (auto simp: Cons)
  ultimately show ?thesis
    by (simp add: Cons seg_append s2(1))
qed

lemma seg_push:
  assumes "seg nx pv a xs c" "b \<notin> set xs" "b \<noteq> a" "b \<noteq> c" "a \<notin> set xs" "c \<notin> set xs" "distinct xs"
  shows "seg (nx(b := nx a, a := b)) (pv(b := a, nx a := b)) a (b # xs) c"
proof (cases xs)
  case Nil
  then show ?thesis using assms by auto
next
  case (Cons x ys)
  have "seg nx pv x ys c" "nx a = x"
    using assms(1) by (auto simp: Cons)
  moreover have "seg (nx(b := nx a, a := b)) (pv(b := a, nx a := b)) x ys c"
    using assms calculation by (intro seg_cong [OF calculation(1)]) (auto simp: Cons)
  ultimately show ?thesis
    using assms by (auto simp: Cons)
qed

lemma ring_scan_seg:
  "seg nx pv a xs NBUF \<Longrightarrow> NBUF \<notin> set xs \<Longrightarrow> length xs < n \<Longrightarrow>
   ring_scan n nx P (nx a) = Some (find P xs)"
proof (induction xs arbitrary: a n)
  case Nil
  then show ?case by (cases n) auto
next
  case (Cons x xs)
  then show ?case by (cases n) auto
qed

section \<open>The invariant of the cache\<close>

definition lru :: "'a bio_st_scheme \<Rightarrow> nat list \<Rightarrow> bool" where
  "lru s xs \<longleftrightarrow> length (bufs s) = NBUF + 1 \<and> distinct xs \<and> set xs = {..<NBUF} \<and>
     seg (bnext s) (bprev s) NBUF xs NBUF"

definition buf_ok :: "bytes list \<Rightarrow> buf \<Rightarrow> bool" where
  "buf_ok d x \<longleftrightarrow> length (b_data x) = BSIZE \<and>
     (b_valid x \<longrightarrow> b_dev x = 1 \<and> b_blockno x < length d) \<and>
     (b_dirty x \<longrightarrow> b_valid x) \<and>
     (b_refcnt x \<noteq> 0 \<longrightarrow> b_dev x = 1) \<and>
     (sl_locked (b_lock x) \<longrightarrow> b_refcnt x \<noteq> 0) \<and>
     (b_valid x \<and> \<not> b_dirty x \<and> \<not> sl_locked (b_lock x) \<longrightarrow> b_data x = d ! b_blockno x)"

definition one_copy :: "buf list \<Rightarrow> bool" where
  "one_copy bs \<longleftrightarrow> (\<forall>b < NBUF. \<forall>c < NBUF. b_dev (bs ! b) \<noteq> 0 \<and> b_dev (bs ! b) = b_dev (bs ! c) \<and>
     b_blockno (bs ! b) = b_blockno (bs ! c) \<longrightarrow> b = c)"

definition bcache_inv :: "'a bio_st_scheme \<Rightarrow> bool" where
  "bcache_inv s \<longleftrightarrow> (\<exists>xs. lru s xs) \<and> one_copy (bufs s) \<and> (\<forall>b < NBUF. buf_ok (disk s) (bufs s ! b)) \<and>
     (\<forall>d \<in> set (disk s). length d = BSIZE)"

text \<open>
  What the cache stores: the block contents seen through it, the blocks in use by someone, and
  the blocks whose cached copy is newer than the disk.
\<close>

definition bview :: "'a bio_st_scheme \<Rightarrow> nat \<Rightarrow> bytes" where
  "bview s n = (case find (\<lambda>b. b_valid (bufs s ! b) \<and> b_blockno (bufs s ! b) = n) [0..<NBUF] of
     Some b \<Rightarrow> b_data (bufs s ! b) | None \<Rightarrow> disk s ! n)"

definition bbusy :: "'a bio_st_scheme \<Rightarrow> nat set" where
  "bbusy s = {b_blockno (bufs s ! b) | b. b < NBUF \<and> b_refcnt (bufs s ! b) \<noteq> 0}"

definition bdirty :: "'a bio_st_scheme \<Rightarrow> nat set" where
  "bdirty s = {b_blockno (bufs s ! b) | b. b < NBUF \<and> b_dirty (bufs s ! b)}"

text \<open>The current process holds buffer \<open>b\<close> for block \<open>n\<close>, as after \<^verbatim>\<open>bread\<close>.\<close>

definition hold :: "'a bio_st_scheme \<Rightarrow> nat \<Rightarrow> nat \<Rightarrow> bool" where
  "hold s b n \<longleftrightarrow> b < NBUF \<and> b_dev (bufs s ! b) = 1 \<and> b_blockno (bufs s ! b) = n \<and> b_valid (bufs s ! b) \<and>
     b_refcnt (bufs s ! b) = 1 \<and> sl_locked (buf_lock b s) \<and>
     (\<exists>i. cur s = Some i \<and> i < length (ptable s) \<and> sl_pid (buf_lock b s) = p_pid (ptable s ! i))"

text \<open>The table \<open>qs\<close> is \<open>ps\<close> with some sleepers woken; what a cache operation leaves alone.\<close>

definition woken :: "proc list \<Rightarrow> proc list \<Rightarrow> bool" where
  "woken ps qs \<longleftrightarrow> list_all2 (\<lambda>p q. q = p \<or> p_state p = SLEEPING \<and> q = p\<lparr>p_state := RUNNABLE\<rparr>) ps qs"

definition bio_frame :: "'a bio_st_scheme \<Rightarrow> 'a bio_st_scheme \<Rightarrow> bool" where
  "bio_frame s t \<longleftrightarrow> t = s\<lparr>ptable := ptable t, bufs := bufs t, disk := disk t, dtrace := dtrace t\<rparr> \<and>
     woken (ptable s) (ptable t) \<and> length (disk t) = length (disk s)"

lemma woken_refl [simp]: "woken ps ps"
  by (simp add: woken_def list_all2_refl)

lemma woken_length: "woken ps qs \<Longrightarrow> length qs = length ps"
  by (simp add: woken_def list_all2_lengthD)

lemma woken_nth: "woken ps qs \<Longrightarrow> i < length ps \<Longrightarrow>
    qs ! i = ps ! i \<or> p_state (ps ! i) = SLEEPING \<and> qs ! i = (ps ! i)\<lparr>p_state := RUNNABLE\<rparr>"
  by (simp add: woken_def list_all2_conv_all_nth)

lemma woken_pid: "woken ps qs \<Longrightarrow> i < length ps \<Longrightarrow> p_pid (qs ! i) = p_pid (ps ! i)"
  using woken_nth by fastforce

lemma woken_trans: "woken ps qs \<Longrightarrow> woken qs rs \<Longrightarrow> woken ps rs"
  unfolding woken_def by (erule (1) list_all2_trans [rotated]) auto

lemma woken_wakeup:
  "woken ps (map (\<lambda>p. if p_state p = SLEEPING \<and> p_chan p = Some ch then p\<lparr>p_state := RUNNABLE\<rparr> else p) ps)"
  by (auto simp: woken_def list_all2_conv_all_nth)

lemma bio_frame_refl [simp]: "bio_frame s s"
  by (simp add: bio_frame_def)

lemma bio_frame_cur: "bio_frame s t \<Longrightarrow> cur t = cur s"
  unfolding bio_frame_def by (cases s; cases t) simp

lemma bio_frame_trans: "bio_frame s t \<Longrightarrow> bio_frame t u \<Longrightarrow> bio_frame s u"
  unfolding bio_frame_def by (cases s; cases t; cases u) (auto intro: woken_trans)

section \<open>Changing one buffer\<close>

lemma upd_buf_simps [simp]:
  "length (bufs (upd_buf b f s)) = length (bufs s)"
  "disk (upd_buf b f s) = disk s" "dtrace (upd_buf b f s) = dtrace s"
  "ptable (upd_buf b f s) = ptable s" "cur (upd_buf b f s) = cur s"
  by (simp_all add: upd_buf_def)

lemma nth_upd_buf:
  "b < length (bufs s) \<Longrightarrow> bufs (upd_buf b f s) ! c = (if c = b then f (bufs s ! b) else bufs s ! c)"
  by (simp add: upd_buf_def)

lemma upd_buf_twice [simp]: "upd_buf b f (upd_buf b g s) = upd_buf b (\<lambda>x. f (g x)) s"
  by (cases "b < length (bufs s)") (simp_all add: upd_buf_def list_update_beyond)

lemma upd_buf_disk: "(upd_buf b f s)\<lparr>disk := d, dtrace := tr\<rparr> = upd_buf b f (s\<lparr>disk := d, dtrace := tr\<rparr>)"
  by (simp add: upd_buf_def)

lemma upd_buf_cong: "f (bufs s ! b) = g (bufs s ! b) \<Longrightarrow> upd_buf b f s = upd_buf b g s"
  by (simp add: upd_buf_def)

lemma sleeplock_set [simp]:
  "(l :: sleeplock)\<lparr>sl_locked := v, sl_pid := p\<rparr> = \<lparr>sl_locked = v, sl_pid = p\<rparr>"
  by (cases l) simp

lemma inv_length: "bcache_inv s \<Longrightarrow> length (bufs s) = NBUF + 1"
  by (auto simp: bcache_inv_def lru_def)

lemma inv_buf_ok: "bcache_inv s \<Longrightarrow> b < NBUF \<Longrightarrow> buf_ok (disk s) (bufs s ! b)"
  by (simp add: bcache_inv_def)

lemma inv_one_copy:
  "bcache_inv s \<Longrightarrow> b < NBUF \<Longrightarrow> c < NBUF \<Longrightarrow> b_dev (bufs s ! b) = b_dev (bufs s ! c) \<Longrightarrow>
   b_dev (bufs s ! b) \<noteq> 0 \<Longrightarrow> b_blockno (bufs s ! b) = b_blockno (bufs s ! c) \<Longrightarrow> b = c"
  by (simp add: bcache_inv_def one_copy_def)

lemma lru_upd_buf:
  assumes "lru s xs" "\<And>x. b_next (f x) = b_next x" "\<And>x. b_prev (f x) = b_prev x"
  shows "lru (upd_buf b f s) xs"
proof -
  have *: "bnext (upd_buf b f s) c = bnext s c" "bprev (upd_buf b f s) c = bprev s c" for c
    by (simp_all add: upd_buf_def nth_list_update_if assms(2,3))
  show ?thesis
    using assms(1) by (simp add: lru_def *)
qed

lemma bcache_inv_upd_buf:
  assumes inv: "bcache_inv s" and b: "b < NBUF"
    and links: "\<And>x. b_next (f x) = b_next x" "\<And>x. b_prev (f x) = b_prev x"
    and ok: "buf_ok (disk s) (f (bufs s ! b))"
    and one: "\<And>c. c < NBUF \<Longrightarrow> c \<noteq> b \<Longrightarrow> b_dev (f (bufs s ! b)) \<noteq> 0 \<Longrightarrow>
      b_dev (bufs s ! c) = b_dev (f (bufs s ! b)) \<Longrightarrow> b_blockno (bufs s ! c) \<noteq> b_blockno (f (bufs s ! b))"
  shows "bcache_inv (upd_buf b f s)"
proof -
  have len: "b < length (bufs s)"
    using inv_length [OF inv] b by simp
  obtain xs where "lru s xs"
    using inv by (auto simp: bcache_inv_def)
  then have "lru (upd_buf b f s) xs"
    by (rule lru_upd_buf) (rule links)+
  moreover have "one_copy (bufs (upd_buf b f s))"
    unfolding one_copy_def
  proof (intro allI impI, elim conjE)
    fix c d
    assume *: "c < NBUF" "d < NBUF" "b_dev (bufs (upd_buf b f s) ! c) \<noteq> 0"
      "b_dev (bufs (upd_buf b f s) ! c) = b_dev (bufs (upd_buf b f s) ! d)"
      "b_blockno (bufs (upd_buf b f s) ! c) = b_blockno (bufs (upd_buf b f s) ! d)"
    show "c = d"
    proof (cases "c = b \<or> d = b")
      case True
      then show ?thesis
        using * one [of c] one [of d] by (auto simp: nth_upd_buf [OF len] split: if_splits)
    next
      case False
      then show ?thesis
        using * inv_one_copy [OF inv, of c d] by (simp add: nth_upd_buf [OF len])
    qed
  qed
  moreover have "buf_ok (disk s) (bufs (upd_buf b f s) ! c)" if "c < NBUF" for c
    using that ok inv_buf_ok [OF inv] by (simp add: nth_upd_buf [OF len])
  ultimately show ?thesis
    using inv by (auto simp: bcache_inv_def)
qed

lemma bview_cached:
  assumes inv: "bcache_inv s" and b: "b < NBUF" "b_valid (bufs s ! b)" "b_blockno (bufs s ! b) = n"
  shows "bview s n = b_data (bufs s ! b)"
proof -
  let ?P = "\<lambda>b. b_valid (bufs s ! b) \<and> b_blockno (bufs s ! b) = n"
  obtain c where c: "find ?P [0..<NBUF] = Some c"
    using b by (cases "find ?P [0..<NBUF]") (auto simp: find_None_iff)
  then have *: "c < NBUF" "?P c"
    by (auto simp: find_Some_iff)
  have "b_dev (bufs s ! b) = 1" "b_dev (bufs s ! c) = 1"
    using inv_buf_ok [OF inv, of b] inv_buf_ok [OF inv, of c] b * by (simp_all add: buf_ok_def)
  then have "b = c"
    using b * inv_one_copy [OF inv, of b c] by simp
  then show ?thesis
    by (simp add: bview_def c)
qed

lemma bview_uncached:
  "\<not> (\<exists>b < NBUF. b_valid (bufs s ! b) \<and> b_blockno (bufs s ! b) = n) \<Longrightarrow> bview s n = disk s ! n"
proof -
  assume "\<not> (\<exists>b < NBUF. b_valid (bufs s ! b) \<and> b_blockno (bufs s ! b) = n)"
  then have "find (\<lambda>b. b_valid (bufs s ! b) \<and> b_blockno (bufs s ! b) = n) [0..<NBUF] = None"
    by (auto simp: find_None_iff)
  then show ?thesis
    by (simp add: bview_def)
qed

lemma bview_length:
  assumes "bcache_inv s" "n < length (disk s)"
  shows "length (bview s n) = BSIZE"
proof (cases "\<exists>b < NBUF. b_valid (bufs s ! b) \<and> b_blockno (bufs s ! b) = n")
  case True
  then obtain b where "b < NBUF" "b_valid (bufs s ! b)" "b_blockno (bufs s ! b) = n"
    by blast
  then show ?thesis
    using bview_cached [OF assms(1), of b n] inv_buf_ok [OF assms(1), of b] by (simp add: buf_ok_def)
next
  case False
  then show ?thesis
    using bview_uncached [OF False] assms by (simp add: bcache_inv_def)
qed

section \<open>The operations\<close>


lemma scan_next: "lru s xs \<Longrightarrow> ring_scan (NBUF + 1) (bnext s) P (bnext s NBUF) = Some (find P xs)"
  by (rule ring_scan_seg [of _ "bprev s"]) (auto simp: lru_def distinct_card [symmetric])

lemma scan_prev: "lru s xs \<Longrightarrow> ring_scan (NBUF + 1) (bprev s) P (bprev s NBUF) = Some (find P (rev xs))"
  by (rule ring_scan_seg [of _ "bnext s"])
    (auto simp: lru_def distinct_card [symmetric] seg_rev [of "bprev s"])

text \<open>The two ways \<^verbatim>\<open>bget\<close> finds a buffer, in terms of the list.\<close>

lemma bget_find_lru:
  assumes "lru s xs"
  shows "bget_find dev n s =
    (case find (\<lambda>b. b_dev (bufs s ! b) = dev \<and> b_blockno (bufs s ! b) = n) xs of
       Some b \<Rightarrow> Ret b (upd_buf b (\<lambda>x. x\<lparr>b_refcnt := w32 (b_refcnt x + 1)\<rparr>) s)
     | None \<Rightarrow>
        (case find (\<lambda>b. b_refcnt (bufs s ! b) = 0 \<and> \<not> b_dirty (bufs s ! b)) (rev xs) of
           Some b \<Rightarrow> Ret b (upd_buf b (\<lambda>x. x\<lparr>b_dev := dev, b_blockno := n, b_valid := False,
                                        b_dirty := False, b_refcnt := 1\<rparr>) s)
         | None \<Rightarrow> Panic ''bget: no buffers''))"
  unfolding bget_find_def scan_next [OF assms] scan_prev [OF assms]
  by (auto split: option.splits)

definition cached :: "'a bio_st_scheme \<Rightarrow> nat \<Rightarrow> nat \<Rightarrow> bool" where
  "cached s n b \<longleftrightarrow> b < NBUF \<and> b_dev (bufs s ! b) = 1 \<and> b_blockno (bufs s ! b) = n"

lemma bget_find_hit:
  assumes inv: "bcache_inv s" and b: "cached s n b"
  shows "bget_find 1 n s = Ret b (upd_buf b (\<lambda>x. x\<lparr>b_refcnt := w32 (b_refcnt x + 1)\<rparr>) s)"
proof -
  let ?P = "\<lambda>b. b_dev (bufs s ! b) = 1 \<and> b_blockno (bufs s ! b) = n"
  obtain xs where xs: "lru s xs"
    using inv by (auto simp: bcache_inv_def)
  then have set: "set xs = {..<NBUF}"
    by (simp add: lru_def)
  obtain c where c: "find ?P xs = Some c"
    using b set by (cases "find ?P xs") (auto simp: find_None_iff cached_def)
  then have "c \<in> set xs" "?P c"
    by (auto simp: find_Some_iff)
  then have "c = b"
    using inv_one_copy [OF inv, of c b] b set by (simp add: cached_def)
  then show ?thesis
    by (simp add: bget_find_lru [OF xs] c del: One_nat_def)
qed

lemma bget_find_miss:
  assumes inv: "bcache_inv s" and none: "\<And>b. \<not> cached s n b"
    and room: "\<exists>b < NBUF. b_refcnt (bufs s ! b) = 0 \<and> \<not> b_dirty (bufs s ! b)"
  shows "\<exists>b < NBUF. b_refcnt (bufs s ! b) = 0 \<and> \<not> b_dirty (bufs s ! b) \<and>
    bget_find 1 n s = Ret b (upd_buf b (\<lambda>x. x\<lparr>b_dev := 1, b_blockno := n, b_valid := False,
                                        b_dirty := False, b_refcnt := 1\<rparr>) s)"
proof -
  let ?P = "\<lambda>b. b_dev (bufs s ! b) = 1 \<and> b_blockno (bufs s ! b) = n"
  let ?Q = "\<lambda>b. b_refcnt (bufs s ! b) = 0 \<and> \<not> b_dirty (bufs s ! b)"
  obtain xs where xs: "lru s xs"
    using inv by (auto simp: bcache_inv_def)
  then have set: "set xs = {..<NBUF}"
    by (simp add: lru_def)
  have p: "find ?P xs = None"
    using none set by (auto simp: find_None_iff cached_def)
  obtain c where c: "find ?Q (rev xs) = Some c"
    using room set by (cases "find ?Q (rev xs)") (auto simp: find_None_iff)
  then have "\<exists>i < length (rev xs). ?Q (rev xs ! i) \<and> c = rev xs ! i"
    by (auto simp: find_Some_iff)
  then have "c \<in> set (rev xs) \<and> ?Q c"
    by (metis nth_mem)
  then have "c < NBUF" "?Q c"
    by (auto simp: set)
  then show ?thesis
    by (intro exI [of _ c]) (simp add: bget_find_lru [OF xs] p c del: One_nat_def)
qed

text \<open>The buffer that \<^verbatim>\<open>bread\<close> returns, when nobody else uses the block.\<close>

definition got :: "'a bio_st_scheme \<Rightarrow> nat \<Rightarrow> nat \<Rightarrow> buf \<Rightarrow> buf" where
  "got s n i x = x\<lparr>b_dev := 1, b_blockno := n, b_valid := True, b_refcnt := 1,
     b_lock := \<lparr>sl_locked = True, sl_pid = p_pid (ptable s ! i)\<rparr>, b_data := bview s n\<rparr>"

lemma acquire_free:
  assumes "b < length (bufs s)" "\<not> sl_locked (b_lock (bufs s ! b))" "cur s = Some i"
  shows "acquiresleep (ChBufLock b) (buf_lock b) (upd_buf_lock b) s =
    Ret () (upd_buf b (\<lambda>x. x\<lparr>b_lock := \<lparr>sl_locked = True, sl_pid = p_pid (ptable s ! i)\<rparr>\<rparr>) s)"
  using assms
  by (simp add: acquiresleep_def kbind_def kget_def kmod_def kret_def curproc_def myproc_def kderef_def
      buf_lock_def upd_buf_lock_def)

lemma iderw_read:
  assumes "b < length (bufs s)" "cur s = Some i"
    and "b_lock (bufs s ! b) = \<lparr>sl_locked = True, sl_pid = p_pid (ptable s ! i)\<rparr>"
    and "\<not> b_valid (bufs s ! b)" "\<not> b_dirty (bufs s ! b)" "b_dev (bufs s ! b) = 1"
    and "b_blockno (bufs s ! b) < length (disk s)"
  shows "iderw b s = Ret () (upd_buf b (\<lambda>x. x\<lparr>b_data := disk s ! b_blockno x, b_valid := True\<rparr>) s)"
  using assms
  by (simp add: iderw_def kbind_def kget_def kmod_def kret_def curproc_def myproc_def kderef_def
      holdingsleep_def buf_lock_def upd_buf_def)

lemma bread_hit:
  assumes inv: "bcache_inv s" and i: "cur s = Some i" and n: "n < length (disk s)"
    and b: "cached s n b" "b_refcnt (bufs s ! b) = 0"
  shows "bread 1 n s = Ret b (upd_buf b (got s n i) s)"
proof -
  have len: "b < length (bufs s)" and bN: "b < NBUF"
    using b inv_length [OF inv] by (auto simp: cached_def)
  have ok: "buf_ok (disk s) (bufs s ! b)"
    using inv_buf_ok [OF inv bN] .
  then have free: "\<not> sl_locked (b_lock (bufs s ! b))"
    using b by (simp add: buf_ok_def)
  let ?s1 = "upd_buf b (\<lambda>x. x\<lparr>b_refcnt := w32 (b_refcnt x + 1)\<rparr>) s"
  let ?s2 = "upd_buf b (\<lambda>x. x\<lparr>b_lock := \<lparr>sl_locked = True, sl_pid = p_pid (ptable s ! i)\<rparr>\<rparr>) ?s1"
  have a: "acquiresleep (ChBufLock b) (buf_lock b) (upd_buf_lock b) ?s1 = Ret () ?s2"
    using acquire_free [of b ?s1 i] len free i by (simp add: nth_upd_buf)
  have g: "bget 1 n s = Ret b ?s2"
    unfolding bget_def using bget_find_hit [OF inv b(1)] a by (simp add: kbind_def kret_def)
  show ?thesis
  proof (cases "b_valid (bufs s ! b)")
    case True
    then have "bview s n = b_data (bufs s ! b)"
      using bview_cached [OF inv bN] b by (simp add: cached_def)
    then show ?thesis
      using True g b len
      by (auto simp: bread_def kbind_def kget_def kret_def kwhen_def kskip_def cached_def nth_upd_buf
          got_def w32_def intro!: upd_buf_cong buf.equality)
  next
    case False
    then have nd: "\<not> b_dirty (bufs s ! b)"
      using ok by (auto simp: buf_ok_def)
    have "\<not> (\<exists>c < NBUF. b_valid (bufs s ! c) \<and> b_blockno (bufs s ! c) = n)"
      using False b inv_one_copy [OF inv, of _ b] inv_buf_ok [OF inv] by (force simp: buf_ok_def cached_def)
    then have "bview s n = disk s ! n"
      by (rule bview_uncached)
    moreover have "iderw b ?s2 = Ret () (upd_buf b (\<lambda>x. x\<lparr>b_data := disk s ! b_blockno x, b_valid := True\<rparr>) ?s2)"
      using iderw_read [of b ?s2 i] b n i nd False len by (simp add: nth_upd_buf cached_def)
    ultimately show ?thesis
      using False g b len
      by (auto simp: bread_def kbind_def kget_def kret_def kwhen_def kskip_def cached_def nth_upd_buf
          got_def w32_def intro!: upd_buf_cong buf.equality)
  qed
qed

lemma bread_miss:
  assumes inv: "bcache_inv s" and i: "cur s = Some i" and n: "n < length (disk s)"
    and none: "\<And>b. \<not> cached s n b"
    and room: "\<exists>b < NBUF. b_refcnt (bufs s ! b) = 0 \<and> \<not> b_dirty (bufs s ! b)"
  shows "\<exists>b < NBUF. bread 1 n s = Ret b (upd_buf b (got s n i) s) \<and> b_refcnt (bufs s ! b) = 0 \<and>
    \<not> b_dirty (bufs s ! b)"
proof -
  define f :: "buf \<Rightarrow> buf" where "f = (\<lambda>x. x\<lparr>b_dev := 1, b_blockno := n, b_valid := False, b_dirty := False, b_refcnt := 1\<rparr>)"
  obtain b where b: "b < NBUF" "b_refcnt (bufs s ! b) = 0" "\<not> b_dirty (bufs s ! b)"
    "bget_find 1 n s = Ret b (upd_buf b f s)"
    using bget_find_miss [OF inv none room] by (auto simp: f_def)
  have len: "b < length (bufs s)"
    using b inv_length [OF inv] by auto
  have free: "\<not> sl_locked (b_lock (bufs s ! b))"
    using inv_buf_ok [OF inv b(1)] b by (simp add: buf_ok_def)
  let ?s1 = "upd_buf b f s"
  let ?s2 = "upd_buf b (\<lambda>x. x\<lparr>b_lock := \<lparr>sl_locked = True, sl_pid = p_pid (ptable s ! i)\<rparr>\<rparr>) ?s1"
  have a: "acquiresleep (ChBufLock b) (buf_lock b) (upd_buf_lock b) ?s1 = Ret () ?s2"
    using acquire_free [of b ?s1 i] len free i by (simp add: nth_upd_buf f_def)
  have g: "bget 1 n s = Ret b ?s2"
    unfolding bget_def using b(4) a by (simp add: kbind_def kret_def)
  have "bview s n = disk s ! n"
    using none inv_buf_ok [OF inv] by (intro bview_uncached) (auto simp: buf_ok_def cached_def)
  moreover have "iderw b ?s2 = Ret () (upd_buf b (\<lambda>x. x\<lparr>b_data := disk s ! b_blockno x, b_valid := True\<rparr>) ?s2)"
    using iderw_read [of b ?s2 i] n i len by (simp add: nth_upd_buf f_def)
  ultimately have "bread 1 n s = Ret b (upd_buf b (got s n i) s)"
    using g b len
    by (auto simp: bread_def kbind_def kget_def kret_def kwhen_def kskip_def f_def nth_upd_buf
        got_def intro!: upd_buf_cong buf.equality)
  then show ?thesis
    using b by blast
qed

section \<open>How a change of one buffer shows\<close>

lemma bview_upd_other:
  assumes inv: "bcache_inv s" "bcache_inv (upd_buf b f s)" and b: "b < NBUF"
    and new: "b_valid (f (bufs s ! b)) \<Longrightarrow> b_blockno (f (bufs s ! b)) \<noteq> m"
    and old: "b_valid (bufs s ! b) \<Longrightarrow> b_blockno (bufs s ! b) = m \<Longrightarrow> b_data (bufs s ! b) = disk s ! m"
  shows "bview (upd_buf b f s) m = bview s m"
proof -
  let ?t = "upd_buf b f s"
  have nth: "bufs ?t ! c = (if c = b then f (bufs s ! b) else bufs s ! c)" for c
    using inv_length [OF inv(1)] b by (simp add: nth_upd_buf)
  show ?thesis
  proof (cases "\<exists>c < NBUF. c \<noteq> b \<and> b_valid (bufs s ! c) \<and> b_blockno (bufs s ! c) = m")
    case True
    then obtain c where "c < NBUF" "c \<noteq> b" "b_valid (bufs s ! c)" "b_blockno (bufs s ! c) = m"
      by blast
    then show ?thesis
      using bview_cached [OF inv(1), of c m] bview_cached [OF inv(2), of c m] by (simp add: nth)
  next
    case False
    then have "\<not> (\<exists>c < NBUF. b_valid (bufs ?t ! c) \<and> b_blockno (bufs ?t ! c) = m)"
      using new by (auto simp: nth)
    then have t: "bview ?t m = disk s ! m"
      using bview_uncached [of ?t m] by simp
    show ?thesis
    proof (cases "b_valid (bufs s ! b) \<and> b_blockno (bufs s ! b) = m")
      case True
      then show ?thesis
        using bview_cached [OF inv(1) b] old t by simp
    next
      case no: False
      then have "\<not> (\<exists>c < NBUF. b_valid (bufs s ! c) \<and> b_blockno (bufs s ! c) = m)"
        using False by blast
      then show ?thesis
        using t bview_uncached [of s m] by simp
    qed
  qed
qed

lemma bview_upd_same:
  assumes "bcache_inv s" "bcache_inv (upd_buf b f s)" "b < NBUF"
    and "b_valid (f (bufs s ! b))" "b_blockno (f (bufs s ! b)) = m"
  shows "bview (upd_buf b f s) m = b_data (f (bufs s ! b))"
  using bview_cached [OF assms(2), of b m] assms inv_length [OF assms(1)] by (simp add: nth_upd_buf)

lemma bbusy_upd:
  assumes "bcache_inv s" "b < NBUF"
  shows "bbusy (upd_buf b f s) = {b_blockno (bufs s ! c) | c. c < NBUF \<and> c \<noteq> b \<and> b_refcnt (bufs s ! c) \<noteq> 0} \<union>
    (if b_refcnt (f (bufs s ! b)) \<noteq> 0 then {b_blockno (f (bufs s ! b))} else {})"
  using assms inv_length [OF assms(1)] by (auto simp: bbusy_def nth_upd_buf split: if_splits)

lemma bdirty_upd:
  assumes "bcache_inv s" "b < NBUF"
  shows "bdirty (upd_buf b f s) = {b_blockno (bufs s ! c) | c. c < NBUF \<and> c \<noteq> b \<and> b_dirty (bufs s ! c)} \<union>
    (if b_dirty (f (bufs s ! b)) then {b_blockno (f (bufs s ! b))} else {})"
  using assms inv_length [OF assms(1)] by (auto simp: bdirty_def nth_upd_buf split: if_splits)

lemma bdirty_same:
  assumes "b_dirty (f (bufs s ! b)) = b_dirty (bufs s ! b)" "b_blockno (f (bufs s ! b)) = b_blockno (bufs s ! b)"
  shows "bdirty (upd_buf b f s) = bdirty s"
proof -
  have "b_dirty (bufs (upd_buf b f s) ! c) = b_dirty (bufs s ! c)"
    "b_blockno (bufs (upd_buf b f s) ! c) = b_blockno (bufs s ! c)" for c
    by (cases "b = c"; use assms in \<open>simp add: upd_buf_def nth_list_update_if\<close>)+
  then show ?thesis
    by (simp add: bdirty_def)
qed

lemma bbusy_same:
  assumes "b_refcnt (f (bufs s ! b)) = b_refcnt (bufs s ! b)" "b_blockno (f (bufs s ! b)) = b_blockno (bufs s ! b)"
  shows "bbusy (upd_buf b f s) = bbusy s"
proof -
  have "b_refcnt (bufs (upd_buf b f s) ! c) = b_refcnt (bufs s ! c)"
    "b_blockno (bufs (upd_buf b f s) ! c) = b_blockno (bufs s ! c)" for c
    by (cases "b = c"; use assms in \<open>simp add: upd_buf_def nth_list_update_if\<close>)+
  then show ?thesis
    by (simp add: bbusy_def)
qed

lemma others_busy:
  assumes "bcache_inv s" "b < NBUF" "b_dev (bufs s ! b) = 1"
  shows "{b_blockno (bufs s ! c) | c. c < NBUF \<and> c \<noteq> b \<and> b_refcnt (bufs s ! c) \<noteq> 0} = bbusy s - {b_blockno (bufs s ! b)}"
proof -
  have "b_blockno (bufs s ! c) \<noteq> b_blockno (bufs s ! b)" if "c < NBUF" "c \<noteq> b" "b_refcnt (bufs s ! c) \<noteq> 0" for c
    using that inv_one_copy [OF assms(1), of c b] inv_buf_ok [OF assms(1), of c] assms
    by (auto simp: buf_ok_def)
  then show ?thesis
    by (auto simp: bbusy_def)
qed

lemma others_dirty:
  assumes "bcache_inv s" "b < NBUF" "b_dev (bufs s ! b) = 1"
  shows "{b_blockno (bufs s ! c) | c. c < NBUF \<and> c \<noteq> b \<and> b_dirty (bufs s ! c)} = bdirty s - {b_blockno (bufs s ! b)}"
proof -
  have "b_blockno (bufs s ! c) \<noteq> b_blockno (bufs s ! b)" if "c < NBUF" "c \<noteq> b" "b_dirty (bufs s ! c)" for c
    using that inv_one_copy [OF assms(1), of c b] inv_buf_ok [OF assms(1), of c] assms
    by (auto simp: buf_ok_def)
  then show ?thesis
    by (auto simp: bdirty_def)
qed

lemma others_busy_free:
  "b_refcnt (bufs s ! b) = 0 \<Longrightarrow>
   {b_blockno (bufs s ! c) | c. c < NBUF \<and> c \<noteq> b \<and> b_refcnt (bufs s ! c) \<noteq> 0} = bbusy s"
  by (auto simp: bbusy_def)

lemma others_dirty_clean:
  "\<not> b_dirty (bufs s ! b) \<Longrightarrow>
   {b_blockno (bufs s ! c) | c. c < NBUF \<and> c \<noteq> b \<and> b_dirty (bufs s ! c)} = bdirty s"
  by (auto simp: bdirty_def)

lemma hold_upd_other:
  "hold s c m \<Longrightarrow> c \<noteq> b \<Longrightarrow> hold (upd_buf b f s) c m"
  by (simp add: hold_def buf_lock_def upd_buf_def)

lemma bio_frame_upd_buf: "bio_frame s (upd_buf b f s)"
  by (simp add: bio_frame_def upd_buf_def)

lemma finite_bbusy [simp]: "finite (bbusy s)" "finite (bdirty s)"
  by (simp_all add: bbusy_def bdirty_def)

text \<open>There is a buffer to recycle as long as fewer than \<open>NBUF\<close> blocks are in use or dirty.\<close>

lemma room_from_card:
  assumes inv: "bcache_inv s" and c: "card (bbusy s \<union> bdirty s) < NBUF"
  shows "\<exists>b < NBUF. b_refcnt (bufs s ! b) = 0 \<and> \<not> b_dirty (bufs s ! b)"
proof (rule ccontr)
  assume no: "\<not> ?thesis"
  have dev: "b_dev (bufs s ! b) = 1" if "b < NBUF" for b
    using no that inv_buf_ok [OF inv that] by (auto simp: buf_ok_def)
  have "inj_on (\<lambda>b. b_blockno (bufs s ! b)) {..<NBUF}"
    using dev inv_one_copy [OF inv] by (auto simp: inj_on_def)
  moreover have "(\<lambda>b. b_blockno (bufs s ! b)) ` {..<NBUF} \<subseteq> bbusy s \<union> bdirty s"
    using no by (auto simp: bbusy_def bdirty_def)
  ultimately have "card {..<NBUF} \<le> card (bbusy s \<union> bdirty s)"
    using card_inj_on_le [of _ "{..<NBUF}" "bbusy s \<union> bdirty s"] by simp
  then show False
    using c by simp
qed

section \<open>Contracts of the operations\<close>

lemma holdD:
  assumes "hold s b n"
  shows "b < NBUF" "b_dev (bufs s ! b) = 1" "b_blockno (bufs s ! b) = n" "b_valid (bufs s ! b)"
    "b_refcnt (bufs s ! b) = 1" "sl_locked (b_lock (bufs s ! b))"
  using assms by (simp_all add: hold_def buf_lock_def)

lemma hold_busy: "hold s b n \<Longrightarrow> n \<in> bbusy s"
  by (auto simp: hold_def bbusy_def)

lemma hold_data: "bcache_inv s \<Longrightarrow> hold s b n \<Longrightarrow> b_data (bufs s ! b) = bview s n"
  using bview_cached [of s b n] holdD [of s b n] by simp

lemma hold_range: "bcache_inv s \<Longrightarrow> hold s b n \<Longrightarrow> n < length (disk s)"
  using inv_buf_ok [of s b] holdD [of s b n] by (simp add: buf_ok_def)

lemma hold_holding:
  assumes "hold s b n"
  shows "holdingsleep (buf_lock b) s = Ret True s"
  using assms
  by (auto simp: hold_def holdingsleep_def kbind_def kget_def curproc_def myproc_def kderef_def kret_def buf_lock_def)

lemma got_ok:
  assumes inv: "bcache_inv s" and b: "b < NBUF" and n: "n < length (disk s)"
    and alt: "cached s n b \<or> (\<forall>c. \<not> cached s n c)"
  shows "bcache_inv (upd_buf b (got s n i) s)"
proof (rule bcache_inv_upd_buf [OF inv b])
  show "buf_ok (disk s) (got s n i (bufs s ! b))"
    using bview_length [OF inv n] n by (auto simp: buf_ok_def got_def)
  fix c
  assume c: "c < NBUF" "c \<noteq> b" "b_dev (bufs s ! c) = b_dev (got s n i (bufs s ! b))"
  show "b_blockno (bufs s ! c) \<noteq> b_blockno (got s n i (bufs s ! b))"
  proof
    assume "b_blockno (bufs s ! c) = b_blockno (got s n i (bufs s ! b))"
    then have cc: "cached s n c"
      using c by (simp add: got_def cached_def)
    then have "cached s n b"
      using alt by blast
    then show False
      using cc c inv_one_copy [OF inv, of c b] by (simp add: cached_def)
  qed
qed (simp_all add: got_def)

lemma got_view:
  assumes inv: "bcache_inv s" and b: "b < NBUF" "b_refcnt (bufs s ! b) = 0" and n: "n < length (disk s)"
    and alt: "cached s n b \<or> (\<forall>c. \<not> cached s n c) \<and> \<not> b_dirty (bufs s ! b)"
  shows "bview (upd_buf b (got s n i) s) = bview s"
proof
  fix m
  have inv': "bcache_inv (upd_buf b (got s n i) s)"
    using alt by (intro got_ok [OF inv b(1) n]) blast
  have ok: "buf_ok (disk s) (bufs s ! b)"
    using inv_buf_ok [OF inv b(1)] .
  show "bview (upd_buf b (got s n i) s) m = bview s m"
  proof (cases "m = n")
    case True
    then show ?thesis
      using bview_upd_same [OF inv inv' b(1), of n] by (simp add: got_def)
  next
    case False
    show ?thesis
    proof (rule bview_upd_other [OF inv inv' b(1)])
      assume v: "b_valid (bufs s ! b)" "b_blockno (bufs s ! b) = m"
      then have "\<not> cached s n b"
        using False by (simp add: cached_def)
      then have "\<not> b_dirty (bufs s ! b)"
        using alt by blast
      then show "b_data (bufs s ! b) = disk s ! m"
        using ok v b by (simp add: buf_ok_def)
    qed (use False in \<open>simp add: got_def\<close>)
  qed
qed

definition bread_post :: "'a bio_st_scheme \<Rightarrow> nat \<Rightarrow> nat \<Rightarrow> 'a bio_st_scheme \<Rightarrow> bool" where
  "bread_post s n b t \<longleftrightarrow> bcache_inv t \<and> hold t b n \<and> bview t = bview s \<and>
     bbusy t = insert n (bbusy s) \<and> bdirty t = bdirty s \<and> bio_frame s t \<and> ptable t = ptable s \<and>
     disk t = disk s \<and> dtrace t = dtrace s \<and> (\<forall>c m. hold s c m \<longrightarrow> c \<noteq> b \<and> hold t c m)"

lemma got_post:
  assumes inv: "bcache_inv s" and b: "b < NBUF" "b_refcnt (bufs s ! b) = 0" and n: "n < length (disk s)"
    and i: "cur s = Some i" "i < length (ptable s)"
    and alt: "cached s n b \<or> (\<forall>c. \<not> cached s n c) \<and> \<not> b_dirty (bufs s ! b)"
  shows "bread_post s n b (upd_buf b (got s n i) s)"
  unfolding bread_post_def
proof (intro conjI allI impI)
  let ?t = "upd_buf b (got s n i) s"
  have len: "b < length (bufs s)"
    using inv_length [OF inv] b by simp
  show "bcache_inv ?t"
    using alt by (intro got_ok [OF inv b(1) n]) blast
  show "bview ?t = bview s"
    by (rule got_view [OF inv b n alt])
  show "hold ?t b n"
    using b i by (simp add: hold_def buf_lock_def nth_upd_buf [OF len] got_def)
  show "bbusy ?t = insert n (bbusy s)"
    by (simp add: bbusy_upd [OF inv b(1)] others_busy_free [OF b(2), simplified] got_def)
  show "bdirty ?t = bdirty s"
    using alt
  proof
    assume "cached s n b"
    then show ?thesis
      by (intro bdirty_same) (simp_all add: cached_def got_def)
  next
    assume "(\<forall>c. \<not> cached s n c) \<and> \<not> b_dirty (bufs s ! b)"
    then show ?thesis
      using others_dirty_clean [of s b] by (simp add: bdirty_upd [OF inv b(1)] got_def)
  qed
  fix c m assume h: "hold s c m"
  then show "c \<noteq> b"
    using b by (auto simp: hold_def)
  then show "hold ?t c m"
    using h by (simp add: hold_upd_other)
qed (simp_all add: bio_frame_upd_buf)

lemma bread_ok:
  assumes inv: "bcache_inv s" and i: "cur s = Some i" "i < length (ptable s)"
    and n: "n < length (disk s)" "n \<notin> bbusy s"
    and room: "n \<in> bdirty s \<or> card (bbusy s \<union> bdirty s) < NBUF"
  shows "wp (bread 1 n) (\<lambda>b. bread_post s n b) s"
proof (cases "\<exists>b. cached s n b")
  case True
  then obtain b where b: "cached s n b"
    by blast
  then have r: "b_refcnt (bufs s ! b) = 0" and bN: "b < NBUF"
    using n(2) by (auto simp: bbusy_def cached_def)
  then show ?thesis
    using bread_hit [OF inv i(1) n(1) b r] got_post [OF inv bN r n(1) i] b by (simp add: wp_def)
next
  case False
  then have "n \<notin> bdirty s"
    using inv_buf_ok [OF inv] by (auto simp: bdirty_def cached_def buf_ok_def)
  then have "\<exists>b < NBUF. b_refcnt (bufs s ! b) = 0 \<and> \<not> b_dirty (bufs s ! b)"
    using room room_from_card [OF inv] by blast
  then obtain b where b: "b < NBUF" "b_refcnt (bufs s ! b) = 0" "\<not> b_dirty (bufs s ! b)"
    "bread 1 n s = Ret b (upd_buf b (got s n i) s)"
    using bread_miss [OF inv i(1) n(1)] False by blast
  then show ?thesis
    using got_post [OF inv b(1,2) n(1) i] False by (simp add: wp_def)
qed

text \<open>Assignments to the data and the flags of a buffer that is held.\<close>

definition upd_post :: "'a bio_st_scheme \<Rightarrow> nat \<Rightarrow> nat \<Rightarrow> 'a bio_st_scheme \<Rightarrow> bool" where
  "upd_post s b n t \<longleftrightarrow> bcache_inv t \<and> hold t b n \<and> bbusy t = bbusy s \<and> bio_frame s t \<and>
     (\<forall>c m. hold s c m \<longrightarrow> hold t c m)"

lemma hold_upd:
  assumes "hold s c m" "bcache_inv s"
    and "\<And>x. b_dev (f x) = b_dev x" "\<And>x. b_blockno (f x) = b_blockno x" "\<And>x. b_refcnt (f x) = b_refcnt x"
    and "\<And>x. b_lock (f x) = b_lock x" "\<And>x. b_valid x \<Longrightarrow> b_valid (f x)"
  shows "hold (upd_buf b f s) c m"
proof (cases "c = b")
  case True
  then show ?thesis
    using assms inv_length [OF assms(2)] by (simp add: hold_def buf_lock_def nth_upd_buf)
qed (use assms hold_upd_other in blast)

lemma set_data:
  assumes inv: "bcache_inv s" and h: "hold s b n" and d: "length d = BSIZE"
  defines "t \<equiv> upd_buf b (\<lambda>x. x\<lparr>b_data := d\<rparr>) s"
  shows "upd_post s b n t" "bview t = (bview s)(n := d)" "bdirty t = bdirty s"
proof -
  note hd = holdD [OF h]
  have inv': "bcache_inv t"
    unfolding t_def
  proof (rule bcache_inv_upd_buf [OF inv hd(1)])
    show "buf_ok (disk s) ((bufs s ! b)\<lparr>b_data := d\<rparr>)"
      using inv_buf_ok [OF inv hd(1)] d hd by (simp add: buf_ok_def)
  qed (use inv_one_copy [OF inv, of _ b] hd(1) in auto)
  moreover have "hold t c m" if "hold s c m" for c m
    unfolding t_def using that by (rule hold_upd [OF _ inv]) simp_all
  moreover have "bbusy t = bbusy s"
    unfolding t_def by (rule bbusy_same) simp_all
  ultimately show "upd_post s b n t"
    using h by (auto simp: upd_post_def t_def bio_frame_upd_buf)
  show "bdirty t = bdirty s"
    unfolding t_def by (rule bdirty_same) simp_all
  show "bview t = (bview s)(n := d)"
  proof
    fix m
    show "bview t m = ((bview s)(n := d)) m"
    proof (cases "m = n")
      case True
      then show ?thesis
        using bview_upd_same [OF inv inv' [unfolded t_def] hd(1)] hd by (simp add: t_def)
    next
      case False
      then show ?thesis
        using bview_upd_other [OF inv inv' [unfolded t_def] hd(1), of m] hd by (simp add: t_def)
    qed
  qed
qed

lemma set_dirty:
  assumes inv: "bcache_inv s" and h: "hold s b n"
  defines "t \<equiv> upd_buf b (\<lambda>x. x\<lparr>b_dirty := True\<rparr>) s"
  shows "upd_post s b n t" "bview t = bview s" "bdirty t = insert n (bdirty s)"
proof -
  note hd = holdD [OF h]
  have inv': "bcache_inv t"
    unfolding t_def
  proof (rule bcache_inv_upd_buf [OF inv hd(1)])
    show "buf_ok (disk s) ((bufs s ! b)\<lparr>b_dirty := True\<rparr>)"
      using inv_buf_ok [OF inv hd(1)] hd by (simp add: buf_ok_def)
  qed (use inv_one_copy [OF inv, of _ b] hd(1) in auto)
  moreover have "hold t c m" if "hold s c m" for c m
    unfolding t_def using that by (rule hold_upd [OF _ inv]) simp_all
  moreover have "bbusy t = bbusy s"
    unfolding t_def by (rule bbusy_same) simp_all
  ultimately show "upd_post s b n t"
    using h by (auto simp: upd_post_def t_def bio_frame_upd_buf)
  show "bdirty t = insert n (bdirty s)"
    unfolding t_def
    by (simp add: bdirty_upd [OF inv hd(1)] others_dirty [OF inv hd(1,2), simplified] hd(3))
  show "bview t = bview s"
  proof
    fix m
    show "bview t m = bview s m"
    proof (cases "m = n")
      case True
      then show ?thesis
        using bview_upd_same [OF inv inv' [unfolded t_def] hd(1)] hd hold_data [OF inv h] by (simp add: t_def)
    next
      case False
      then show ?thesis
        using bview_upd_other [OF inv inv' [unfolded t_def] hd(1), of m] hd by (simp add: t_def)
    qed
  qed
qed

lemma bwrite_exact:
  assumes inv: "bcache_inv s" and h: "hold s b n"
  shows "bwrite b s = Ret () (upd_buf b (\<lambda>x. x\<lparr>b_dirty := False\<rparr>)
    (s\<lparr>disk := (disk s)[n := bview s n], dtrace := dtrace s @ [(n, bview s n)]\<rparr>))"
proof -
  note hd = holdD [OF h]
  have len: "b < length (bufs s)"
    using inv_length [OF inv] hd by simp
  let ?s = "upd_buf b (\<lambda>x. x\<lparr>b_dirty := True\<rparr>) s"
  have hs: "holdingsleep (buf_lock b) ?s = Ret True ?s"
    using set_dirty(1) [OF inv h] by (intro hold_holding [of _ _ n]) (simp add: upd_post_def)
  have v: "\<not> length (disk s) \<le> n" "b_data (bufs s ! b) = bview s n"
    using hold_range [OF inv h] hold_data [OF inv h] by simp_all
  show ?thesis
    using hd v len hold_holding [OF h] hs
    by (auto simp: bwrite_def iderw_def kbind_def kmod_def kget_def nth_upd_buf upd_buf_disk
        intro!: upd_buf_cong buf.equality)
qed

lemma set_disk:
  fixes tr :: "(nat \<times> bytes) list"
  assumes inv: "bcache_inv s" and h: "hold s b n"
  defines "t \<equiv> s\<lparr>disk := (disk s)[n := bview s n], dtrace := tr\<rparr>"
  shows "bcache_inv t" "bview t = bview s" "hold s c m \<Longrightarrow> hold t c m"
proof -
  note hd = holdD [OF h]
  have len: "length (bview s n) = BSIZE"
    using bview_length [OF inv hold_range [OF inv h]] .
  have "lru t xs = lru s xs" for xs
    by (simp add: t_def lru_def)
  moreover have "buf_ok (disk t) (bufs t ! c)" if c: "c < NBUF" for c
  proof (cases "c = b")
    case True
    then show ?thesis
      using inv_buf_ok [OF inv c] hd by (simp add: t_def buf_ok_def)
  next
    case False
    then show ?thesis
      using inv_buf_ok [OF inv c] inv_one_copy [OF inv c hd(1)] hd
      by (auto simp: t_def buf_ok_def nth_list_update_if)
  qed
  moreover have "\<forall>d \<in> set (disk t). length d = BSIZE"
    using inv len by (auto simp: t_def bcache_inv_def dest!: set_update_subset_insert [THEN subsetD])
  ultimately show inv': "bcache_inv t"
    using inv by (simp add: bcache_inv_def) (simp add: t_def)
  show "bview t = bview s"
  proof
    fix m
    show "bview t m = bview s m"
    proof (cases "m = n")
      case True
      then show ?thesis
        using bview_cached [OF inv' hd(1)] hd hold_data [OF inv h] by (simp add: t_def)
    next
      case False
      then show ?thesis
        by (auto simp: bview_def t_def split: option.split)
    qed
  qed
  show "hold s c m \<Longrightarrow> hold t c m"
    by (simp add: t_def hold_def buf_lock_def)
qed

lemma clear_dirty:
  assumes inv: "bcache_inv s" and h: "hold s b n"
  defines "t \<equiv> upd_buf b (\<lambda>x. x\<lparr>b_dirty := False\<rparr>) s"
  shows "upd_post s b n t" "bview t = bview s" "bdirty t = bdirty s - {n}"
proof -
  note hd = holdD [OF h]
  have inv': "bcache_inv t"
    unfolding t_def
  proof (rule bcache_inv_upd_buf [OF inv hd(1)])
    show "buf_ok (disk s) ((bufs s ! b)\<lparr>b_dirty := False\<rparr>)"
      using inv_buf_ok [OF inv hd(1)] hd by (simp add: buf_ok_def)
  qed (use inv_one_copy [OF inv, of _ b] hd(1) in auto)
  moreover have "hold t c m" if "hold s c m" for c m
    unfolding t_def using that by (rule hold_upd [OF _ inv]) simp_all
  moreover have "bbusy t = bbusy s"
    unfolding t_def by (rule bbusy_same) simp_all
  ultimately show "upd_post s b n t"
    using h by (auto simp: upd_post_def t_def bio_frame_upd_buf)
  show "bdirty t = bdirty s - {n}"
    unfolding t_def
    by (simp add: bdirty_upd [OF inv hd(1)] others_dirty [OF inv hd(1,2), simplified] hd(3))
  show "bview t = bview s"
  proof
    fix m
    show "bview t m = bview s m"
    proof (cases "m = n")
      case True
      then show ?thesis
        using bview_upd_same [OF inv inv' [unfolded t_def] hd(1)] hd hold_data [OF inv h] by (simp add: t_def)
    next
      case False
      then show ?thesis
        using bview_upd_other [OF inv inv' [unfolded t_def] hd(1), of m] hd by (simp add: t_def)
    qed
  qed
qed

definition bwrite_post :: "'a bio_st_scheme \<Rightarrow> nat \<Rightarrow> nat \<Rightarrow> 'a bio_st_scheme \<Rightarrow> bool" where
  "bwrite_post s n b t \<longleftrightarrow> upd_post s b n t \<and> bview t = bview s \<and> bdirty t = bdirty s - {n} \<and>
     ptable t = ptable s \<and>
     disk t = (disk s)[n := bview s n] \<and> dtrace t = dtrace s @ [(n, bview s n)]"

lemma bwrite_ok:
  assumes inv: "bcache_inv s" and h: "hold s b n"
  shows "wp (bwrite b) (\<lambda>_. bwrite_post s n b) s"
proof -
  let ?u = "s\<lparr>disk := (disk s)[n := bview s n], dtrace := dtrace s @ [(n, bview s n)]\<rparr>"
  let ?t = "upd_buf b (\<lambda>x. x\<lparr>b_dirty := False\<rparr>) ?u"
  note u = set_disk [OF inv h, where tr = "dtrace s @ [(n, bview s n)]"]
  note c = clear_dirty [OF u(1) u(3) [OF h]]
  have fr: "bio_frame s ?t"
    by (simp add: bio_frame_def upd_buf_def)
  have "bbusy ?u = bbusy s" "bdirty ?u = bdirty s"
    by (simp_all add: bbusy_def bdirty_def)
  then have "bwrite_post s n b ?t"
    using c u(2,3) fr by (simp add: bwrite_post_def upd_post_def)
  then show ?thesis
    by (simp add: wp_def bwrite_exact [OF inv h])
qed

section \<open>Moving a buffer to the front of the ring\<close>

lemma link_simps:
  "c < length (bufs s) \<Longrightarrow> bnext (upd_buf c (\<lambda>x. x\<lparr>b_next := v\<rparr>) s) d = (if d = c then v else bnext s d)"
  "bprev (upd_buf c (\<lambda>x. x\<lparr>b_next := v\<rparr>) s) d = bprev s d"
  "c < length (bufs s) \<Longrightarrow> bprev (upd_buf c (\<lambda>x. x\<lparr>b_prev := v\<rparr>) s) d = (if d = c then v else bprev s d)"
  "bnext (upd_buf c (\<lambda>x. x\<lparr>b_prev := v\<rparr>) s) d = bnext s d"
  by (auto simp: nth_upd_buf upd_buf_def nth_list_update_if)

lemma seg_unlink_buf:
  assumes s: "seg (bnext s) (bprev s) NBUF (ys @ b # zs) NBUF" and d: "distinct (ys @ b # zs)"
    and sub: "set (ys @ b # zs) \<subseteq> {..<NBUF}" and len: "length (bufs s) = NBUF + 1"
  shows "seg (bnext (unlink_buf b s)) (bprev (unlink_buf b s)) NBUF (ys @ zs) NBUF"
proof -
  have s1: "seg (bnext s) (bprev s) NBUF ys b" and s2: "seg (bnext s) (bprev s) b zs NBUF"
    using s by (auto simp: seg_append)
  have "bnext s b \<in> insert NBUF (set zs)"
    using seg_first [OF s2] by (cases zs) auto
  moreover have "bprev s b \<in> insert NBUF (set ys)"
    using seg_last [OF s1] by (metis last_in_set list.distinct(1) list.simps(15))
  ultimately have nb: "bnext s b < length (bufs s)" "bprev s b < length (bufs s)" "bnext s b \<noteq> b"
    using sub d len by auto
  have "seg ((bnext s)(bprev s b := bnext s b)) ((bprev s)(bnext s b := bprev s b)) NBUF (ys @ zs) NBUF"
    by (rule seg_unlink [OF s d]) (use sub in auto)
  moreover have "bnext (unlink_buf b s) = (bnext s)(bprev s b := bnext s b)"
    "bprev (unlink_buf b s) = (bprev s)(bnext s b := bprev s b)"
    using nb by (auto simp: fun_eq_iff unlink_buf_def Let_def link_simps)
  ultimately show ?thesis
    by simp
qed

lemma seg_push_front:
  assumes s: "seg (bnext s) (bprev s) NBUF xs NBUF" and d: "distinct xs" "b \<notin> set xs"
    and sub: "set xs \<subseteq> {..<NBUF}" "b < NBUF" and len: "length (bufs s) = NBUF + 1"
  shows "seg (bnext (push_front b s)) (bprev (push_front b s)) NBUF (b # xs) NBUF"
proof -
  have "bnext s NBUF \<in> insert NBUF (set xs)"
    using seg_first [OF s] by (cases xs) auto
  then have nb: "bnext s NBUF < length (bufs s)"
    using sub len by auto
  have "seg ((bnext s)(b := bnext s NBUF, NBUF := b)) ((bprev s)(b := NBUF, bnext s NBUF := b)) NBUF (b # xs) NBUF"
    by (rule seg_push [OF s d(2)]) (use sub d in auto)
  moreover have "bnext (push_front b s) = (bnext s)(b := bnext s NBUF, NBUF := b)"
    "bprev (push_front b s) = (bprev s)(b := NBUF, bnext s NBUF := b)"
    using nb sub len by (auto simp: fun_eq_iff push_front_def Let_def link_simps simp del: upd_buf_twice)
  ultimately show ?thesis
    by (simp only:)
qed

lemma lru_to_front:
  assumes "lru s xs" "b < NBUF"
  shows "lru (push_front b (unlink_buf b s)) (b # remove1 b xs)"
proof -
  have xs: "distinct xs" "set xs = {..<NBUF}" "length (bufs s) = NBUF + 1"
    using assms by (simp_all add: lru_def)
  then obtain ys zs where split: "xs = ys @ b # zs"
    using assms(2) by (metis lessThan_iff split_list)
  have b: "b \<notin> set ys" "b \<notin> set zs"
    using xs(1) split by auto
  then have rm: "remove1 b xs = ys @ zs"
    by (simp add: split remove1_append)
  have l: "length (bufs (unlink_buf b s)) = NBUF + 1"
    using xs by (simp add: unlink_buf_def Let_def)
  have "seg (bnext (unlink_buf b s)) (bprev (unlink_buf b s)) NBUF (ys @ zs) NBUF"
    using assms xs by (intro seg_unlink_buf) (auto simp: lru_def split)
  then have "seg (bnext (push_front b (unlink_buf b s))) (bprev (push_front b (unlink_buf b s))) NBUF (b # ys @ zs) NBUF"
    using xs b l assms(2) by (intro seg_push_front) (auto simp: split)
  moreover have "set (b # ys @ zs) = {..<NBUF}" "distinct (b # ys @ zs)"
    using xs by (auto simp: split)
  moreover have "length (bufs (push_front b (unlink_buf b s))) = NBUF + 1"
    using l by (simp add: push_front_def Let_def)
  ultimately show ?thesis
    unfolding lru_def rm by blast
qed

text \<open>A change of the links only.\<close>

definition relinked :: "'a bio_st_scheme \<Rightarrow> 'a bio_st_scheme \<Rightarrow> bool" where
  "relinked s t \<longleftrightarrow> t = s\<lparr>bufs := bufs t\<rparr> \<and> length (bufs t) = length (bufs s) \<and>
     (\<forall>c. (bufs t ! c)\<lparr>b_prev := 0, b_next := 0\<rparr> = (bufs s ! c)\<lparr>b_prev := 0, b_next := 0\<rparr>)"

lemma relinked_trans: "relinked s t \<Longrightarrow> relinked t u \<Longrightarrow> relinked s u"
  unfolding relinked_def by (cases s; cases t; cases u) auto

lemma relinked_upd:
  "relinked s (upd_buf b (\<lambda>x. x\<lparr>b_prev := v\<rparr>) s)" "relinked s (upd_buf b (\<lambda>x. x\<lparr>b_next := v\<rparr>) s)"
  by (auto simp: relinked_def upd_buf_def nth_list_update_if)

lemma relinked_to_front: "relinked s (push_front b (unlink_buf b s))"
  unfolding push_front_def unlink_buf_def Let_def
  by (rule relinked_trans [OF _ relinked_upd(2)] relinked_trans [OF _ relinked_upd(1)] relinked_upd)+

lemma relinked_fields:
  assumes "relinked s t"
  shows "b_valid (bufs t ! c) = b_valid (bufs s ! c)" "b_dirty (bufs t ! c) = b_dirty (bufs s ! c)"
    "b_dev (bufs t ! c) = b_dev (bufs s ! c)" "b_blockno (bufs t ! c) = b_blockno (bufs s ! c)"
    "b_lock (bufs t ! c) = b_lock (bufs s ! c)" "b_refcnt (bufs t ! c) = b_refcnt (bufs s ! c)"
    "b_data (bufs t ! c) = b_data (bufs s ! c)"
proof -
  have "(bufs t ! c)\<lparr>b_prev := 0, b_next := 0\<rparr> = (bufs s ! c)\<lparr>b_prev := 0, b_next := 0\<rparr>"
    using assms by (simp add: relinked_def)
  then show "b_valid (bufs t ! c) = b_valid (bufs s ! c)" "b_dirty (bufs t ! c) = b_dirty (bufs s ! c)"
    "b_dev (bufs t ! c) = b_dev (bufs s ! c)" "b_blockno (bufs t ! c) = b_blockno (bufs s ! c)"
    "b_lock (bufs t ! c) = b_lock (bufs s ! c)" "b_refcnt (bufs t ! c) = b_refcnt (bufs s ! c)"
    "b_data (bufs t ! c) = b_data (bufs s ! c)"
    by (cases "bufs t ! c"; cases "bufs s ! c"; simp)+
qed

lemma relinked_rest:
  assumes "relinked s t"
  shows "disk t = disk s" "dtrace t = dtrace s" "cur t = cur s" "ptable t = ptable s"
  using assms by (cases s; cases t; simp add: relinked_def)+

lemma relinked_obs:
  assumes "relinked s t"
  shows "bview t = bview s" "bbusy t = bbusy s" "bdirty t = bdirty s" "hold t c m = hold s c m" "bio_frame s t"
proof -
  note f = relinked_fields [OF assms] relinked_rest [OF assms]
  show "bview t = bview s" "bbusy t = bbusy s" "bdirty t = bdirty s" "hold t c m = hold s c m"
    by (simp_all add: fun_eq_iff bview_def bbusy_def bdirty_def hold_def buf_lock_def f split: option.split)
  show "bio_frame s t"
    using assms by (cases s; cases t) (simp add: relinked_def bio_frame_def)
qed

lemma relinked_inv:
  assumes "relinked s t" "bcache_inv s" "lru t xs"
  shows "bcache_inv t"
proof -
  note f = relinked_fields [OF assms(1)] relinked_rest [OF assms(1)]
  have "one_copy (bufs t) = one_copy (bufs s)"
    by (simp add: one_copy_def f)
  moreover have "buf_ok (disk t) (bufs t ! c) = buf_ok (disk s) (bufs s ! c)" for c
    by (simp add: buf_ok_def f)
  ultimately show ?thesis
    using assms(2,3) by (auto simp: bcache_inv_def f)
qed

section \<open>Releasing a buffer\<close>

text \<open>The buffer as \<^verbatim>\<open>brelse\<close> leaves it when nobody else refers to it.\<close>

definition freed :: "buf \<Rightarrow> buf" where
  "freed x = x\<lparr>b_lock := \<lparr>sl_locked = False, sl_pid = 0\<rparr>, b_refcnt := 0\<rparr>"

lemma brelse_exact:
  assumes inv: "bcache_inv s" and h: "hold s b n"
  defines "ps \<equiv> map (\<lambda>p. if p_state p = SLEEPING \<and> p_chan p = Some (ChBufLock b)
    then p\<lparr>p_state := RUNNABLE\<rparr> else p) (ptable s)"
  shows "brelse b s = Ret () (push_front b (unlink_buf b (upd_buf b freed (s\<lparr>ptable := ps\<rparr>))))"
proof -
  note hd = holdD [OF h]
  have len: "b < length (bufs s)"
    using inv_length [OF inv] hd by simp
  have w: "w32 (Suc (2 ^ 32 - 1)) = 0"
    by (simp add: w32_def)
  have c: "(upd_buf b f s)\<lparr>ptable := q\<rparr> = upd_buf b f (s\<lparr>ptable := q\<rparr>)" for f q
    by (simp add: upd_buf_def)
  have e: "upd_buf b (\<lambda>x. x\<lparr>b_lock := \<lparr>sl_locked = False, sl_pid = 0\<rparr>, b_refcnt := w32 (b_refcnt x + (2 ^ 32 - 1))\<rparr>)
      (s\<lparr>ptable := ps\<rparr>) = upd_buf b freed (s\<lparr>ptable := ps\<rparr>)"
    using hd w by (intro upd_buf_cong) (simp add: freed_def)
  have f0: "b_refcnt (freed x) = 0" for x
    by (simp add: freed_def)
  show ?thesis
    using hold_holding [OF h] len hd w e
    by (simp add: f0 brelse_def releasesleep_def wakeup_def wakeup1_def kbind_def kmod_def kget_def kwhen_def
        upd_buf_lock_def nth_upd_buf c ps_def)
qed

definition brelse_post :: "'a bio_st_scheme \<Rightarrow> nat \<Rightarrow> nat \<Rightarrow> 'a bio_st_scheme \<Rightarrow> bool" where
  "brelse_post s n b t \<longleftrightarrow> bcache_inv t \<and> bview t = bview s \<and> bbusy t = bbusy s - {n} \<and>
     bdirty t = bdirty s \<and> bio_frame s t \<and> disk t = disk s \<and> dtrace t = dtrace s \<and>
     (\<forall>c m. hold s c m \<longrightarrow> c \<noteq> b \<longrightarrow> hold t c m)"

lemma freed_post:
  assumes inv: "bcache_inv s" and h: "hold s b n" and clean: "n \<in> bdirty s \<or> bview s n = disk s ! n"
  defines "t \<equiv> upd_buf b freed s"
  shows "brelse_post s n b t"
  unfolding brelse_post_def
proof (intro conjI allI impI)
  note hd = holdD [OF h]
  have dirty: "b_dirty (bufs s ! b)" if d: "n \<in> bdirty s"
  proof -
    obtain c where c: "c < NBUF" "b_dirty (bufs s ! c)" "b_blockno (bufs s ! c) = n"
      using d by (auto simp: bdirty_def)
    then have "c = b"
      using inv_buf_ok [OF inv c(1)] inv_one_copy [OF inv c(1) hd(1)] hd by (simp add: buf_ok_def)
    then show ?thesis using c by simp
  qed
  show inv': "bcache_inv t"
    unfolding t_def
  proof (rule bcache_inv_upd_buf [OF inv hd(1)])
    show "buf_ok (disk s) (freed (bufs s ! b))"
      using inv_buf_ok [OF inv hd(1)] hd clean dirty hold_data [OF inv h]
      by (auto simp: buf_ok_def freed_def)
  qed (use inv_one_copy [OF inv, of _ b] hd(1) in \<open>auto simp: freed_def\<close>)
  show "bview t = bview s"
  proof
    fix m
    show "bview t m = bview s m"
    proof (cases "m = n")
      case True
      then show ?thesis
        using bview_upd_same [OF inv inv' [unfolded t_def] hd(1)] hd hold_data [OF inv h]
        by (simp add: t_def freed_def)
    next
      case False
      then show ?thesis
        using bview_upd_other [OF inv inv' [unfolded t_def] hd(1), of m] hd by (simp add: t_def freed_def)
    qed
  qed
  show "bbusy t = bbusy s - {n}"
    unfolding t_def
    by (simp add: bbusy_upd [OF inv hd(1)] others_busy [OF inv hd(1,2), simplified] hd(3) freed_def)
  show "bdirty t = bdirty s"
    unfolding t_def by (rule bdirty_same) (simp_all add: freed_def)
  show "hold t c m" if "hold s c m" "c \<noteq> b" for c m
    using that by (simp add: t_def hold_upd_other)
qed (simp_all add: t_def bio_frame_upd_buf)

lemma hold_woken: "hold s c m \<Longrightarrow> woken (ptable s) ps \<Longrightarrow> hold (s\<lparr>ptable := ps\<rparr>) c m"
  by (auto simp: hold_def buf_lock_def woken_length woken_pid)

lemma brelse_ok:
  assumes inv: "bcache_inv s" and h: "hold s b n" and clean: "n \<in> bdirty s \<or> bview s n = disk s ! n"
  shows "wp (brelse b) (\<lambda>_. brelse_post s n b) s"
proof -
  define ps where "ps = map (\<lambda>p. if p_state p = SLEEPING \<and> p_chan p = Some (ChBufLock b)
    then p\<lparr>p_state := RUNNABLE\<rparr> else p) (ptable s)"
  define s1 where "s1 = s\<lparr>ptable := ps\<rparr>"
  define s2 where "s2 = upd_buf b freed s1"
  define t where "t = push_front b (unlink_buf b s2)"
  have wk: "woken (ptable s) ps"
    unfolding ps_def by (rule woken_wakeup)
  have eq: "bview s1 = bview s" "bbusy s1 = bbusy s" "bdirty s1 = bdirty s" "disk s1 = disk s"
    "dtrace s1 = dtrace s" "bcache_inv s1 = bcache_inv s"
    by (simp_all add: s1_def fun_eq_iff bview_def bbusy_def bdirty_def bcache_inv_def lru_def split: option.split)
  have "brelse_post s1 n b s2"
    unfolding s2_def
    using freed_post [of s1 b n] inv clean hold_woken [OF h wk] by (simp add: eq s1_def [symmetric])
  moreover have rl: "relinked s2 t"
    unfolding t_def by (rule relinked_to_front)
  moreover have "bcache_inv t"
  proof -
    have "bcache_inv s2"
      using calculation(1) by (simp add: brelse_post_def)
    then obtain xs where "lru s2 xs"
      by (auto simp: bcache_inv_def)
    then have "lru t (b # remove1 b xs)"
      unfolding t_def using holdD(1) [OF h] by (rule lru_to_front)
    then show ?thesis
      using relinked_inv [OF rl] \<open>bcache_inv s2\<close> by blast
  qed
  moreover have "bio_frame s s1"
    using wk by (simp add: s1_def bio_frame_def)
  ultimately have "brelse_post s n b t"
    using relinked_obs [OF rl] relinked_rest [OF rl] hold_woken [OF _ wk]
    by (auto simp: brelse_post_def eq s1_def [symmetric] intro: bio_frame_trans)
  then show ?thesis
    using brelse_exact [OF inv h] by (simp add: wp_def t_def s2_def s1_def ps_def)
qed

section \<open>Facts for the clients of the cache\<close>

definition running_ok :: "'a proc_st_scheme \<Rightarrow> bool" where
  "running_ok s \<longleftrightarrow> (\<exists>i. cur s = Some i \<and> i < length (ptable s))"

lemma bio_frameE:
  assumes "bio_frame s t"
  obtains ps bs d tr where "t = s\<lparr>ptable := ps, bufs := bs, disk := d, dtrace := tr\<rparr>"
    "woken (ptable s) ps" "length d = length (disk s)"
  using assms unfolding bio_frame_def by blast

lemma running_frame: "bio_frame s t \<Longrightarrow> running_ok s \<Longrightarrow> running_ok t"
  by (elim bio_frameE) (auto simp: running_ok_def woken_length)

lemma bread_run:
  assumes "bcache_inv s" "running_ok s" "n < length (disk s)" "n \<notin> bbusy s"
    and "n \<in> bdirty s \<or> card (bbusy s \<union> bdirty s) < NBUF"
  shows "wp (bread 1 n) (\<lambda>b. bread_post s n b) s"
  using assms bread_ok by (auto simp: running_ok_def)

lemma bview_clean:
  assumes inv: "bcache_inv s" and n: "n \<notin> bbusy s" "n \<notin> bdirty s"
  shows "bview s n = disk s ! n"
proof (cases "\<exists>b < NBUF. b_valid (bufs s ! b) \<and> b_blockno (bufs s ! b) = n")
  case True
  then obtain b where b: "b < NBUF" "b_valid (bufs s ! b)" "b_blockno (bufs s ! b) = n"
    by blast
  then have "b_refcnt (bufs s ! b) = 0" "\<not> b_dirty (bufs s ! b)"
    using n by (auto simp: bbusy_def bdirty_def)
  then show ?thesis
    using bview_cached [OF inv b] inv_buf_ok [OF inv b(1)] b by (simp add: buf_ok_def)
qed (rule bview_uncached)

lemma card_insert_room: "finite A \<Longrightarrow> card A + 1 < n \<Longrightarrow> card (insert x A) < n"
  using card_insert_le_m1 [of "card A + 1" A x] by (auto simp: card_insert_if)

section \<open>Initialisation\<close>

text \<open>The cache lives in zeroed memory when \<^verbatim>\<open>binit\<close> runs.\<close>

definition zero_buf :: buf where
  "zero_buf = \<lparr>b_valid = False, b_dirty = False, b_dev = 0, b_blockno = 0,
     b_lock = \<lparr>sl_locked = False, sl_pid = 0\<rparr>, b_refcnt = 0, b_prev = 0, b_next = 0,
     b_qnext = None, b_data = replicate BSIZE 0\<rparr>"

lemma relinked_push_front: "relinked s (push_front b s)"
  unfolding push_front_def Let_def
  by (rule relinked_trans [OF _ relinked_upd(2)] relinked_trans [OF _ relinked_upd(1)] relinked_upd)+

lemma zero_nth:
  assumes "bufs s = replicate (NBUF + 1) zero_buf" "c < NBUF + 1"
  shows "bufs s ! c = zero_buf"
  unfolding assms(1) using assms(2) by (rule nth_replicate)

lemma binit_ok:
  assumes z: "bufs s = replicate (NBUF + 1) zero_buf"
  shows "wp binit (\<lambda>_ t. relinked s t \<and> lru t (rev [0..<NBUF])) s"
proof -
  let ?s0 = "upd_buf NBUF (\<lambda>x. x\<lparr>b_prev := NBUF, b_next := NBUF\<rparr>) s"
  let ?I = "\<lambda>k t. relinked s t \<and> seg (bnext t) (bprev t) NBUF (rev [0..<k]) NBUF"
  have "wp (kfor [0..<NBUF] (\<lambda>b. kbind (initsleeplock (upd_buf_lock b)) (\<lambda>_. kmod (push_front b))))
      (\<lambda>_ t. relinked s t \<and> lru t (rev [0..<NBUF])) ?s0"
  proof (rule wp_kfor [where I = ?I])
    have "relinked s (upd_buf NBUF (\<lambda>x. x\<lparr>b_next := NBUF\<rparr>) (upd_buf NBUF (\<lambda>x. x\<lparr>b_prev := NBUF\<rparr>) s))"
      by (rule relinked_trans [OF relinked_upd(1) relinked_upd(2)])
    then show "?I 0 ?s0"
      using z by (simp add: nth_upd_buf)
  next
    fix k t assume k: "k < length [0..<NBUF]" and I: "?I k t"
    have lk: "b_lock (bufs t ! k) = \<lparr>sl_locked = False, sl_pid = 0\<rparr>"
      using relinked_fields(5) [of s t k] I k zero_nth [OF z, of k] by (simp add: zero_buf_def)
    have len: "length (bufs t) = NBUF + 1"
      using I z by (simp add: relinked_def)
    have same: "upd_buf k (\<lambda>x. x\<lparr>b_lock := \<lparr>sl_locked = False, sl_pid = 0\<rparr>\<rparr>) t = t"
    proof -
      have "(bufs t ! k)\<lparr>b_lock := \<lparr>sl_locked = False, sl_pid = 0\<rparr>\<rparr> = bufs t ! k"
        by (rule buf.equality) (simp_all add: lk)
      then show ?thesis by (simp add: upd_buf_def)
    qed
    have "seg (bnext (push_front k t)) (bprev (push_front k t)) NBUF (k # rev [0..<k]) NBUF"
      using I k len by (intro seg_push_front) auto
    moreover have "relinked s (push_front k t)"
      using relinked_trans [OF _ relinked_push_front] I by blast
    ultimately show "wp (kbind (initsleeplock (upd_buf_lock ([0..<NBUF] ! k))) (\<lambda>_. kmod (push_front ([0..<NBUF] ! k))))
        (\<lambda>_. ?I (Suc k)) t"
      using k by (simp add: initsleeplock_def upd_buf_lock_def same)
  next
    fix t assume I: "?I (length [0..<NBUF]) t"
    then show "relinked s t \<and> lru t (rev [0..<NBUF])"
      using z by (auto simp: lru_def relinked_def)
  qed
  then show ?thesis
    by (simp add: binit_def)
qed

lemma binit_inv:
  assumes z: "bufs s = replicate (NBUF + 1) zero_buf" and d: "\<forall>x \<in> set (disk s). length x = BSIZE"
  shows "wp binit (\<lambda>_ t. bcache_inv t \<and> bview t = (!) (disk s) \<and> bbusy t = {} \<and> bdirty t = {} \<and> relinked s t) s"
proof (rule wp_mono [OF binit_ok [OF z]])
  fix u :: unit and t
  assume t: "relinked s t \<and> lru t (rev [0..<NBUF])"
  then have f: "b_valid (bufs t ! c) = False" "b_dirty (bufs t ! c) = False" "b_dev (bufs t ! c) = 0"
    "b_refcnt (bufs t ! c) = 0" "b_lock (bufs t ! c) = \<lparr>sl_locked = False, sl_pid = 0\<rparr>"
    "length (b_data (bufs t ! c)) = BSIZE" if "c < NBUF" for c
    using relinked_fields [of s t c] zero_nth [OF z, of c] that by (simp_all add: zero_buf_def)
  have "bcache_inv t"
    using t d f relinked_rest [of s t] by (auto simp: bcache_inv_def one_copy_def buf_ok_def)
  moreover have "bbusy t = {}" "bdirty t = {}"
    using f by (auto simp: bbusy_def bdirty_def)
  moreover have "bview t n = disk s ! n" for n
    using bview_uncached [of t n] f relinked_rest [of s t] t by auto
  ultimately show "bcache_inv t \<and> bview t = (!) (disk s) \<and> bbusy t = {} \<and> bdirty t = {} \<and> relinked s t"
    using t by (simp add: fun_eq_iff)
qed

text \<open>The kernel's data with process table \<open>ps\<close> and disk \<open>d\<close>, before \<^verbatim>\<open>binit\<close>; process 0 runs.\<close>

definition bio_boot :: "proc list \<Rightarrow> bytes list \<Rightarrow> bio_st" where
  "bio_boot ps d = \<lparr>mem = (\<lambda>_. 0), kern_end = 0, kern_data = 0, use_lock = False, freelist = 0,
     ptable = ps, nextpid = 1, initproc = None, numofthread = 0, cur = Some 0, ticks = 0,
     forkret_addr = 0, trapret_addr = 0,
     bufs = replicate (NBUF + 1) zero_buf, disk = d, dtrace = []\<rparr>"

definition running :: "int \<Rightarrow> proc" where
  "running pid = zero_proc\<lparr>p_state := RUNNING, p_pid := pid\<rparr>"

section \<open>Properties\<close>

text \<open>
  C9: The pointer ring of the cache is a least-recently-used list.  If following \<^verbatim>\<open>next\<close> from the
  head lists the buffers \<open>xs\<close>, then \<^verbatim>\<open>bget\<close>'s two scans terminate and choose the cached buffer
  of the block if there is one and otherwise the last unreferenced clean buffer of \<open>xs\<close>
  (\<^verbatim>\<open>panic\<close> if there is none), keeping the order; and the \<^verbatim>\<open>brelse\<close> that drops the last reference
  moves the buffer to the front of the list.
\<close>

theorem bcache_is_lru:
  assumes "lru s xs"
  shows "bget_find dev n s =
      (case find (\<lambda>b. b_dev (bufs s ! b) = dev \<and> b_blockno (bufs s ! b) = n) xs of
         Some b \<Rightarrow> Ret b (upd_buf b (\<lambda>x. x\<lparr>b_refcnt := w32 (b_refcnt x + 1)\<rparr>) s)
       | None \<Rightarrow>
          (case find (\<lambda>b. b_refcnt (bufs s ! b) = 0 \<and> \<not> b_dirty (bufs s ! b)) (rev xs) of
             Some b \<Rightarrow> Ret b (upd_buf b (\<lambda>x. x\<lparr>b_dev := dev, b_blockno := n, b_valid := False,
                                          b_dirty := False, b_refcnt := 1\<rparr>) s)
           | None \<Rightarrow> Panic ''bget: no buffers'')) \<and>
    (\<forall>b t. bget_find dev n s = Ret b t \<longrightarrow> lru t xs) \<and>
    (\<forall>b m. bcache_inv s \<and> hold s b m \<longrightarrow> wp (brelse b) (\<lambda>_ t. lru t (b # remove1 b xs)) s)"
proof (intro conjI allI impI)
  show "lru t xs" if "bget_find dev n s = Ret b t" for b t
    using that assms by (auto simp: bget_find_lru [OF assms] intro: lru_upd_buf split: option.splits)
  fix b m
  assume h: "bcache_inv s \<and> hold s b m"
  have "lru (upd_buf b freed (s\<lparr>ptable := ps\<rparr>)) xs" for ps
    using assms by (intro lru_upd_buf) (simp_all add: lru_def freed_def)
  then show "wp (brelse b) (\<lambda>_ t. lru t (b # remove1 b xs)) s"
    using h holdD(1) [of s b m] by (simp add: wp_def brelse_exact [of s b m] lru_to_front)
qed (rule bget_find_lru [OF assms])

definition demo_disk :: "bytes list" where
  "demo_disk = replicate 8 (replicate BSIZE 7)"

lemma demo_boot:
  "wp binit (\<lambda>_ s. bcache_inv s \<and> bview s = (!) demo_disk \<and> bbusy s = {} \<and> bdirty s = {} \<and>
     cur s = Some 0 \<and> ptable s = [running 1] \<and> disk s = demo_disk) (bio_boot [running 1] demo_disk)"
  by (rule wp_mono [OF binit_inv]) (auto simp: bio_boot_def demo_disk_def dest: relinked_rest)

theorem bcache_is_lru_witness:
  "wp binit (\<lambda>_ s. lru s (rev [0..<NBUF]) \<and> (\<exists>t. bget_find 1 5 s = Ret 0 t \<and> lru t (rev [0..<NBUF])))
     (bio_boot [running 1] demo_disk)"
proof -
  let ?s = "bio_boot [running 1] demo_disk"
  have z: "bufs ?s = replicate (NBUF + 1) zero_buf"
    by (simp add: bio_boot_def)
  show ?thesis
  proof (rule wp_mono [OF binit_ok [OF z]])
    fix u :: unit and t
    assume t: "relinked ?s t \<and> lru t (rev [0..<NBUF])"
    then have f: "b_dev (bufs t ! c) = 0" "\<not> b_dirty (bufs t ! c)" "b_refcnt (bufs t ! c) = 0" if "c < NBUF" for c
      using relinked_fields [of ?s t c] zero_nth [OF z, of c] that by (simp_all add: zero_buf_def)
    have 1: "find (\<lambda>b. b_dev (bufs t ! b) = 1 \<and> b_blockno (bufs t ! b) = 5) (rev [0..<NBUF]) = None"
      using f by (auto simp: find_None_iff)
    have "[0..<NBUF] = 0 # [Suc 0..<NBUF]"
      by (simp add: upt_conv_Cons NBUF_def MAXOPBLOCKS_def)
    then have 2: "find (\<lambda>b. b_refcnt (bufs t ! b) = 0 \<and> \<not> b_dirty (bufs t ! b)) (rev (rev [0..<NBUF])) = Some 0"
      using f [of 0] by (simp add: NBUF_def MAXOPBLOCKS_def)
    show "lru t (rev [0..<NBUF]) \<and> (\<exists>v. bget_find 1 5 t = Ret 0 v \<and> lru v (rev [0..<NBUF]))"
      using bcache_is_lru [of t "rev [0..<NBUF]" 1 5] t by (simp add: 1 2 del: One_nat_def rev_rev_ident)
  qed
qed

text \<open>
  C8: A block written through the cache is read back.  With a held buffer of block \<open>n\<close>, storing
  \<open>d\<close> in it, \<^verbatim>\<open>bwrite\<close>, \<^verbatim>\<open>brelse\<close> and then \<^verbatim>\<open>bread\<close> of any block \<open>m\<close> that nobody else uses
  returns without panic a locked buffer with the block's current contents (\<open>d\<close> for \<open>n\<close>, what the
  cache showed before for every other block); the disk has changed in block \<open>n\<close> only, by one
  write, and the cache invariant (one copy per block, clean copies equal to the disk) holds again.
\<close>

theorem bwrite_bread_roundtrip:
  assumes "bcache_inv s" "hold s b n" "length d = BSIZE" "m < length (disk s)" "m \<notin> bbusy s - {n}"
    and "card (bbusy s \<union> bdirty s) < NBUF"
  shows "wp (kbind (kmod (upd_buf b (\<lambda>x. x\<lparr>b_data := d\<rparr>))) (\<lambda>_.
             kbind (bwrite b) (\<lambda>_. kbind (brelse b) (\<lambda>_. bread 1 m))))
    (\<lambda>c t. bcache_inv t \<and> hold t c m \<and> b_data (bufs t ! c) = (if m = n then d else bview s m) \<and>
       disk t = (disk s)[n := d] \<and> dtrace t = dtrace s @ [(n, d)]) s"
proof -
  obtain i where i: "cur s = Some i" "i < length (ptable s)"
    using assms(2) by (auto simp: hold_def)
  define s1 where "s1 = upd_buf b (\<lambda>x. x\<lparr>b_data := d\<rparr>) s"
  have s1: "bcache_inv s1" "hold s1 b n" "bview s1 = (bview s)(n := d)" "bbusy s1 = bbusy s"
    "bdirty s1 = bdirty s" "disk s1 = disk s" "dtrace s1 = dtrace s" "cur s1 = cur s" "ptable s1 = ptable s"
    using set_data [OF assms(1-3)] by (simp_all add: s1_def upd_post_def)
  have "wp (kbind (bwrite b) (\<lambda>_. kbind (brelse b) (\<lambda>_. bread 1 m)))
    (\<lambda>c t. bcache_inv t \<and> hold t c m \<and> b_data (bufs t ! c) = (if m = n then d else bview s m) \<and>
       disk t = (disk s)[n := d] \<and> dtrace t = dtrace s @ [(n, d)]) s1"
    unfolding wp_kbind
  proof (rule wp_mono [OF bwrite_ok [OF s1(1,2)]])
    fix x s2 assume w: "bwrite_post s1 n b s2"
    then have s2: "bcache_inv s2" "hold s2 b n" "bview s2 = (bview s)(n := d)" "bbusy s2 = bbusy s"
      "bdirty s2 = bdirty s - {n}" "disk s2 = (disk s)[n := d]" "dtrace s2 = dtrace s @ [(n, d)]"
      "ptable s2 = ptable s" "cur s2 = cur s"
      using s1 by (auto simp: bwrite_post_def upd_post_def dest: bio_frame_cur)
    have n: "n < length (disk s)"
      using hold_range [OF assms(1,2)] .
    then have clean: "n \<in> bdirty s2 \<or> bview s2 n = disk s2 ! n"
      by (simp add: s2)
    show "wp (brelse b) (\<lambda>_. wp (bread 1 m) (\<lambda>c t. bcache_inv t \<and> hold t c m \<and>
       b_data (bufs t ! c) = (if m = n then d else bview s m) \<and>
       disk t = (disk s)[n := d] \<and> dtrace t = dtrace s @ [(n, d)])) s2"
    proof (rule wp_mono [OF brelse_ok [OF s2(1,2) clean]])
      fix y s3 assume r: "brelse_post s2 n b s3"
      then have c3: "cur s3 = Some i" "i < length (ptable s3)" "length (disk s3) = length (disk s)"
        using bio_frame_cur [of s2 s3] s2 i by (auto simp: brelse_post_def bio_frame_def woken_length)
      have "card (bbusy s3 \<union> bdirty s3) \<le> card (bbusy s \<union> bdirty s)"
        using r s2 by (intro card_mono) (auto simp: brelse_post_def)
      then have "wp (bread 1 m) (\<lambda>c. bread_post s3 m c) s3"
        using r s2 c3 assms by (intro bread_ok [of s3 i]) (auto simp: brelse_post_def)
      then show "wp (bread 1 m) (\<lambda>c t. bcache_inv t \<and> hold t c m \<and>
         b_data (bufs t ! c) = (if m = n then d else bview s m) \<and>
         disk t = (disk s)[n := d] \<and> dtrace t = dtrace s @ [(n, d)]) s3"
        using r s2 by (elim wp_mono) (auto simp: bread_post_def brelse_post_def hold_data)
    qed
  qed
  then show ?thesis
    by (simp add: s1_def)
qed

lemma card_less_NBUF: "n < NBUF \<longleftrightarrow> n < 30"
  by (simp add: NBUF_def MAXOPBLOCKS_def)

lemma demo_read:
  "wp (kbind binit (\<lambda>_. bread 1 3)) (\<lambda>b t. bcache_inv t \<and> hold t b 3 \<and> bview t = (!) demo_disk \<and>
     bbusy t = {3} \<and> bdirty t = {} \<and> disk t = demo_disk) (bio_boot [running 1] demo_disk)"
  unfolding wp_kbind
proof (rule wp_mono [OF demo_boot])
  fix u :: unit and s
  assume s: "bcache_inv s \<and> bview s = (!) demo_disk \<and> bbusy s = {} \<and> bdirty s = {} \<and>
     cur s = Some 0 \<and> ptable s = [running 1] \<and> disk s = demo_disk"
  then have "wp (bread 1 3) (\<lambda>b. bread_post s 3 b) s"
    by (intro bread_ok [of s 0]) (auto simp: card_less_NBUF demo_disk_def)
  then show "wp (bread 1 3) (\<lambda>b t. bcache_inv t \<and> hold t b 3 \<and> bview t = (!) demo_disk \<and>
     bbusy t = {3} \<and> bdirty t = {} \<and> disk t = demo_disk) s"
    by (rule wp_mono) (use s in \<open>auto simp: bread_post_def\<close>)
qed

theorem bwrite_bread_roundtrip_witness:
  "wp (kbind binit (\<lambda>_. kbind (bread 1 3) (\<lambda>b.
         kbind (kmod (upd_buf b (\<lambda>x. x\<lparr>b_data := replicate BSIZE 9\<rparr>))) (\<lambda>_.
         kbind (bwrite b) (\<lambda>_. kbind (brelse b) (\<lambda>_. bread 1 3))))))
     (\<lambda>c t. b_data (bufs t ! c) = replicate BSIZE 9 \<and> disk t = demo_disk[3 := replicate BSIZE 9])
     (bio_boot [running 1] demo_disk)"
proof -
  let ?rest = "\<lambda>b. kbind (kmod (upd_buf b (\<lambda>x. x\<lparr>b_data := replicate BSIZE 9\<rparr>))) (\<lambda>_.
         kbind (bwrite b) (\<lambda>_. kbind (brelse b) (\<lambda>_. bread 1 3)))"
  have "wp (kbind binit (\<lambda>_. bread 1 3)) (\<lambda>b. wp (?rest b)
     (\<lambda>c t. b_data (bufs t ! c) = replicate BSIZE 9 \<and> disk t = demo_disk[3 := replicate BSIZE 9]))
     (bio_boot [running 1] demo_disk)"
  proof (rule wp_mono [OF demo_read])
    fix b t
    assume t: "bcache_inv t \<and> hold t b 3 \<and> bview t = (!) demo_disk \<and> bbusy t = {3} \<and> bdirty t = {} \<and> disk t = demo_disk"
    have "wp (?rest b) (\<lambda>c u. bcache_inv u \<and> hold u c 3 \<and>
        b_data (bufs u ! c) = (if 3 = (3 :: nat) then replicate BSIZE 9 else bview t 3) \<and>
       disk u = (disk t)[3 := replicate BSIZE 9] \<and> dtrace u = dtrace t @ [(3, replicate BSIZE 9)]) t"
      using t by (intro bwrite_bread_roundtrip [where m = 3]) (auto simp: card_less_NBUF demo_disk_def)
    then show "wp (?rest b) (\<lambda>c u. b_data (bufs u ! c) = replicate BSIZE 9 \<and>
        disk u = demo_disk[3 := replicate BSIZE 9]) t"
      by (rule wp_mono) (use t in simp)
  qed
  then show ?thesis
    by (simp only: wp_kbind_fun)
qed



end
