(* ===== verification/Fs_Layout.thy ===== *)
theory Fs_Layout
  imports Bio Strings
begin

text \<open>
  The on-disk format of \<^verbatim>\<open>fs.h\<close>: the super block, inodes and directory entries as runs of bytes
  of a block, in the layout the compiler gives the structures (little-endian, no padding: a
  \<^verbatim>\<open>struct dinode\<close> has 64 bytes, a \<^verbatim>\<open>struct dirent\<close> 16), and \<^verbatim>\<open>readsb\<close> of \<^verbatim>\<open>fs.c\<close>.
\<close>

section \<open>Constants and records\<close>

definition ROOTINO :: nat where "ROOTINO = 1"
definition NDIRECT :: nat where "NDIRECT = 12"
definition NINDIRECT :: nat where "NINDIRECT = BSIZE div 4"
definition MAXFILE :: nat where "MAXFILE = NDIRECT + NINDIRECT"
definition IPB :: nat where "IPB = BSIZE div 64"
definition BPB :: nat where "BPB = BSIZE * 8"
definition DIRSIZ :: nat where "DIRSIZ = 14"
definition T_DIR :: int where "T_DIR = 1"
definition T_FILE :: int where "T_FILE = 2"
definition T_DEV :: int where "T_DEV = 3"

record superblock =
  sb_size :: nat
  sb_nblocks :: nat
  sb_ninodes :: nat
  sb_nlog :: nat
  sb_logstart :: nat
  sb_inodestart :: nat
  sb_bmapstart :: nat

record dinode =
  di_type :: int
  di_major :: int
  di_minor :: int
  di_nlink :: int
  di_size :: nat
  di_addrs :: "nat list"

record dirent =
  de_inum :: nat
  de_name :: bytes

definition IBLOCK :: "nat \<Rightarrow> superblock \<Rightarrow> nat" where
  "IBLOCK i sb = w32 (i div IPB + sb_inodestart sb)"

definition BBLOCK :: "nat \<Rightarrow> superblock \<Rightarrow> nat" where
  "BBLOCK b sb = w32 (b div BPB + sb_bmapstart sb)"

section \<open>Bytes of the structures\<close>

definition get_s16 :: "bytes \<Rightarrow> nat \<Rightarrow> int" where
  "get_s16 bs off = s16 (int (get16 bs off))"

definition put_s16 :: "bytes \<Rightarrow> nat \<Rightarrow> int \<Rightarrow> bytes" where
  "put_s16 bs off v = put16 bs off (nat (v mod 65536))"

definition sb_of :: "bytes \<Rightarrow> superblock" where
  "sb_of d = \<lparr>sb_size = get32 d 0, sb_nblocks = get32 d 4, sb_ninodes = get32 d 8, sb_nlog = get32 d 12,
     sb_logstart = get32 d 16, sb_inodestart = get32 d 20, sb_bmapstart = get32 d 24\<rparr>"

text \<open>\<^verbatim>\<open>(struct dinode*)bp->data + k\<close>, read and written field by field.\<close>

definition dip_type :: "bytes \<Rightarrow> nat \<Rightarrow> int" where
  "dip_type d k = get_s16 d (64 * k)"

definition get_dinode :: "bytes \<Rightarrow> nat \<Rightarrow> dinode" where
  "get_dinode d k = \<lparr>di_type = get_s16 d (64 * k), di_major = get_s16 d (64 * k + 2),
     di_minor = get_s16 d (64 * k + 4), di_nlink = get_s16 d (64 * k + 6), di_size = get32 d (64 * k + 8),
     di_addrs = map (\<lambda>j. get32 d (64 * k + 12 + 4 * j)) [0..<NDIRECT + 1]\<rparr>"

primrec put_addrs :: "bytes \<Rightarrow> nat \<Rightarrow> nat list \<Rightarrow> bytes" where
  "put_addrs d off [] = d"
| "put_addrs d off (a # as) = put_addrs (put32 d off a) (off + 4) as"

definition put_dinode :: "bytes \<Rightarrow> nat \<Rightarrow> dinode \<Rightarrow> bytes" where
  "put_dinode d k di =
     (let d1 = put_s16 d (64 * k) (di_type di);
          d2 = put_s16 d1 (64 * k + 2) (di_major di);
          d3 = put_s16 d2 (64 * k + 4) (di_minor di);
          d4 = put_s16 d3 (64 * k + 6) (di_nlink di);
          d5 = put32 d4 (64 * k + 8) (di_size di)
      in put_addrs d5 (64 * k + 12) (di_addrs di))"

definition zero_dinode :: dinode where
  "zero_dinode = \<lparr>di_type = 0, di_major = 0, di_minor = 0, di_nlink = 0, di_size = 0,
     di_addrs = replicate (NDIRECT + 1) 0\<rparr>"

definition dirent_of :: "bytes \<Rightarrow> dirent" where
  "dirent_of bs = \<lparr>de_inum = get16 bs 0, de_name = peek bs 2 DIRSIZ\<rparr>"

definition dirent_bytes :: "dirent \<Rightarrow> bytes" where
  "dirent_bytes de = le_bytes 2 (de_inum de) @ de_name de"

definition readsb :: "nat \<Rightarrow> ('a bio_st_scheme, superblock) kop" where
  "readsb dev =
     kbind (bread dev 1) (\<lambda>b.
     kbind (kget (\<lambda>s. sb_of (b_data (bufs s ! b)))) (\<lambda>sb.
     kbind (brelse b) (\<lambda>_. kret sb)))"

section \<open>Reading back what was written\<close>

lemma s16_mod [simp]: "s16 (v mod 65536) = s16 v"
  by (simp add: s16_def mod_add_left_eq)

lemma length_put_s16 [simp]: "off + 2 \<le> length bs \<Longrightarrow> length (put_s16 bs off v) = length bs"
  by (simp add: put_s16_def)

lemma get_s16_put_s16 [simp]: "off + 2 \<le> length bs \<Longrightarrow> get_s16 (put_s16 bs off v) off = s16 v"
  by (simp add: get_s16_def put_s16_def)

text \<open>An update of bytes \<open>[a, b)\<close> leaves every field outside them alone.\<close>

definition only_in :: "nat \<Rightarrow> nat \<Rightarrow> bytes \<Rightarrow> bytes \<Rightarrow> bool" where
  "only_in a b d e \<longleftrightarrow> length e = length d \<and> (\<forall>i < length d. i < a \<or> b \<le> i \<longrightarrow> e ! i = d ! i)"

lemma only_in_refl [simp]: "only_in a b d d"
  by (simp add: only_in_def)

lemma only_in_trans: "only_in a b d e \<Longrightarrow> only_in a b e f \<Longrightarrow> only_in a b d f"
  by (simp add: only_in_def)

lemma only_in_widen: "only_in a b d e \<Longrightarrow> a' \<le> a \<Longrightarrow> b \<le> b' \<Longrightarrow> only_in a' b' d e"
  by (simp add: only_in_def)

lemma only_in_poke: "off + length xs \<le> length d \<Longrightarrow> only_in off (off + length xs) d (poke d off xs)"
  by (auto simp: only_in_def nth_poke)

lemma only_in_put32: "off + 4 \<le> length d \<Longrightarrow> only_in off (off + 4) d (put32 d off v)"
  using only_in_poke [of off "le_bytes 4 v" d] by (simp add: put32_def)

lemma only_in_put_s16: "off + 2 \<le> length d \<Longrightarrow> only_in off (off + 2) d (put_s16 d off v)"
  using only_in_poke [of off "le_bytes 2 (nat (v mod 65536))" d] by (simp add: put_s16_def put16_def)

lemma only_in_put32': "off + 4 \<le> length d \<Longrightarrow> e = off + 4 \<Longrightarrow> only_in off e d (put32 d off v)"
  by (simp add: only_in_put32)

lemma only_in_put_s16': "off + 2 \<le> length d \<Longrightarrow> e = off + 2 \<Longrightarrow> only_in off e d (put_s16 d off v)"
  using only_in_put_s16 by simp

lemma peek_only_in:
  assumes "only_in a b d e" "off + n \<le> length d" "off + n \<le> a \<or> b \<le> off"
  shows "peek e off n = peek d off n"
proof (rule nth_equalityI)
  fix i assume "i < length (peek e off n)"
  then show "peek e off n ! i = peek d off n ! i"
    using assms by (auto simp: only_in_def nth_peek)
qed (use assms in \<open>simp add: only_in_def\<close>)

lemma get32_only_in: "only_in a b d e \<Longrightarrow> off + 4 \<le> length d \<Longrightarrow> off + 4 \<le> a \<or> b \<le> off \<Longrightarrow> get32 e off = get32 d off"
  by (simp add: get32_def peek_only_in)

lemma get_s16_only_in: "only_in a b d e \<Longrightarrow> off + 2 \<le> length d \<Longrightarrow> off + 2 \<le> a \<or> b \<le> off \<Longrightarrow> get_s16 e off = get_s16 d off"
  by (simp add: get_s16_def get16_def peek_only_in)

lemma only_in_length: "only_in a b d e \<Longrightarrow> length e = length d"
  by (simp add: only_in_def)

lemma put_addrs_only_in:
  "off + 4 * length as \<le> length d \<Longrightarrow> only_in off (off + 4 * length as) d (put_addrs d off as)"
proof (induction as arbitrary: d off)
  case Nil
  then show ?case by simp
next
  case (Cons a as)
  have "only_in off (off + 4) d (put32 d off a)"
    using Cons.prems by (intro only_in_put32) simp
  moreover have "only_in (off + 4) (off + 4 + 4 * length as) (put32 d off a) (put_addrs (put32 d off a) (off + 4) as)"
    using Cons.prems by (intro Cons.IH) simp
  ultimately have "only_in off (off + 4 * length (a # as)) d (put32 d off a)"
    "only_in off (off + 4 * length (a # as)) (put32 d off a) (put_addrs (put32 d off a) (off + 4) as)"
    by (auto elim!: only_in_widen)
  then show ?case
    by (simp add: only_in_trans)
qed

lemma get_put_addrs:
  assumes "off + 4 * length as \<le> length d" "j < length as"
  shows "get32 (put_addrs d off as) (off + 4 * j) = w32 (as ! j)"
  using assms
proof (induction as arbitrary: d off j)
  case Nil
  then show ?case by simp
next
  case (Cons a as)
  show ?case
  proof (cases j)
    case 0
    have "only_in (off + 4) (off + 4 + 4 * length as) (put32 d off a) (put_addrs (put32 d off a) (off + 4) as)"
      using Cons.prems by (intro put_addrs_only_in) simp
    then have "get32 (put_addrs (put32 d off a) (off + 4) as) off = get32 (put32 d off a) off"
      using Cons.prems by (intro get32_only_in) auto
    then show ?thesis
      using 0 Cons.prems by simp
  next
    case (Suc k)
    then show ?thesis
      using Cons.IH [of "off + 4" "put32 d off a" k] Cons.prems by (simp add: algebra_simps)
  qed
qed

definition dinode_ok :: "dinode \<Rightarrow> bool" where
  "dinode_ok di \<longleftrightarrow> s16 (di_type di) = di_type di \<and> s16 (di_major di) = di_major di \<and>
     s16 (di_minor di) = di_minor di \<and> s16 (di_nlink di) = di_nlink di \<and> di_size di < 2 ^ 32 \<and>
     length (di_addrs di) = NDIRECT + 1 \<and> (\<forall>a \<in> set (di_addrs di). a < 2 ^ 32)"

lemma put_dinode_stages:
  assumes "length d = BSIZE" "k < IPB" "length (di_addrs di) = NDIRECT + 1"
  obtains d1 d2 d3 d4 d5 where
    "d1 = put_s16 d (64 * k) (di_type di)" "d2 = put_s16 d1 (64 * k + 2) (di_major di)"
    "d3 = put_s16 d2 (64 * k + 4) (di_minor di)" "d4 = put_s16 d3 (64 * k + 6) (di_nlink di)"
    "d5 = put32 d4 (64 * k + 8) (di_size di)" "put_dinode d k di = put_addrs d5 (64 * k + 12) (di_addrs di)"
    "length d1 = BSIZE" "length d2 = BSIZE" "length d3 = BSIZE" "length d4 = BSIZE" "length d5 = BSIZE"
    "only_in (64 * k) (64 * k + 2) d d1" "only_in (64 * k + 2) (64 * k + 4) d1 d2"
    "only_in (64 * k + 4) (64 * k + 6) d2 d3" "only_in (64 * k + 6) (64 * k + 8) d3 d4"
    "only_in (64 * k + 8) (64 * k + 12) d4 d5"
    "only_in (64 * k + 12) (64 * k + 64) d5 (put_dinode d k di)" "64 * k + 64 \<le> BSIZE"
proof -
  define d1 where "d1 = put_s16 d (64 * k) (di_type di)"
  define d2 where "d2 = put_s16 d1 (64 * k + 2) (di_major di)"
  define d3 where "d3 = put_s16 d2 (64 * k + 4) (di_minor di)"
  define d4 where "d4 = put_s16 d3 (64 * k + 6) (di_nlink di)"
  define d5 where "d5 = put32 d4 (64 * k + 8) (di_size di)"
  have k: "64 * k + 64 \<le> BSIZE"
    using assms(2) by (simp add: IPB_def BSIZE_def)
  then have l: "length d1 = BSIZE" "length d2 = BSIZE" "length d3 = BSIZE" "length d4 = BSIZE" "length d5 = BSIZE"
    using assms(1) by (simp_all add: d1_def d2_def d3_def d4_def d5_def)
  have p: "put_dinode d k di = put_addrs d5 (64 * k + 12) (di_addrs di)"
    by (simp add: put_dinode_def Let_def d1_def d2_def d3_def d4_def d5_def)
  have o: "only_in (64 * k) (64 * k + 2) d d1" "only_in (64 * k + 2) (64 * k + 4) d1 d2"
    "only_in (64 * k + 4) (64 * k + 6) d2 d3" "only_in (64 * k + 6) (64 * k + 8) d3 d4"
    "only_in (64 * k + 8) (64 * k + 12) d4 d5"
    subgoal unfolding d1_def using k assms(1) by (intro only_in_put_s16') simp_all
    subgoal unfolding d2_def using k l by (intro only_in_put_s16') simp_all
    subgoal unfolding d3_def using k l by (intro only_in_put_s16') simp_all
    subgoal unfolding d4_def using k l by (intro only_in_put_s16') simp_all
    subgoal unfolding d5_def using k l by (intro only_in_put32') simp_all
    done
  have "only_in (64 * k + 12) (64 * k + 12 + 4 * length (di_addrs di)) d5 (put_dinode d k di)"
    unfolding p using k l assms(3) by (intro put_addrs_only_in) (simp add: NDIRECT_def)
  then have "only_in (64 * k + 12) (64 * k + 64) d5 (put_dinode d k di)"
    using assms(3) by (simp add: NDIRECT_def add.commute)
  from that [OF d1_def d2_def d3_def d4_def d5_def p l o this k] show thesis .
qed

lemma put_dinode_only_in:
  assumes "length d = BSIZE" "k < IPB" "length (di_addrs di) = NDIRECT + 1"
  shows "only_in (64 * k) (64 * k + 64) d (put_dinode d k di)"
proof -
  obtain d1 d2 d3 d4 d5 where "only_in (64 * k) (64 * k + 2) d d1" "only_in (64 * k + 2) (64 * k + 4) d1 d2"
    "only_in (64 * k + 4) (64 * k + 6) d2 d3" "only_in (64 * k + 6) (64 * k + 8) d3 d4"
    "only_in (64 * k + 8) (64 * k + 12) d4 d5" "only_in (64 * k + 12) (64 * k + 64) d5 (put_dinode d k di)"
    using put_dinode_stages [OF assms] by metis
  note * = this [THEN only_in_widen, of "64 * k" "64 * k + 64", simplified]
  show ?thesis
    using only_in_trans [OF only_in_trans [OF only_in_trans [OF only_in_trans [OF only_in_trans
      [OF *(1) *(2)] *(3)] *(4)] *(5)] *(6)] .
qed

lemma get_dinode_only_in:
  assumes "only_in a b d e" "length d = BSIZE" "j < IPB" "64 * j + 64 \<le> a \<or> b \<le> 64 * j"
  shows "get_dinode e j = get_dinode d j"
proof -
  have j: "64 * j + 64 \<le> BSIZE"
    using assms(3) by (simp add: IPB_def BSIZE_def)
  have "get32 e (64 * j + 12 + 4 * i) = get32 d (64 * j + 12 + 4 * i)" if "i < NDIRECT + 1" for i
    using assms j that by (intro get32_only_in [OF assms(1)]) (auto simp: NDIRECT_def)
  then have "map (\<lambda>i. get32 e (64 * j + 12 + 4 * i)) [0..<NDIRECT + 1] = map (\<lambda>i. get32 d (64 * j + 12 + 4 * i)) [0..<NDIRECT + 1]"
    by simp
  moreover have "get_s16 e (64 * j + i) = get_s16 d (64 * j + i)" if "i \<le> 62" for i
    using assms j that by (intro get_s16_only_in [OF assms(1)]) auto
  from this [of 0] this [of 2] this [of 4] this [of 6] 
  have "get_s16 e (64 * j) = get_s16 d (64 * j)" "get_s16 e (64 * j + 2) = get_s16 d (64 * j + 2)"
    "get_s16 e (64 * j + 4) = get_s16 d (64 * j + 4)" "get_s16 e (64 * j + 6) = get_s16 d (64 * j + 6)"
    by simp_all
  moreover have "get32 e (64 * j + 8) = get32 d (64 * j + 8)"
    using assms j by (intro get32_only_in [OF assms(1)]) auto
  ultimately show ?thesis
    by (simp only: get_dinode_def)
qed

lemma get_put_dinode:
  assumes "length d = BSIZE" "k < IPB" "dinode_ok di"
  shows "get_dinode (put_dinode d k di) k = di"
proof -
  have al: "length (di_addrs di) = NDIRECT + 1"
    using assms(3) by (simp add: dinode_ok_def)
  obtain d1 d2 d3 d4 d5 where
    e: "d1 = put_s16 d (64 * k) (di_type di)" "d2 = put_s16 d1 (64 * k + 2) (di_major di)"
    "d3 = put_s16 d2 (64 * k + 4) (di_minor di)" "d4 = put_s16 d3 (64 * k + 6) (di_nlink di)"
    "d5 = put32 d4 (64 * k + 8) (di_size di)" and p: "put_dinode d k di = put_addrs d5 (64 * k + 12) (di_addrs di)"
    and l: "length d1 = BSIZE" "length d2 = BSIZE" "length d3 = BSIZE" "length d4 = BSIZE" "length d5 = BSIZE"
    and o: "only_in (64 * k) (64 * k + 2) d d1" "only_in (64 * k + 2) (64 * k + 4) d1 d2"
    "only_in (64 * k + 4) (64 * k + 6) d2 d3" "only_in (64 * k + 6) (64 * k + 8) d3 d4"
    "only_in (64 * k + 8) (64 * k + 12) d4 d5" "only_in (64 * k + 12) (64 * k + 64) d5 (put_dinode d k di)"
    and k: "64 * k + 64 \<le> BSIZE"
    using put_dinode_stages [OF assms(1,2) al] by metis
  let ?e = "put_dinode d k di"
  note h = get_s16_only_in [OF o(2)] get_s16_only_in [OF o(3)] get_s16_only_in [OF o(4)]
    get_s16_only_in [OF o(5)] get_s16_only_in [OF o(6)]
  have "get_s16 d1 (64 * k) = di_type di" "get_s16 d2 (64 * k + 2) = di_major di"
    "get_s16 d3 (64 * k + 4) = di_minor di" "get_s16 d4 (64 * k + 6) = di_nlink di"
    "get32 d5 (64 * k + 8) = di_size di"
    using assms(1,3) l k by (simp_all add: e dinode_ok_def)
  then have "get_s16 ?e (64 * k) = di_type di" "get_s16 ?e (64 * k + 2) = di_major di"
    "get_s16 ?e (64 * k + 4) = di_minor di" "get_s16 ?e (64 * k + 6) = di_nlink di"
    "get32 ?e (64 * k + 8) = di_size di"
    using l k by (simp_all add: h get32_only_in [OF o(6)])
  moreover have "map (\<lambda>i. get32 ?e (64 * k + 12 + 4 * i)) [0..<NDIRECT + 1] = di_addrs di"
  proof (rule nth_equalityI)
    fix i assume "i < length (map (\<lambda>i. get32 ?e (64 * k + 12 + 4 * i)) [0..<NDIRECT + 1])"
    then have i: "i < NDIRECT + 1" by simp
    then have "get32 ?e (64 * k + 12 + 4 * i) = w32 (di_addrs di ! i)"
      unfolding p using l k al by (intro get_put_addrs) (simp_all add: NDIRECT_def)
    also have "\<dots> = di_addrs di ! i"
      using i al assms(3) by (simp add: dinode_ok_def)
    finally show "map (\<lambda>i. get32 ?e (64 * k + 12 + 4 * i)) [0..<NDIRECT + 1] ! i = di_addrs di ! i"
      using i by (simp del: upt_Suc)
  qed (use al in simp)
  ultimately show ?thesis
    unfolding get_dinode_def by (intro dinode.equality) simp_all
qed

text \<open>
  C17: An inode written into its slot of an inode block, as \<^verbatim>\<open>iupdate\<close> does field by field, is read
  back by \<^verbatim>\<open>ilock\<close> exactly (all shorts, the size and the thirteen addresses), the block keeps its
  size, and the seven other inodes of the block are untouched.
\<close>

theorem dinode_roundtrip:
  assumes "length d = BSIZE" "k < IPB" "dinode_ok di"
  shows "get_dinode (put_dinode d k di) k = di \<and> length (put_dinode d k di) = BSIZE \<and>
    (\<forall>j < IPB. j \<noteq> k \<longrightarrow> get_dinode (put_dinode d k di) j = get_dinode d j)"
proof -
  have o: "only_in (64 * k) (64 * k + 64) d (put_dinode d k di)"
    using assms by (intro put_dinode_only_in) (simp_all add: dinode_ok_def)
  have "get_dinode (put_dinode d k di) j = get_dinode d j" if "j < IPB" "j \<noteq> k" for j
    using that assms by (intro get_dinode_only_in [OF o]) auto
  then show ?thesis
    using get_put_dinode [OF assms] only_in_length [OF o] assms(1) by simp
qed

theorem dinode_roundtrip_witness:
  "get_dinode (put_dinode (replicate BSIZE 0) 3
     \<lparr>di_type = 2, di_major = -1, di_minor = 0, di_nlink = 1, di_size = 700, di_addrs = [500, 501, 0, 0, 0, 0, 0, 0, 0, 0, 0, 0, 4294967295]\<rparr>) 3
   = \<lparr>di_type = 2, di_major = -1, di_minor = 0, di_nlink = 1, di_size = 700, di_addrs = [500, 501, 0, 0, 0, 0, 0, 0, 0, 0, 0, 0, 4294967295]\<rparr>"
  using dinode_roundtrip [of "replicate BSIZE 0" 3
      "\<lparr>di_type = 2, di_major = -1, di_minor = 0, di_nlink = 1, di_size = 700, di_addrs = [500, 501, 0, 0, 0, 0, 0, 0, 0, 0, 0, 0, 4294967295]\<rparr>"]
  by (simp add: dinode_ok_def s16_def NDIRECT_def IPB_def BSIZE_def)

end
