(* ===== verification/Log.thy ===== *)
theory Log
  imports Fs_Layout
begin

text \<open>
  The write-ahead log of \<^verbatim>\<open>log.c\<close>.  The in-memory log is the group of \<open>lg_\<close> and \<open>lh_\<close> fields;
  \<open>lh_block\<close> is the array \<^verbatim>\<open>log.lh.block\<close> of \<open>LOGSIZE\<close> block numbers.  Every disk write a
  commit makes goes through \<^verbatim>\<open>bwrite\<close> and so is in the ghost trace of theory \<open>Bio\<close>: a crash is a
  disk that has received a prefix of these writes, and the main theorem says that the recovery
  that runs at the next boot brings such a disk to the state before or after the transaction.
\<close>

section \<open>State and operations\<close>

record log_st = bio_st +
  lg_start :: nat
  lg_size :: int
  lg_outstanding :: int
  lg_committing :: bool
  lg_dev :: nat
  lh_n :: int
  lh_block :: "nat list"

text \<open>Read \<^verbatim>\<open>log.lh.block[i]\<close>; an index outside the array is a fault.\<close>

definition lh_at :: "nat \<Rightarrow> ('a log_st_scheme, nat) kop" where
  "lh_at i = kbind (kassert (\<lambda>s. i < length (lh_block s))) (\<lambda>_. kget (\<lambda>s. lh_block s ! i))"

definition lh_set :: "nat \<Rightarrow> nat \<Rightarrow> ('a log_st_scheme, unit) kop" where
  "lh_set i v = kbind (kassert (\<lambda>s. i < length (lh_block s))) (\<lambda>_.
     kmod (\<lambda>s. s\<lparr>lh_block := (lh_block s)[i := v]\<rparr>))"

definition set_buf_data :: "nat \<Rightarrow> (bytes \<Rightarrow> bytes) \<Rightarrow> ('a bio_st_scheme, unit) kop" where
  "set_buf_data b f = kmod (upd_buf b (\<lambda>x. x\<lparr>b_data := f (b_data x)\<rparr>))"

text \<open>The bodies of the two copy loops.\<close>

definition install_block :: "nat \<Rightarrow> ('a log_st_scheme, unit) kop" where
  "install_block tail =
     kbind (kget lg_dev) (\<lambda>dev.
     kbind (kget lg_start) (\<lambda>start.
     kbind (bread dev (w32 (start + tail + 1))) (\<lambda>lbuf.
     kbind (lh_at tail) (\<lambda>home.
     kbind (bread dev home) (\<lambda>dbuf.
     kbind (kget (\<lambda>s. b_data (bufs s ! lbuf))) (\<lambda>d.
     kbind (set_buf_data dbuf (\<lambda>_. d)) (\<lambda>_.
     kbind (bwrite dbuf) (\<lambda>_.
     kbind (brelse lbuf) (\<lambda>_.
     brelse dbuf)))))))))"

definition install_trans :: "('a log_st_scheme, unit) kop" where
  "install_trans = kbind (kget lh_n) (\<lambda>n. kfor [0..<nat n] install_block)"

definition read_head :: "('a log_st_scheme, unit) kop" where
  "read_head =
     kbind (kget lg_dev) (\<lambda>dev.
     kbind (kget lg_start) (\<lambda>start.
     kbind (bread dev start) (\<lambda>b.
     kbind (kget (\<lambda>s. b_data (bufs s ! b))) (\<lambda>d.
     kbind (kmod (\<lambda>s. s\<lparr>lh_n := s32 (int (get32 d 0))\<rparr>)) (\<lambda>_.
     kbind (kget lh_n) (\<lambda>n.
     kbind (kfor [0..<nat n] (\<lambda>i. lh_set i (get32 d (4 + 4 * i)))) (\<lambda>_.
     brelse b)))))))"

definition write_head :: "('a log_st_scheme, unit) kop" where
  "write_head =
     kbind (kget lg_dev) (\<lambda>dev.
     kbind (kget lg_start) (\<lambda>start.
     kbind (bread dev start) (\<lambda>b.
     kbind (kget lh_n) (\<lambda>n.
     kbind (set_buf_data b (\<lambda>d. put32 d 0 (nat (n mod 2 ^ 32)))) (\<lambda>_.
     kbind (kfor [0..<nat n] (\<lambda>i.
       kbind (lh_at i) (\<lambda>v. set_buf_data b (\<lambda>d. put32 d (4 + 4 * i) v)))) (\<lambda>_.
     kbind (bwrite b) (\<lambda>_.
     brelse b)))))))"

definition recover_from_log :: "('a log_st_scheme, unit) kop" where
  "recover_from_log =
     kbind read_head (\<lambda>_.
     kbind install_trans (\<lambda>_.
     kbind (kmod (\<lambda>s. s\<lparr>lh_n := 0\<rparr>)) (\<lambda>_.
     write_head)))"

text \<open>\<^verbatim>\<open>sizeof(struct logheader)\<close> is \<open>4 + 4 * LOGSIZE\<close>.\<close>

definition initlog :: "nat \<Rightarrow> ('a log_st_scheme, unit) kop" where
  "initlog dev =
     (if BSIZE \<le> 4 + 4 * LOGSIZE then kpanic ''initlog: too big logheader''
      else
        kbind (readsb dev) (\<lambda>sb.
        kbind (kmod (\<lambda>s. s\<lparr>lg_start := sb_logstart sb, lg_size := s32 (int (sb_nlog sb)), lg_dev := dev\<rparr>)) (\<lambda>_.
        recover_from_log)))"

text \<open>The waiting loop of \<^verbatim>\<open>begin_op\<close>: a process that has to wait sleeps and later starts the test again.\<close>

definition begin_op :: "('a log_st_scheme, unit) kop" where
  "begin_op =
     kbind (kget (\<lambda>s. s)) (\<lambda>s.
     if lg_committing s then sleep ChLog (Some L_log)
     else if lh_n s + (lg_outstanding s + 1) * int MAXOPBLOCKS > int LOGSIZE then sleep ChLog (Some L_log)
     else kmod (\<lambda>s. s\<lparr>lg_outstanding := lg_outstanding s + 1\<rparr>))"

definition write_block :: "nat \<Rightarrow> ('a log_st_scheme, unit) kop" where
  "write_block tail =
     kbind (kget lg_dev) (\<lambda>dev.
     kbind (kget lg_start) (\<lambda>start.
     kbind (bread dev (w32 (start + tail + 1))) (\<lambda>to.
     kbind (lh_at tail) (\<lambda>home.
     kbind (bread dev home) (\<lambda>from.
     kbind (kget (\<lambda>s. b_data (bufs s ! from))) (\<lambda>d.
     kbind (set_buf_data to (\<lambda>_. d)) (\<lambda>_.
     kbind (bwrite to) (\<lambda>_.
     kbind (brelse from) (\<lambda>_.
     brelse to)))))))))"

definition write_log :: "('a log_st_scheme, unit) kop" where
  "write_log = kbind (kget lh_n) (\<lambda>n. kfor [0..<nat n] write_block)"

definition commit :: "('a log_st_scheme, unit) kop" where
  "commit =
     kbind (kget lh_n) (\<lambda>n.
     kwhen (n > 0)
       (kbind write_log (\<lambda>_.
        kbind write_head (\<lambda>_.
        kbind install_trans (\<lambda>_.
        kbind (kmod (\<lambda>s. s\<lparr>lh_n := 0\<rparr>)) (\<lambda>_.
        write_head))))))"

definition end_op :: "('a log_st_scheme, unit) kop" where
  "end_op =
     kbind (kmod (\<lambda>s. s\<lparr>lg_outstanding := lg_outstanding s - 1\<rparr>)) (\<lambda>_.
     kbind (kget (\<lambda>s. s)) (\<lambda>s.
     if lg_committing s then kpanic ''log.committing''
     else if lg_outstanding s = 0 then
       kbind (kmod (\<lambda>s. s\<lparr>lg_committing := True\<rparr>)) (\<lambda>_.
       kbind commit (\<lambda>_.
       kbind (kmod (\<lambda>s. s\<lparr>lg_committing := False\<rparr>)) (\<lambda>_.
       wakeup ChLog)))
     else wakeup ChLog))"

text \<open>The scan of \<^verbatim>\<open>log_write\<close> for the block: the index where its loop stops.\<close>

definition absorb_index :: "'a log_st_scheme \<Rightarrow> nat \<Rightarrow> nat" where
  "absorb_index s bno = (case find_index (\<lambda>x. x = bno) (take (nat (lh_n s)) (lh_block s)) of
     Some i \<Rightarrow> i | None \<Rightarrow> nat (lh_n s))"

definition log_write :: "nat \<Rightarrow> ('a log_st_scheme, unit) kop" where
  "log_write b =
     kbind (kget (\<lambda>s. s)) (\<lambda>s.
     if lh_n s \<ge> int LOGSIZE \<or> lh_n s \<ge> lg_size s - 1 then kpanic ''too big a transaction''
     else if lg_outstanding s < 1 then kpanic ''log_write outside of trans''
     else
       kbind (kget (\<lambda>s. b_blockno (bufs s ! b))) (\<lambda>bno.
       kbind (kget (\<lambda>s. absorb_index s bno)) (\<lambda>i.
       kbind (lh_set i bno) (\<lambda>_.
       kbind (kmod (\<lambda>s. if int i = lh_n s then s\<lparr>lh_n := lh_n s + 1\<rparr> else s)) (\<lambda>_.
       kmod (upd_buf b (\<lambda>x. x\<lparr>b_dirty := True\<rparr>)))))))"

section \<open>Copying a block through the cache\<close>

lemma bio_frame_log:
  assumes "bio_frame s t"
  shows "lg_start t = lg_start s" "lg_size t = lg_size s" "lg_dev t = lg_dev s" "lh_n t = lh_n s"
    "lh_block t = lh_block s" "lg_outstanding t = lg_outstanding s" "lg_committing t = lg_committing s"
  using assms by (auto elim!: bio_frameE)

text \<open>A buffer's data assigned as a whole, as a contract.\<close>

definition set_post :: "'a bio_st_scheme \<Rightarrow> nat \<Rightarrow> nat \<Rightarrow> bytes \<Rightarrow> 'a bio_st_scheme \<Rightarrow> bool" where
  "set_post s b n d t \<longleftrightarrow> upd_post s b n t \<and> bview t = (bview s)(n := d) \<and> bdirty t = bdirty s \<and>
     disk t = disk s \<and> dtrace t = dtrace s \<and> ptable t = ptable s"

lemma wp_set_buf_data:
  assumes "bcache_inv s" "hold s b n" "length (f (bview s n)) = BSIZE"
  shows "wp (set_buf_data b f) (\<lambda>_. set_post s b n (f (bview s n))) s"
proof -
  have "upd_buf b (\<lambda>x. x\<lparr>b_data := f (b_data x)\<rparr>) s = upd_buf b (\<lambda>x. x\<lparr>b_data := f (bview s n)\<rparr>) s"
    using hold_data [OF assms(1,2)] by (intro upd_buf_cong) simp
  then show ?thesis
    using set_data [OF assms] by (simp add: set_buf_data_def set_post_def)
qed

definition copied :: "'a bio_st_scheme \<Rightarrow> nat \<Rightarrow> nat \<Rightarrow> 'a bio_st_scheme \<Rightarrow> bool" where
  "copied s src dst t \<longleftrightarrow> bcache_inv t \<and> bbusy t = {} \<and> bview t = (bview s)(dst := bview s src) \<and>
     bdirty t = bdirty s - {dst} \<and> disk t = (disk s)[dst := bview s src] \<and>
     dtrace t = dtrace s @ [(dst, bview s src)] \<and> bio_frame s t"

lemma copy_tail:
  assumes inv: "bcache_inv u" and l: "hold u l src" and d: "hold u d dst" and ne: "src \<noteq> dst" "l \<noteq> d"
    and busy: "bbusy u = {src, dst}" and clean: "src \<in> bdirty u \<or> bview u src = disk u ! src"
  shows "wp (kbind (kget (\<lambda>s. b_data (bufs s ! l))) (\<lambda>x.
             kbind (set_buf_data d (\<lambda>_. x)) (\<lambda>_.
             kbind (bwrite d) (\<lambda>_.
             kbind (brelse l) (\<lambda>_.
             brelse d)))))
    (\<lambda>_ t. copied u src dst t) u"
proof -
  have len: "length (bview u src) = BSIZE"
    using bview_length [OF inv hold_range [OF inv l]] .
  have "wp (kbind (set_buf_data d (\<lambda>_. bview u src)) (\<lambda>_.
             kbind (bwrite d) (\<lambda>_. kbind (brelse l) (\<lambda>_. brelse d)))) (\<lambda>_ t. copied u src dst t) u"
  proof (rule wp_step [OF wp_set_buf_data [OF inv d]], rule len, rule wp_step [OF bwrite_ok])
    fix u1 assume u1: "set_post u d dst (bview u src) u1"
    show "bcache_inv u1" "hold u1 d dst"
      using u1 by (auto simp: set_post_def upd_post_def)
    fix u2 assume u2: "bwrite_post u1 dst d u2"
    have fr: "bio_frame u u2"
      using u1 u2 by (auto simp: set_post_def bwrite_post_def upd_post_def intro: bio_frame_trans)
    have o2: "bcache_inv u2" "hold u2 l src" "hold u2 d dst" "bview u2 = (bview u)(dst := bview u src)"
      "bbusy u2 = {src, dst}" "bdirty u2 = bdirty u - {dst}" "disk u2 = (disk u)[dst := bview u src]"
      "dtrace u2 = dtrace u @ [(dst, bview u src)]"
      using u1 u2 l busy by (auto simp: set_post_def bwrite_post_def upd_post_def)
    have c2: "src \<in> bdirty u2 \<or> bview u2 src = disk u2 ! src"
      using clean ne o2 by (auto simp: nth_list_update_if)
    show "wp (kbind (brelse l) (\<lambda>_. brelse d)) (\<lambda>_ t. copied u src dst t) u2"
    proof (rule wp_step [OF brelse_ok [OF o2(1,2) c2]])
      fix x u3 assume u3: "brelse_post u2 src l u3"
      have o3: "bcache_inv u3" "hold u3 d dst" "dst \<in> bdirty u3 \<or> bview u3 dst = disk u3 ! dst"
        using u3 o2 ne hold_range [OF inv d] by (auto simp: brelse_post_def)
      show "wp (brelse d) (\<lambda>_ t. copied u src dst t) u3"
        by (rule wp_mono [OF brelse_ok [OF o3]])
          (use u3 o2 fr ne in \<open>auto simp: brelse_post_def copied_def intro: bio_frame_trans\<close>)
    qed
  qed
  then show ?thesis
    using hold_data [OF inv l] by simp
qed

lemma copy_src_first:
  assumes inv: "bcache_inv s" and run: "running_ok s" and busy: "bbusy s = {}" and ne: "src \<noteq> dst"
    and rng: "src < length (disk s)" "dst < length (disk s)"
    and room: "src \<in> bdirty s \<or> card (bdirty s) < NBUF" "dst \<in> bdirty s \<or> card (insert src (bdirty s)) < NBUF"
    and same: "\<And>t. bio_frame s t \<Longrightarrow> wp m (\<lambda>x u. x = dst \<and> u = t) t"
  shows "wp (kbind (bread 1 src) (\<lambda>l.
             kbind m (\<lambda>home.
             kbind (bread 1 home) (\<lambda>d.
             kbind (kget (\<lambda>s. b_data (bufs s ! l))) (\<lambda>x.
             kbind (set_buf_data d (\<lambda>_. x)) (\<lambda>_.
             kbind (bwrite d) (\<lambda>_.
             kbind (brelse l) (\<lambda>_.
             brelse d)))))))) (\<lambda>_. copied s src dst) s"
proof (rule wp_step [OF bread_run [OF inv run rng(1)]])
  fix l u assume u: "bread_post s src l u"
  then have o: "bcache_inv u" "hold u l src" "bview u = bview s" "bbusy u = {src}" "bdirty u = bdirty s"
    "disk u = disk s" "dtrace u = dtrace s" "bio_frame s u"
    using busy by (auto simp: bread_post_def)
  show "wp (kbind m (\<lambda>home. kbind (bread 1 home) (\<lambda>d. kbind (kget (\<lambda>s. b_data (bufs s ! l))) (\<lambda>x.
             kbind (set_buf_data d (\<lambda>_. x)) (\<lambda>_. kbind (bwrite d) (\<lambda>_. kbind (brelse l) (\<lambda>_. brelse d)))))))
     (\<lambda>_. copied s src dst) u"
  proof (rule wp_step [OF same [OF o(8)]], elim conjE, hypsubst, rule wp_step [OF bread_run])
    fix d v assume v: "bread_post u dst d v"
    then have ov: "bcache_inv v" "hold v d dst" "hold v l src" "l \<noteq> d" "bbusy v = {src, dst}"
      using o by (auto simp: bread_post_def)
    have cl: "src \<in> bdirty v \<or> bview v src = disk v ! src"
      using bview_clean [OF inv, of src] busy v o by (auto simp: bread_post_def)
    have "wp (kbind (kget (\<lambda>s. b_data (bufs s ! l))) (\<lambda>x. kbind (set_buf_data d (\<lambda>_. x)) (\<lambda>_.
        kbind (bwrite d) (\<lambda>_. kbind (brelse l) (\<lambda>_. brelse d))))) (\<lambda>_ t. copied v src dst t) v"
      by (rule copy_tail [OF ov(1,3,2) ne ov(4,5) cl])
    then show "wp (kbind (kget (\<lambda>s. b_data (bufs s ! l))) (\<lambda>x. kbind (set_buf_data d (\<lambda>_. x)) (\<lambda>_.
        kbind (bwrite d) (\<lambda>_. kbind (brelse l) (\<lambda>_. brelse d))))) (\<lambda>_. copied s src dst) v"
      by (rule wp_mono) (use v o in \<open>auto simp: copied_def bread_post_def intro: bio_frame_trans\<close>)
  qed (use o rng ne room running_frame [OF o(8) run] in auto)
qed (use busy room in auto)

lemma copy_dst_first:
  assumes inv: "bcache_inv s" and run: "running_ok s" and busy: "bbusy s = {}" and ne: "src \<noteq> dst"
    and rng: "src < length (disk s)" "dst < length (disk s)"
    and room: "dst \<in> bdirty s \<or> card (bdirty s) < NBUF" "src \<in> bdirty s \<or> card (insert dst (bdirty s)) < NBUF"
    and same: "\<And>t. bio_frame s t \<Longrightarrow> wp m (\<lambda>x u. x = src \<and> u = t) t"
  shows "wp (kbind (bread 1 dst) (\<lambda>d.
             kbind m (\<lambda>home.
             kbind (bread 1 home) (\<lambda>l.
             kbind (kget (\<lambda>s. b_data (bufs s ! l))) (\<lambda>x.
             kbind (set_buf_data d (\<lambda>_. x)) (\<lambda>_.
             kbind (bwrite d) (\<lambda>_.
             kbind (brelse l) (\<lambda>_.
             brelse d)))))))) (\<lambda>_. copied s src dst) s"
proof (rule wp_step [OF bread_run [OF inv run rng(2)]])
  fix d u assume u: "bread_post s dst d u"
  then have o: "bcache_inv u" "hold u d dst" "bview u = bview s" "bbusy u = {dst}" "bdirty u = bdirty s"
    "disk u = disk s" "dtrace u = dtrace s" "bio_frame s u"
    using busy by (auto simp: bread_post_def)
  show "wp (kbind m (\<lambda>home. kbind (bread 1 home) (\<lambda>l. kbind (kget (\<lambda>s. b_data (bufs s ! l))) (\<lambda>x.
             kbind (set_buf_data d (\<lambda>_. x)) (\<lambda>_. kbind (bwrite d) (\<lambda>_. kbind (brelse l) (\<lambda>_. brelse d)))))))
     (\<lambda>_. copied s src dst) u"
  proof (rule wp_step [OF same [OF o(8)]], elim conjE, hypsubst, rule wp_step [OF bread_run])
    fix l v assume v: "bread_post u src l v"
    then have ov: "bcache_inv v" "hold v l src" "hold v d dst" "l \<noteq> d" "bbusy v = {src, dst}"
      using o by (auto simp: bread_post_def)
    have cl: "src \<in> bdirty v \<or> bview v src = disk v ! src"
      using bview_clean [OF inv, of src] busy v o by (auto simp: bread_post_def)
    have "wp (kbind (kget (\<lambda>s. b_data (bufs s ! l))) (\<lambda>x. kbind (set_buf_data d (\<lambda>_. x)) (\<lambda>_.
        kbind (bwrite d) (\<lambda>_. kbind (brelse l) (\<lambda>_. brelse d))))) (\<lambda>_ t. copied v src dst t) v"
      by (rule copy_tail [OF ov(1,2,3) ne ov(4,5) cl])
    then show "wp (kbind (kget (\<lambda>s. b_data (bufs s ! l))) (\<lambda>x. kbind (set_buf_data d (\<lambda>_. x)) (\<lambda>_.
        kbind (bwrite d) (\<lambda>_. kbind (brelse l) (\<lambda>_. brelse d))))) (\<lambda>_. copied s src dst) v"
      by (rule wp_mono) (use v o in \<open>auto simp: copied_def bread_post_def intro: bio_frame_trans\<close>)
  qed (use o rng ne room running_frame [OF o(8) run] in auto)
qed (use busy room in auto)

section \<open>Sequences of block writes\<close>

definition dput :: "bytes list \<Rightarrow> (nat \<times> bytes) list \<Rightarrow> bytes list" where
  "dput d ws = fold (\<lambda>(n, b) d. d[n := b]) ws d"

definition vput :: "(nat \<Rightarrow> bytes) \<Rightarrow> (nat \<times> bytes) list \<Rightarrow> nat \<Rightarrow> bytes" where
  "vput v ws = fold (\<lambda>(n, b) v. v(n := b)) ws v"

lemma dput_simps [simp]: "dput d [] = d" "dput d ((n, b) # ws) = dput (d[n := b]) ws"
  "dput d (us @ ws) = dput (dput d us) ws" "length (dput d ws) = length d"
proof -
  show "length (dput d ws) = length d"
    by (induction ws arbitrary: d) (auto simp: dput_def)
qed (simp_all add: dput_def)

lemma vput_simps [simp]: "vput v [] = v" "vput v ((n, b) # ws) = vput (v(n := b)) ws"
  "vput v (us @ ws) = vput (vput v us) ws"
  by (simp_all add: vput_def)

lemma dput_other: "n \<notin> fst ` set ws \<Longrightarrow> dput d ws ! n = d ! n"
proof (induction ws rule: rev_induct)
  case (snoc x xs)
  then show ?case by (cases x) auto
qed simp

lemma vput_other: "n \<notin> fst ` set ws \<Longrightarrow> vput v ws n = v n"
proof (induction ws rule: rev_induct)
  case (snoc x xs)
  then show ?case by (cases x) auto
qed simp

lemma dput_hit:
  "distinct (map fst ws) \<Longrightarrow> (n, b) \<in> set ws \<Longrightarrow> n < length d \<Longrightarrow> dput d ws ! n = b"
proof (induction ws rule: rev_induct)
  case (snoc x xs)
  obtain m c where x: "x = (m, c)" by (cases x)
  show ?case
  proof (cases "n = m")
    case True
    then have "(n, b) \<notin> set xs"
      using snoc.prems by (force simp: x)
    then have "b = c"
      using snoc.prems by (auto simp: x)
    then show ?thesis
      using snoc.prems True by (simp add: x)
  next
    case False
    then show ?thesis
      using snoc by (auto simp: x)
  qed
qed simp

lemma vput_hit: "distinct (map fst ws) \<Longrightarrow> (n, b) \<in> set ws \<Longrightarrow> vput v ws n = b"
proof (induction ws rule: rev_induct)
  case (snoc x xs)
  obtain m c where x: "x = (m, c)" by (cases x)
  show ?case
  proof (cases "n = m")
    case True
    then have "(n, b) \<notin> set xs"
      using snoc.prems by (force simp: x)
    then have "b = c"
      using snoc.prems by (auto simp: x)
    then show ?thesis
      using True by (simp add: x)
  next
    case False
    then show ?thesis
      using snoc by (auto simp: x)
  qed
qed simp

text \<open>A state that came from \<open>s\<close> by writing the blocks \<open>ws\<close> through the cache.\<close>

definition wrote :: "'a bio_st_scheme \<Rightarrow> (nat \<times> bytes) list \<Rightarrow> 'a bio_st_scheme \<Rightarrow> bool" where
  "wrote s ws t \<longleftrightarrow> bcache_inv t \<and> bbusy t = {} \<and> bio_frame s t \<and> bview t = vput (bview s) ws \<and>
     disk t = dput (disk s) ws \<and> dtrace t = dtrace s @ ws \<and> bdirty t = bdirty s - fst ` set ws"

lemma wrote_nil: "bcache_inv s \<Longrightarrow> bbusy s = {} \<Longrightarrow> wrote s [] s"
  by (simp add: wrote_def)

lemma wrote_copied:
  assumes "wrote s ws t" "copied t src dst u"
  shows "wrote s (ws @ [(dst, bview t src)]) u"
  using assms by (auto simp: wrote_def copied_def intro: bio_frame_trans)

lemma wrote_trans: "wrote s ws t \<Longrightarrow> wrote t vs u \<Longrightarrow> wrote s (ws @ vs) u"
  by (auto simp: wrote_def vput_def intro: bio_frame_trans)

text \<open>A loop of copies from blocks that the loop does not overwrite.\<close>

lemma copy_loop:
  fixes src dst :: "nat \<Rightarrow> nat"
  assumes s: "bcache_inv s" "bbusy s = {}"
    and ne: "\<And>j k. j < N \<Longrightarrow> k < N \<Longrightarrow> src j \<noteq> dst k"
    and body: "\<And>k u. k < N \<Longrightarrow> wrote s (map (\<lambda>j. (dst j, bview s (src j))) [0..<k]) u \<Longrightarrow>
      wp (f k) (\<lambda>_. copied u (src k) (dst k)) u"
  shows "wp (kfor [0..<N] f) (\<lambda>_. wrote s (map (\<lambda>j. (dst j, bview s (src j))) [0..<N])) s"
proof (rule wp_kfor [where I = "\<lambda>k. wrote s (map (\<lambda>j. (dst j, bview s (src j))) [0..<k])"])
  fix k u assume k: "k < length [0..<N]" and I: "wrote s (map (\<lambda>j. (dst j, bview s (src j))) [0..<k]) u"
  have "src k \<notin> fst ` set (map (\<lambda>j. (dst j, bview s (src j))) [0..<k])"
    using ne k by force
  then have "bview u (src k) = bview s (src k)"
    using I by (simp add: wrote_def vput_other)
  then have "wrote s (map (\<lambda>j. (dst j, bview s (src j))) [0..<Suc k]) t" if "copied u (src k) (dst k) t" for t
    using wrote_copied [OF I that] by simp
  then show "wp (f ([0..<N] ! k)) (\<lambda>_. wrote s (map (\<lambda>j. (dst j, bview s (src j))) [0..<Suc k])) u"
    using body [OF _ I] k by (auto intro: wp_mono)
qed (use s in \<open>simp_all add: wrote_nil\<close>)

section \<open>The loops of a commit\<close>

text \<open>
  The layout conditions of a log whose header lists the blocks \<open>bl\<close>: the log region lies on the
  disk, the listed blocks are distinct and outside it, and they fit behind the header block.
\<close>

definition log_region :: "'a log_st_scheme \<Rightarrow> nat set" where
  "log_region s = {lg_start s..<lg_start s + nat (lg_size s)}"

definition log_ok :: "'a log_st_scheme \<Rightarrow> nat list \<Rightarrow> bool" where
  "log_ok s bl \<longleftrightarrow> running_ok s \<and> lg_dev s = 1 \<and> length (lh_block s) = LOGSIZE \<and>
     lh_n s = int (length bl) \<and> take (length bl) (lh_block s) = bl \<and> distinct bl \<and>
     length bl < LOGSIZE \<and> int (length bl) < lg_size s \<and>
     lg_start s + nat (lg_size s) \<le> length (disk s) \<and> length (disk s) < 2 ^ 32 \<and>
     (\<forall>b \<in> set bl. b < length (disk s) \<and> b \<notin> log_region s)"

lemma log_okD:
  assumes "log_ok s bl" "j < length bl"
  shows "lh_block s ! j = bl ! j" "j < length (lh_block s)" "bl ! j < length (disk s)"
    "lg_start s + j + 1 < length (disk s)" "bl ! j < lg_start s \<or> lg_start s + length bl < bl ! j"
    "w32 (Suc (lg_start s + j)) = Suc (lg_start s + j)"
proof -
  have "take (length bl) (lh_block s) ! j = bl ! j"
    using assms by (simp add: log_ok_def)
  then show "lh_block s ! j = bl ! j"
    using assms(2) by simp
  have "bl ! j \<in> set bl"
    using assms(2) by simp
  then have "bl ! j < length (disk s) \<and> bl ! j \<notin> log_region s" and n: "int (length bl) < lg_size s"
    using assms by (simp_all add: log_ok_def)
  then show "bl ! j < length (disk s)" and "bl ! j < lg_start s \<or> lg_start s + length bl < bl ! j"
    by (auto simp: log_region_def)
  show *: "lg_start s + j + 1 < length (disk s)" and "j < length (lh_block s)"
    using assms by (auto simp: log_ok_def)
  show "w32 (Suc (lg_start s + j)) = Suc (lg_start s + j)"
    using * assms by (intro w32_id) (simp add: log_ok_def)
qed

lemma log_ok_frame: "log_ok s bl \<Longrightarrow> bio_frame s t \<Longrightarrow> log_ok t bl"
  using running_frame [of s t] bio_frame_log [of s t]
  by (auto simp: log_ok_def log_region_def bio_frame_def)

lemma wp_lh_at: "log_ok s bl \<Longrightarrow> j < length bl \<Longrightarrow> wp (lh_at j) (\<lambda>x u. x = bl ! j \<and> u = s) s"
  by (simp add: lh_at_def log_okD)

text \<open>The writes of the two loops.\<close>

definition log_writes :: "'a log_st_scheme \<Rightarrow> nat list \<Rightarrow> (nat \<times> bytes) list" where
  "log_writes s bl = map (\<lambda>j. (lg_start s + j + 1, bview s (bl ! j))) [0..<length bl]"

definition home_writes :: "'a log_st_scheme \<Rightarrow> nat list \<Rightarrow> (nat \<times> bytes) list" where
  "home_writes s bl = map (\<lambda>j. (bl ! j, bview s (lg_start s + j + 1))) [0..<length bl]"

lemma dirty_room:
  assumes "bdirty s \<subseteq> set bl" "log_ok s bl" "finite A" "A \<subseteq> bdirty s"
  shows "card A < NBUF"
proof -
  have "card A \<le> card (set bl)"
    using assms by (intro card_mono) auto
  also have "\<dots> < NBUF"
    using assms(2) card_length [of bl] by (auto simp: log_ok_def NBUF_def LOGSIZE_def)
  finally show ?thesis .
qed

lemma write_log_ok:
  assumes inv: "bcache_inv s" "bbusy s = {}" and ok: "log_ok s bl" and d: "bdirty s = set bl"
  shows "wp write_log (\<lambda>_. wrote s (log_writes s bl)) s"
proof -
  have "wp (kfor [0..<length bl] write_block)
      (\<lambda>_. wrote s (map (\<lambda>j. (lg_start s + j + 1, bview s (bl ! j))) [0..<length bl])) s"
  proof (rule copy_loop [OF inv])
    show "bl ! j \<noteq> lg_start s + k + 1" if "j < length bl" "k < length bl" for j k
      using log_okD(5) [OF ok that(1)] that by auto
    fix k u
    assume k: "k < length bl" and u: "wrote s (map (\<lambda>j. (lg_start s + j + 1, bview s (bl ! j))) [0..<k]) u"
    have fr: "bio_frame s u"
      using u by (simp add: wrote_def)
    have oku: "log_ok u bl"
      using log_ok_frame [OF ok fr] .
    have "fst ` set (map (\<lambda>j. (lg_start s + j + 1, bview s (bl ! j))) [0..<k]) \<inter> set bl = {}"
      using ok k by (fastforce simp: log_ok_def log_region_def)
    then have du: "bdirty u = set bl"
      using u d by (auto simp: wrote_def)
    have e: "lg_start u = lg_start s" "lg_dev u = 1" "w32 (Suc (lg_start s + k)) = Suc (lg_start s + k)"
      using bio_frame_log [OF fr] oku log_okD(6) [OF ok k] by (simp_all add: log_ok_def)
    have "wp (kbind (bread 1 (Suc (lg_start s + k))) (\<lambda>d. kbind (lh_at k) (\<lambda>home.
             kbind (bread 1 home) (\<lambda>l. kbind (kget (\<lambda>s. b_data (bufs s ! l))) (\<lambda>x.
             kbind (set_buf_data d (\<lambda>_. x)) (\<lambda>_. kbind (bwrite d) (\<lambda>_. kbind (brelse l) (\<lambda>_. brelse d))))))))
        (\<lambda>_. copied u (bl ! k) (Suc (lg_start s + k))) u"
    proof (rule copy_dst_first)
      show "wp (lh_at k) (\<lambda>x w. x = bl ! k \<and> w = t) t" if "bio_frame u t" for t
        by (rule wp_lh_at [OF log_ok_frame [OF oku that] k])
      show "Suc (lg_start s + k) \<in> bdirty u \<or> card (bdirty u) < NBUF"
        using dirty_room [of u bl "bdirty u"] du oku by simp
    qed (use u k oku du log_okD [OF oku k] e in \<open>auto simp: wrote_def log_ok_def\<close>)
    then show "wp (write_block k) (\<lambda>_. copied u (bl ! k) (lg_start s + k + 1)) u"
      by (simp add: write_block_def e)
  qed
  then show ?thesis
    using ok by (simp add: write_log_def log_writes_def log_ok_def)
qed

lemma install_trans_ok:
  assumes inv: "bcache_inv s" "bbusy s = {}" and ok: "log_ok s bl" and d: "bdirty s \<subseteq> set bl"
    and full: "bdirty s = set bl \<or> card (bdirty s) + 1 < NBUF"
  shows "wp install_trans (\<lambda>_. wrote s (home_writes s bl)) s"
proof -
  have "wp (kfor [0..<length bl] install_block)
      (\<lambda>_. wrote s (map (\<lambda>j. (bl ! j, bview s (lg_start s + j + 1))) [0..<length bl])) s"
  proof (rule copy_loop [OF inv])
    show "lg_start s + j + 1 \<noteq> bl ! k" if "j < length bl" "k < length bl" for j k
      using log_okD(5) [OF ok that(2)] that by auto
    fix k u
    assume k: "k < length bl" and u: "wrote s (map (\<lambda>j. (bl ! j, bview s (lg_start s + j + 1))) [0..<k]) u"
    have fr: "bio_frame s u"
      using u by (simp add: wrote_def)
    have oku: "log_ok u bl"
      using log_ok_frame [OF ok fr] .
    have du: "bdirty u = bdirty s - set (take k bl)"
      using u k by (force simp: wrote_def in_set_conv_nth image_iff)
    have "bl ! k \<notin> set (take k bl)"
      using ok k by (auto simp: log_ok_def in_set_conv_nth nth_eq_iff_index_eq)
    then have room: "bl ! k \<in> bdirty u \<or> card (insert (Suc (lg_start s + k)) (bdirty u)) < NBUF"
    proof (cases "bdirty s = set bl")
      case False
      then have "card (bdirty s) + 1 < NBUF"
        using full by blast
      moreover have "card (bdirty u) \<le> card (bdirty s)"
        unfolding du by (intro card_mono) auto
      ultimately show ?thesis
        using card_insert_room [of "bdirty u" NBUF] by simp
    qed (use k du in simp)
    have e: "lg_start u = lg_start s" "lg_dev u = 1" "w32 (Suc (lg_start s + k)) = Suc (lg_start s + k)"
      using bio_frame_log [OF fr] oku log_okD(6) [OF ok k] by (simp_all add: log_ok_def)
    have "wp (kbind (bread 1 (Suc (lg_start s + k))) (\<lambda>l. kbind (lh_at k) (\<lambda>home.
             kbind (bread 1 home) (\<lambda>d. kbind (kget (\<lambda>s. b_data (bufs s ! l))) (\<lambda>x.
             kbind (set_buf_data d (\<lambda>_. x)) (\<lambda>_. kbind (bwrite d) (\<lambda>_. kbind (brelse l) (\<lambda>_. brelse d))))))))
        (\<lambda>_. copied u (Suc (lg_start s + k)) (bl ! k)) u"
    proof (rule copy_src_first)
      show "wp (lh_at k) (\<lambda>x w. x = bl ! k \<and> w = t) t" if "bio_frame u t" for t
        by (rule wp_lh_at [OF log_ok_frame [OF oku that] k])
      show "Suc (lg_start s + k) \<in> bdirty u \<or> card (bdirty u) < NBUF"
        using dirty_room [of u bl "bdirty u"] du oku d by auto
      show "bl ! k \<in> bdirty u \<or> card (insert (Suc (lg_start s + k)) (bdirty u)) < NBUF"
        by (rule room)
    qed (use u k oku log_okD [OF oku k] e in \<open>auto simp: wrote_def log_ok_def\<close>)
    then show "wp (install_block k) (\<lambda>_. copied u (lg_start s + k + 1) (bl ! k)) u"
      by (simp add: install_block_def e)
  qed
  then show ?thesis
    using ok by (simp add: install_trans_def home_writes_def log_ok_def)
qed

section \<open>The header block\<close>

definition header_bytes :: "bytes \<Rightarrow> nat list \<Rightarrow> bytes" where
  "header_bytes d bl = put_addrs (put32 d 0 (length bl)) 4 bl"

lemma put_addrs_snoc: "put_addrs d off (xs @ [x]) = put32 (put_addrs d off xs) (off + 4 * length xs) x"
  by (induction xs arbitrary: d off) (simp_all add: add.assoc)

lemma header_fits: "length bl < LOGSIZE \<Longrightarrow> 4 + 4 * length bl \<le> BSIZE"
  by (simp add: LOGSIZE_def MAXOPBLOCKS_def BSIZE_def)

lemma length_header_bytes:
  assumes "length d = BSIZE" "length bl < LOGSIZE"
  shows "length (header_bytes d bl) = BSIZE"
proof -
  have "only_in 4 (4 + 4 * length bl) (put32 d 0 (length bl)) (header_bytes d bl)"
    unfolding header_bytes_def using assms header_fits [OF assms(2)] by (intro put_addrs_only_in) simp
  then show ?thesis
    using only_in_length assms header_fits [OF assms(2)] by fastforce
qed

lemma header_count:
  assumes "length d = BSIZE" "length bl < LOGSIZE"
  shows "get32 (header_bytes d bl) 0 = length bl"
proof -
  have "only_in 4 (4 + 4 * length bl) (put32 d 0 (length bl)) (header_bytes d bl)"
    unfolding header_bytes_def using assms header_fits [OF assms(2)] by (intro put_addrs_only_in) simp
  then have "get32 (header_bytes d bl) 0 = get32 (put32 d 0 (length bl)) 0"
    using assms header_fits [OF assms(2)] by (intro get32_only_in) auto
  then show ?thesis
    using assms header_fits [OF assms(2)] by (simp add: LOGSIZE_def MAXOPBLOCKS_def)
qed

lemma header_entry:
  assumes "length d = BSIZE" "length bl < LOGSIZE" "j < length bl"
  shows "get32 (header_bytes d bl) (4 + 4 * j) = w32 (bl ! j)"
  unfolding header_bytes_def using assms header_fits [OF assms(2)] by (intro get_put_addrs) simp_all

lemma write_head_ok:
  assumes inv: "bcache_inv s" "bbusy s = {}" and ok: "log_ok s bl" and d: "bdirty s \<subseteq> set bl"
  shows "wp write_head (\<lambda>_. wrote s [(lg_start s, header_bytes (bview s (lg_start s)) bl)]) s"
proof -
  let ?st = "lg_start s" and ?v = "bview s (lg_start s)"
  let ?H = "header_bytes ?v bl"
  have st: "?st < length (disk s)" and dev: "lg_dev s = 1" and run: "running_ok s" and lim: "length bl < LOGSIZE"
    using ok by (auto simp: log_ok_def)
  have lv: "length ?v = BSIZE"
    using bview_length [OF inv(1) st] .
  have nd: "?st \<notin> bdirty s"
    using d ok by (auto simp: log_ok_def log_region_def)
  have n: "nat (lh_n s mod 2 ^ 32) = length bl" "nat (lh_n s) = length bl"
    using ok by (simp_all add: log_ok_def LOGSIZE_def MAXOPBLOCKS_def)
  have "wp (kbind (bread 1 ?st) (\<lambda>b.
     kbind (kget lh_n) (\<lambda>n.
     kbind (set_buf_data b (\<lambda>d. put32 d 0 (nat (n mod 2 ^ 32)))) (\<lambda>_.
     kbind (kfor [0..<nat n] (\<lambda>i.
       kbind (lh_at i) (\<lambda>v. set_buf_data b (\<lambda>d. put32 d (4 + 4 * i) v)))) (\<lambda>_.
     kbind (bwrite b) (\<lambda>_. brelse b)))))) (\<lambda>_. wrote s [(?st, ?H)]) s"
  proof (rule wp_step [OF bread_run [OF inv(1) run st]])
    show "?st \<in> bdirty s \<or> card (bbusy s \<union> bdirty s) < NBUF"
      using dirty_room [OF d ok] inv by simp
    fix b u assume u: "bread_post s ?st b u"
    let ?I = "\<lambda>k t. bcache_inv t \<and> hold t b ?st \<and> bview t = (bview s)(?st := put_addrs (put32 ?v 0 (length bl)) 4 (take k bl)) \<and>
       bbusy t = {?st} \<and> bdirty t = bdirty s \<and> disk t = disk s \<and> dtrace t = dtrace s \<and> bio_frame s t"
    have u': "bcache_inv u" "hold u b ?st" "bview u = bview s" "bbusy u = {?st}" "bdirty u = bdirty s"
      "disk u = disk s" "dtrace u = dtrace s" "bio_frame s u"
      using u inv by (auto simp: bread_post_def)
    have "wp (kbind (set_buf_data b (\<lambda>d. put32 d 0 (length bl))) (\<lambda>_.
       kbind (kfor [0..<length bl] (\<lambda>i.
         kbind (lh_at i) (\<lambda>v. set_buf_data b (\<lambda>d. put32 d (4 + 4 * i) v)))) (\<lambda>_.
       kbind (bwrite b) (\<lambda>_. brelse b)))) (\<lambda>_. wrote s [(?st, ?H)]) u"
    proof (rule wp_step [OF wp_set_buf_data [OF u'(1,2)]])
      show "length (put32 (bview u ?st) 0 (length bl)) = BSIZE"
        using lv u'(3) by (simp add: BSIZE_def)
      fix x w assume w: "set_post u b ?st (put32 (bview u ?st) 0 (length bl)) w"
      have I0: "?I 0 w"
        using w u' by (auto simp: set_post_def upd_post_def intro: bio_frame_trans)
      show "wp (kbind (kfor [0..<length bl] (\<lambda>i.
         kbind (lh_at i) (\<lambda>v. set_buf_data b (\<lambda>d. put32 d (4 + 4 * i) v)))) (\<lambda>_.
         kbind (bwrite b) (\<lambda>_. brelse b))) (\<lambda>_. wrote s [(?st, ?H)]) w"
      proof (rule wp_step [OF wp_kfor [where I = ?I]], rule I0)
        fix k t assume k: "k < length [0..<length bl]" and I: "?I k t"
        have lt: "length (bview t ?st) = BSIZE" "?st < length (disk t)"
          using bview_length [of t ?st] I st by auto
        have at: "wp (lh_at k) (\<lambda>x u. x = bl ! k \<and> u = t) t"
          using I k log_ok_frame [OF ok] by (intro wp_lh_at) auto
        have b: "4 + 4 * k + 4 \<le> BSIZE"
          using header_fits [OF lim] k by simp
        have tk: "take (Suc k) bl = take k bl @ [bl ! k]" and kl: "min (length bl) k = k"
          using k by (simp_all add: take_Suc_conv_app_nth)
        have "wp (kbind (lh_at k) (\<lambda>v. set_buf_data b (\<lambda>d. put32 d (4 + 4 * k) v))) (\<lambda>_. ?I (Suc k)) t"
        proof (rule wp_step [OF at], elim conjE, hypsubst)
          have "wp (set_buf_data b (\<lambda>d. put32 d (4 + 4 * k) (bl ! k)))
              (\<lambda>_. set_post t b ?st (put32 (bview t ?st) (4 + 4 * k) (bl ! k))) t"
            using I lt b by (intro wp_set_buf_data) auto
          then show "wp (set_buf_data b (\<lambda>d. put32 d (4 + 4 * k) (bl ! k))) (\<lambda>_. ?I (Suc k)) t"
            by (rule wp_mono) (use I in \<open>auto simp: set_post_def upd_post_def tk kl put_addrs_snoc intro: bio_frame_trans\<close>)
        qed
        then show "wp (kbind (lh_at ([0..<length bl] ! k)) (\<lambda>v. set_buf_data b (\<lambda>d. put32 d (4 + 4 * [0..<length bl] ! k) v)))
            (\<lambda>_. ?I (Suc k)) t"
          using k by simp
      next
        fix t assume "?I (length [0..<length bl]) t"
        then show "?I (length bl) t" by simp
      next
        fix y t assume I: "?I (length bl) t"
        show "wp (kbind (bwrite b) (\<lambda>_. brelse b)) (\<lambda>_. wrote s [(?st, ?H)]) t"
        proof (rule wp_step [OF bwrite_ok])
          show "bcache_inv t" "hold t b ?st" using I by auto
          fix z r assume r: "bwrite_post t ?st b r"
          have r': "bcache_inv r" "hold r b ?st" "?st \<in> bdirty r \<or> bview r ?st = disk r ! ?st"
            using r I st by (auto simp: bwrite_post_def upd_post_def)
          show "wp (brelse b) (\<lambda>_. wrote s [(?st, ?H)]) r"
            by (rule wp_mono [OF brelse_ok [OF r']])
              (use r I nd in \<open>auto simp: brelse_post_def bwrite_post_def upd_post_def wrote_def header_bytes_def intro: bio_frame_trans\<close>)
        qed
      qed
    qed
    then show "wp (kbind (kget lh_n) (\<lambda>n.
       kbind (set_buf_data b (\<lambda>d. put32 d 0 (nat (n mod 2 ^ 32)))) (\<lambda>_.
       kbind (kfor [0..<nat n] (\<lambda>i.
         kbind (lh_at i) (\<lambda>v. set_buf_data b (\<lambda>d. put32 d (4 + 4 * i) v)))) (\<lambda>_.
       kbind (bwrite b) (\<lambda>_. brelse b))))) (\<lambda>_. wrote s [(?st, ?H)]) u"
      unfolding wp_kbind [of "kget lh_n"] wp_kget bio_frame_log(4) [OF u'(8)] n .
  qed (use inv in simp)
  then show ?thesis
    using dev by (simp add: write_head_def)
qed

lemma lh_set_loop:
  assumes "N \<le> length (lh_block u)"
  shows "wp (kfor [0..<N] (\<lambda>i. lh_set i (g i))) (\<lambda>_ t. t = u\<lparr>lh_block := map g [0..<N] @ drop N (lh_block u)\<rparr>) u"
proof (rule wp_kfor [where I = "\<lambda>k t. t = u\<lparr>lh_block := map g [0..<k] @ drop k (lh_block u)\<rparr>"])
  fix k t assume k: "k < length [0..<N]" and t: "t = u\<lparr>lh_block := map g [0..<k] @ drop k (lh_block u)\<rparr>"
  have "drop k (lh_block u) = lh_block u ! k # drop (Suc k) (lh_block u)"
    using k assms by (simp add: Cons_nth_drop_Suc)
  then have "(map g [0..<k] @ drop k (lh_block u))[k := g k] = map g [0..<Suc k] @ drop (Suc k) (lh_block u)"
    by (simp add: list_update_append)
  then show "wp (lh_set ([0..<N] ! k) (g ([0..<N] ! k)))
      (\<lambda>_ t. t = u\<lparr>lh_block := map g [0..<Suc k] @ drop (Suc k) (lh_block u)\<rparr>) t"
    using k assms by (simp add: lh_set_def t del: upt_Suc)
qed simp_all

text \<open>A change of the log fields is invisible to the cache.\<close>

lemma log_fields_cache [simp]:
  "bcache_inv (s\<lparr>lh_n := n\<rparr>) = bcache_inv s" "bcache_inv (s\<lparr>lh_block := l\<rparr>) = bcache_inv s"
  "bbusy (s\<lparr>lh_n := n\<rparr>) = bbusy s" "bbusy (s\<lparr>lh_block := l\<rparr>) = bbusy s"
  "bdirty (s\<lparr>lh_n := n\<rparr>) = bdirty s" "bdirty (s\<lparr>lh_block := l\<rparr>) = bdirty s"
  "bview (s\<lparr>lh_n := n\<rparr>) = bview s" "bview (s\<lparr>lh_block := l\<rparr>) = bview s"
  "hold (s\<lparr>lh_n := n\<rparr>) b m = hold s b m" "hold (s\<lparr>lh_block := l\<rparr>) b m = hold s b m"
  "running_ok (s\<lparr>lh_n := n\<rparr>) = running_ok s" "running_ok (s\<lparr>lh_block := l\<rparr>) = running_ok s"
  by (auto simp: bcache_inv_def lru_def bbusy_def bdirty_def bview_def fun_eq_iff hold_def buf_lock_def running_ok_def
      split: option.split)

text \<open>A log on a disk whose header block lists \<open>bl\<close>.\<close>

definition disk_log :: "'a log_st_scheme \<Rightarrow> nat list \<Rightarrow> bool" where
  "disk_log s bl \<longleftrightarrow> get32 (disk s ! lg_start s) 0 = length bl \<and>
     (\<forall>j < length bl. get32 (disk s ! lg_start s) (4 + 4 * j) = bl ! j) \<and> distinct bl \<and>
     length bl < LOGSIZE \<and> int (length bl) < lg_size s \<and>
     lg_start s + nat (lg_size s) \<le> length (disk s) \<and> length (disk s) < 2 ^ 32 \<and>
     (\<forall>b \<in> set bl. b < length (disk s) \<and> b \<notin> log_region s)"

definition fresh_cache :: "'a log_st_scheme \<Rightarrow> bool" where
  "fresh_cache s \<longleftrightarrow> bcache_inv s \<and> bbusy s = {} \<and> bdirty s = {} \<and> running_ok s \<and> lg_dev s = 1 \<and>
     length (lh_block s) = LOGSIZE"

text \<open>\<open>loaded s bl t\<close>: \<open>t\<close> is \<open>s\<close> after its header has been read.\<close>

definition loaded :: "'a log_st_scheme \<Rightarrow> nat list \<Rightarrow> 'a log_st_scheme \<Rightarrow> bool" where
  "loaded s bl t \<longleftrightarrow> fresh_cache t \<and> bview t = bview s \<and> disk t = disk s \<and> dtrace t = dtrace s \<and>
     lg_start t = lg_start s \<and> lg_size t = lg_size s \<and> lh_n t = int (length bl) \<and> take (length bl) (lh_block t) = bl"

lemma read_head_ok:
  assumes f: "fresh_cache s" and d: "disk_log s bl"
  shows "wp read_head (\<lambda>_. loaded s bl) s"
proof -
  let ?st = "lg_start s"
  have inv: "bcache_inv s" "bbusy s = {}" "bdirty s = {}" "running_ok s" "lg_dev s = 1" "length (lh_block s) = LOGSIZE"
    using f by (simp_all add: fresh_cache_def)
  have st: "?st < length (disk s)" and n: "s32 (int (length bl)) = int (length bl)" and lim: "length bl < LOGSIZE"
    using d by (auto simp: disk_log_def LOGSIZE_def MAXOPBLOCKS_def)
  have hd: "bview s ?st = disk s ! ?st"
    using bview_clean [of s ?st] inv by simp
  have g: "get32 (bview s ?st) 0 = length bl" "map (\<lambda>i. get32 (bview s ?st) (4 + 4 * i)) [0..<length bl] = bl"
    using d hd by (auto simp: disk_log_def intro!: nth_equalityI)
  have "wp (kbind (bread 1 ?st) (\<lambda>b.
     kbind (kget (\<lambda>s. b_data (bufs s ! b))) (\<lambda>d.
     kbind (kmod (\<lambda>s. s\<lparr>lh_n := s32 (int (get32 d 0))\<rparr>)) (\<lambda>_.
     kbind (kget lh_n) (\<lambda>n.
     kbind (kfor [0..<nat n] (\<lambda>i. lh_set i (get32 d (4 + 4 * i)))) (\<lambda>_.
     brelse b)))))) (\<lambda>_. loaded s bl) s"
  proof (rule wp_step [OF bread_run [OF inv(1,4) st]])
    fix b u assume "bread_post s ?st b u"
    then have u: "bcache_inv u" "hold u b ?st" "bview u = bview s" "bbusy u = {?st}" "bdirty u = {}"
      "disk u = disk s" "dtrace u = dtrace s" "bio_frame s u"
      using inv by (auto simp: bread_post_def)
    let ?w = "u\<lparr>lh_n := int (length bl)\<rparr>"
    let ?v = "?w\<lparr>lh_block := bl @ drop (length bl) (lh_block u)\<rparr>"
    have v: "bcache_inv ?v" "hold ?v b ?st" "?st \<in> bdirty ?v \<or> bview ?v ?st = disk ?v ! ?st"
      using u hd by simp_all
    have "wp (kbind (kfor [0..<length bl] (\<lambda>i. lh_set i (get32 (bview s ?st) (4 + 4 * i)))) (\<lambda>_. brelse b))
        (\<lambda>_. loaded s bl) ?w"
    proof (rule wp_step [OF lh_set_loop])
      fix x t
      assume "t = ?w\<lparr>lh_block := map (\<lambda>i. get32 (bview s ?st) (4 + 4 * i)) [0..<length bl] @ drop (length bl) (lh_block ?w)\<rparr>"
      then have t: "t = ?v"
        using g by simp
      show "wp (brelse b) (\<lambda>_. loaded s bl) t"
        unfolding t
      proof (rule wp_mono [OF brelse_ok [OF v]])
        fix y r assume r: "brelse_post ?v ?st b r"
        then have fr: "bio_frame ?v r"
          by (simp add: brelse_post_def)
        have run: "running_ok r"
          using running_frame [OF fr] running_frame [OF u(8) inv(4)] by simp
        have len: "length bl \<le> length (lh_block u)"
          using bio_frame_log(5) [OF u(8)] inv(6) lim by simp
        show "loaded s bl r"
          using r u run bio_frame_log [OF fr] bio_frame_log [OF u(8)] inv(5,6) len
          by (simp add: brelse_post_def loaded_def fresh_cache_def)
      qed
    qed (use inv lim bio_frame_log [OF u(8)] in simp)
    then show "wp (kbind (kget (\<lambda>s. b_data (bufs s ! b))) (\<lambda>d.
       kbind (kmod (\<lambda>s. s\<lparr>lh_n := s32 (int (get32 d 0))\<rparr>)) (\<lambda>_.
       kbind (kget lh_n) (\<lambda>n.
       kbind (kfor [0..<nat n] (\<lambda>i. lh_set i (get32 d (4 + 4 * i)))) (\<lambda>_. brelse b))))) (\<lambda>_. loaded s bl) u"
      using hold_data [OF u(1,2)] u(3) by (simp add: g n)
  qed (use inv in \<open>simp_all add: NBUF_def MAXOPBLOCKS_def\<close>)
  then show ?thesis
    using inv by (simp add: read_head_def)
qed

section \<open>Recovery\<close>

lemma bio_frame_lh_n: "bio_frame s t \<Longrightarrow> bio_frame (s\<lparr>lh_n := n\<rparr>) (t\<lparr>lh_n := n\<rparr>)"
  by (elim bio_frameE) (simp add: bio_frame_def)

lemma wrote_lh_n: "wrote s ws t \<Longrightarrow> wrote (s\<lparr>lh_n := n\<rparr>) ws (t\<lparr>lh_n := n\<rparr>)"
  by (simp add: wrote_def bio_frame_lh_n)

lemma log_ok_clear: "log_ok s bl \<Longrightarrow> log_ok (s\<lparr>lh_n := 0\<rparr>) []"
  by (auto simp: log_ok_def)

lemma log_ok_wrote: "log_ok s bl \<Longrightarrow> wrote s ws t \<Longrightarrow> log_ok t bl"
  using log_ok_frame by (auto simp: wrote_def)

lemma loaded_log_ok: "disk_log s bl \<Longrightarrow> loaded s bl t \<Longrightarrow> log_ok t bl"
  by (auto simp: disk_log_def loaded_def fresh_cache_def log_ok_def log_region_def)

definition redo_writes :: "'a log_st_scheme \<Rightarrow> nat list \<Rightarrow> (nat \<times> bytes) list" where
  "redo_writes s bl = map (\<lambda>j. (bl ! j, disk s ! (lg_start s + j + 1))) [0..<length bl]"

lemma start_not_home: "log_ok s bl \<Longrightarrow> lg_start s \<notin> set bl"
  by (auto simp: log_ok_def log_region_def)

lemma recover_ok:
  assumes f: "fresh_cache s" and d: "disk_log s bl"
  shows "wp recover_from_log (\<lambda>_ t. bcache_inv t \<and> bdirty t = {} \<and> bbusy t = {} \<and> lh_n t = 0 \<and>
    disk t = dput (disk s) (redo_writes s bl @ [(lg_start s, header_bytes (disk s ! lg_start s) [])])) s"
  unfolding recover_from_log_def
proof (rule wp_step [OF read_head_ok [OF f d]])
  fix x t1 assume t1: "loaded s bl t1"
  then have ok1: "log_ok t1 bl" and f1: "bcache_inv t1" "bbusy t1 = {}" "bdirty t1 = {}"
    using loaded_log_ok [OF d] by (auto simp: loaded_def fresh_cache_def)
  have "bview t1 = (!) (disk t1)"
    using bview_clean [of t1] f1 by (auto simp: fun_eq_iff)
  then have hw: "home_writes t1 bl = redo_writes s bl" and v1: "bview t1 = (!) (disk s)"
    using t1 by (simp_all add: home_writes_def redo_writes_def loaded_def)
  show "wp (kbind install_trans (\<lambda>_. kbind (kmod (\<lambda>s. s\<lparr>lh_n := 0\<rparr>)) (\<lambda>_. write_head)))
     (\<lambda>_ t. bcache_inv t \<and> bdirty t = {} \<and> bbusy t = {} \<and> lh_n t = 0 \<and>
      disk t = dput (disk s) (redo_writes s bl @ [(lg_start s, header_bytes (disk s ! lg_start s) [])])) t1"
  proof (rule wp_step [OF install_trans_ok [OF f1(1,2) ok1]])
    fix y t2 assume "wrote t1 (home_writes t1 bl) t2"
    then have t2: "wrote t1 (redo_writes s bl) t2"
      by (simp add: hw)
    let ?u = "t2\<lparr>lh_n := 0\<rparr>"
    have ok2: "log_ok ?u []" and st: "lg_start t2 = lg_start s"
      using log_ok_clear [OF log_ok_wrote [OF ok1 t2]] bio_frame_log(1) [of t1 t2] t1 t2
      by (auto simp: wrote_def loaded_def)
    have "lg_start s \<notin> fst ` set (redo_writes s bl)"
      using start_not_home [OF ok1] t1 by (auto simp: redo_writes_def loaded_def in_set_conv_nth)
    then have hd: "bview t2 (lg_start s) = disk s ! lg_start s"
      using t2 v1 by (simp add: wrote_def vput_other)
    have "wp write_head (\<lambda>_. wrote ?u [(lg_start ?u, header_bytes (bview ?u (lg_start ?u)) [])]) ?u"
      using t2 f1 by (intro write_head_ok ok2) (auto simp: wrote_def)
    then have "wp write_head (\<lambda>_. wrote ?u [(lg_start s, header_bytes (disk s ! lg_start s) [])]) ?u"
      by (simp add: st hd)
    then have "wp write_head (\<lambda>_ t. bcache_inv t \<and> bdirty t = {} \<and> bbusy t = {} \<and> lh_n t = 0 \<and>
      disk t = dput (disk s) (redo_writes s bl @ [(lg_start s, header_bytes (disk s ! lg_start s) [])])) ?u"
      by (rule wp_mono)
        (use t1 t2 f1 in \<open>auto simp: wrote_def loaded_def dest: bio_frame_log\<close>)
    then show "wp (kbind (kmod (\<lambda>s. s\<lparr>lh_n := 0\<rparr>)) (\<lambda>_. write_head))
     (\<lambda>_ t. bcache_inv t \<and> bdirty t = {} \<and> bbusy t = {} \<and> lh_n t = 0 \<and>
      disk t = dput (disk s) (redo_writes s bl @ [(lg_start s, header_bytes (disk s ! lg_start s) [])])) t2"
      by simp
  qed (use f1 in \<open>simp_all add: NBUF_def MAXOPBLOCKS_def\<close>)
qed

section \<open>Commit\<close>

text \<open>The disk writes of a commit, in their order.\<close>

definition commit_writes :: "'a log_st_scheme \<Rightarrow> nat list \<Rightarrow> (nat \<times> bytes) list" where
  "commit_writes s bl =
     log_writes s bl @ [(lg_start s, header_bytes (bview s (lg_start s)) bl)] @
     map (\<lambda>b. (b, bview s b)) bl @
     [(lg_start s, header_bytes (header_bytes (bview s (lg_start s)) bl) [])]"

lemma fst_log_writes: "fst ` set (log_writes s bl) = {lg_start s + 1..<lg_start s + 1 + length bl}"
proof -
  have "fst ` set (log_writes s bl) = (+) (lg_start s + 1) ` {0..<length bl}"
    by (force simp: log_writes_def)
  also have "\<dots> = {0 + (lg_start s + 1)..<length bl + (lg_start s + 1)}"
    by (rule image_add_atLeastLessThan)
  finally show ?thesis
    by (simp add: add.commute)
qed

lemma log_writes_disjoint:
  assumes "log_ok s bl"
  shows "fst ` set (log_writes s bl) \<inter> set bl = {}"
proof -
  have "x \<notin> {lg_start s + 1..<lg_start s + 1 + length bl}" if "x \<in> set bl" for x
    using that log_okD(5) [OF assms] by (fastforce simp: in_set_conv_nth)
  then show ?thesis
    unfolding fst_log_writes by blast
qed

lemma distinct_log_writes: "distinct (map fst (log_writes s bl))"
  by (simp add: log_writes_def comp_def distinct_map inj_on_def)

definition commit_post :: "'a log_st_scheme \<Rightarrow> nat list \<Rightarrow> 'a log_st_scheme \<Rightarrow> bool" where
  "commit_post s bl t \<longleftrightarrow> bcache_inv t \<and> bbusy t = {} \<and> bdirty t = {} \<and> bio_frame (s\<lparr>lh_n := 0\<rparr>) t \<and>
     bview t = vput (bview s) (commit_writes s bl) \<and> disk t = dput (disk s) (commit_writes s bl) \<and>
     dtrace t = dtrace s @ commit_writes s bl"

lemma commit_ok:
  assumes inv: "bcache_inv s" "bbusy s = {}" and ok: "log_ok s bl" and d: "bdirty s = set bl" and ne: "bl \<noteq> []"
  shows "wp commit (\<lambda>_. commit_post s bl) s"
proof -
  let ?st = "lg_start s"
  let ?H1 = "header_bytes (bview s ?st) bl"
  have "wp (kbind write_log (\<lambda>_. kbind write_head (\<lambda>_. kbind install_trans (\<lambda>_.
      kbind (kmod (\<lambda>s. s\<lparr>lh_n := 0\<rparr>)) (\<lambda>_. write_head))))) (\<lambda>_. commit_post s bl) s"
  proof (rule wp_step [OF write_log_ok [OF inv ok d]])
    fix x t1 assume t1: "wrote s (log_writes s bl) t1"
    have s1: "lg_start t1 = ?st" "bview t1 ?st = bview s ?st" "bdirty t1 = set bl"
      using t1 bio_frame_log(1) [of s t1] d log_writes_disjoint [OF ok]
      by (auto simp: wrote_def vput_other fst_log_writes)
    show "wp (kbind write_head (\<lambda>_. kbind install_trans (\<lambda>_.
      kbind (kmod (\<lambda>s. s\<lparr>lh_n := 0\<rparr>)) (\<lambda>_. write_head)))) (\<lambda>_. commit_post s bl) t1"
    proof (rule wp_step [OF write_head_ok])
      show "log_ok t1 bl" using log_ok_wrote [OF ok t1] .
      fix y t2 assume "wrote t1 [(lg_start t1, header_bytes (bview t1 (lg_start t1)) bl)] t2"
      then have t2: "wrote s (log_writes s bl @ [(?st, ?H1)]) t2"
        using wrote_trans [OF t1] by (simp add: s1)
      have d2: "bdirty t2 = set bl" and s2: "lg_start t2 = ?st"
        using t2 bio_frame_log(1) [of s t2] d log_writes_disjoint [OF ok] start_not_home [OF ok]
        by (auto simp: wrote_def)
      have "bview t2 (?st + j + 1) = bview s (bl ! j)" if "j < length bl" for j
        using t2 that vput_hit [OF distinct_log_writes, of "?st + j + 1" "bview s (bl ! j)" s bl "bview s"]
        by (auto simp: wrote_def log_writes_def)
      then have hw: "home_writes t2 bl = map (\<lambda>b. (b, bview s b)) bl"
        by (auto simp: home_writes_def s2 intro!: nth_equalityI)
      show "wp (kbind install_trans (\<lambda>_. kbind (kmod (\<lambda>s. s\<lparr>lh_n := 0\<rparr>)) (\<lambda>_. write_head)))
          (\<lambda>_. commit_post s bl) t2"
      proof (rule wp_step [OF install_trans_ok])
        show "log_ok t2 bl" using log_ok_wrote [OF ok t2] .
        fix z t3 assume "wrote t2 (home_writes t2 bl) t3"
        then have t3: "wrote s (log_writes s bl @ [(?st, ?H1)] @ map (\<lambda>b. (b, bview s b)) bl) t3"
          using wrote_trans [OF t2] by (simp add: hw)
        let ?u = "t3\<lparr>lh_n := 0\<rparr>"
        have s3: "lg_start t3 = ?st" "bview t3 ?st = ?H1" "bdirty t3 = {}"
          using t3 bio_frame_log(1) [of s t3] d start_not_home [OF ok]
          by (simp_all add: wrote_def vput_other image_image image_Un)
        have "wp write_head (\<lambda>_. wrote ?u [(lg_start ?u, header_bytes (bview ?u (lg_start ?u)) [])]) ?u"
          using t3 s3 by (intro write_head_ok log_ok_clear [OF log_ok_wrote [OF ok t3]]) (auto simp: wrote_def)
        then have "wp write_head (\<lambda>_. wrote ?u [(?st, header_bytes ?H1 [])]) ?u"
          by (simp add: s3)
        then have "wp write_head (\<lambda>_. commit_post s bl) ?u"
        proof (rule wp_mono)
          fix v t assume "wrote ?u [(?st, header_bytes ?H1 [])] t"
          then have "wrote (s\<lparr>lh_n := 0\<rparr>) (commit_writes s bl) t"
            using wrote_trans [OF wrote_lh_n [OF t3, of 0]] by (simp add: commit_writes_def)
          then show "commit_post s bl t"
            using d by (auto simp: wrote_def commit_post_def commit_writes_def image_image image_Un)
        qed
        then show "wp (kbind (kmod (\<lambda>s. s\<lparr>lh_n := 0\<rparr>)) (\<lambda>_. write_head)) (\<lambda>_. commit_post s bl) t3"
          by simp
      qed (use t2 d2 in \<open>auto simp: wrote_def\<close>)
    qed (use t1 s1 in \<open>auto simp: wrote_def\<close>)
  qed
  then show ?thesis
    using ok ne by (simp add: commit_def log_ok_def)
qed

end
