(* ===== verification/Log_Crash.thy ===== *)
theory Log_Crash
  imports Log
begin

text \<open>
  Crash safety of the log, and the bookkeeping of a transaction.  A crash during \<^verbatim>\<open>commit\<close> leaves a
  disk that has received some prefix of the commit's block writes; the theorems run the recovery
  of the next boot on it.
\<close>

section \<open>The disk after a crash\<close>

lemma length_log_writes [simp]: "length (log_writes s bl) = length bl"
  by (simp add: log_writes_def)

lemma crash_before: "k \<le> length bl \<Longrightarrow> take k (commit_writes s bl) = take k (log_writes s bl)"
  by (simp add: commit_writes_def)

lemma crash_after:
  "take (length bl + 1 + j) (commit_writes s bl) =
   log_writes s bl @ [(lg_start s, header_bytes (bview s (lg_start s)) bl)] @
   take j (map (\<lambda>b. (b, bview s b)) bl @
     [(lg_start s, header_bytes (header_bytes (bview s (lg_start s)) bl) [])])"
  by (simp add: commit_writes_def)

lemma disk_log_nil:
  assumes "log_ok s bl" "lg_start r = lg_start s" "lg_size r = lg_size s" "length (disk r) = length (disk s)"
    and "get32 (disk r ! lg_start s) 0 = 0"
  shows "disk_log r []"
  using assms by (auto simp: disk_log_def log_ok_def)

lemma recovered_elsewhere:
  assumes "fresh_cache r" "disk_log r bl"
  shows "wp recover_from_log (\<lambda>_ u. get32 (disk u ! lg_start r) 0 = 0 \<and>
    (\<forall>m < length (disk r). m \<notin> log_region r \<longrightarrow> disk u ! m = dput (disk r) (redo_writes r bl) ! m)) r"
proof (rule wp_mono [OF recover_ok [OF assms]])
  fix x u
  assume u: "bcache_inv u \<and> bdirty u = {} \<and> bbusy u = {} \<and> lh_n u = 0 \<and>
    disk u = dput (disk r) (redo_writes r bl @ [(lg_start r, header_bytes (disk r ! lg_start r) [])])"
  have st: "lg_start r < length (disk r)" "lg_start r \<in> log_region r"
    using assms(2) by (auto simp: disk_log_def log_region_def)
  have "length (disk r ! lg_start r) = BSIZE"
    using assms(1) st by (simp add: fresh_cache_def bcache_inv_def)
  then have "get32 (header_bytes (disk r ! lg_start r) []) 0 = 0"
    by (simp add: header_count LOGSIZE_def MAXOPBLOCKS_def)
  then show "get32 (disk u ! lg_start r) 0 = 0 \<and>
    (\<forall>m < length (disk r). m \<notin> log_region r \<longrightarrow> disk u ! m = dput (disk r) (redo_writes r bl) ! m)"
    using u st by (auto simp: nth_list_update_if)
qed

text \<open>Before the header write, the old state.\<close>

lemma crash_old:
  assumes ok: "log_ok s bl" and h0: "get32 (disk s ! lg_start s) 0 = 0" and k: "k \<le> length bl"
    and r: "fresh_cache r" "lg_start r = lg_start s" "lg_size r = lg_size s"
      "disk r = dput (disk s) (take k (commit_writes s bl))"
  shows "wp recover_from_log (\<lambda>_ u. get32 (disk u ! lg_start s) 0 = 0 \<and>
    (\<forall>m < length (disk s). m \<notin> log_region s \<longrightarrow> disk u ! m = disk s ! m)) r"
proof -
  have sub: "fst ` set (take k (log_writes s bl)) \<subseteq> {lg_start s + 1..<lg_start s + 1 + length bl}"
    using set_take_subset [of k "log_writes s bl"] fst_log_writes [of s bl] by blast
  have d: "disk r ! m = disk s ! m" if "m \<notin> {lg_start s + 1..<lg_start s + 1 + length bl}" for m
    unfolding r(4) crash_before [OF k] by (rule dput_other) (use sub that in blast)
  have "disk_log r []"
    using d [of "lg_start s"] h0 r by (intro disk_log_nil [OF ok]) simp_all
  from recovered_elsewhere [OF r(1) this] show ?thesis
  proof (rule wp_mono)
    fix x u
    assume u: "get32 (disk u ! lg_start r) 0 = 0 \<and>
      (\<forall>m < length (disk r). m \<notin> log_region r \<longrightarrow> disk u ! m = dput (disk r) (redo_writes r []) ! m)"
    have "disk u ! m = disk s ! m" if m: "m < length (disk s)" "m \<notin> log_region s" for m
    proof -
      have "int (length bl) < lg_size s"
        using ok by (simp add: log_ok_def)
      then have "m \<notin> {lg_start s + 1..<lg_start s + 1 + length bl}"
        using m(2) by (auto simp: log_region_def)
      moreover have "disk u ! m = disk r ! m"
        using u m r by (simp add: redo_writes_def log_region_def)
      ultimately show ?thesis
        using d by simp
    qed
    then show "get32 (disk u ! lg_start s) 0 = 0 \<and>
      (\<forall>m < length (disk s). m \<notin> log_region s \<longrightarrow> disk u ! m = disk s ! m)"
      using u r(2) by simp
  qed
qed

text \<open>From the header write on, the new state.\<close>

lemma after_header_disk:
  assumes ok: "log_ok s bl" and j: "j \<le> length bl"
    and r: "disk r = dput (disk s) (take (length bl + 1 + j) (commit_writes s bl))"
  shows "disk r ! lg_start s = header_bytes (bview s (lg_start s)) bl"
    and "i < length bl \<Longrightarrow> disk r ! (lg_start s + i + 1) = bview s (bl ! i)"
    and "m \<notin> log_region s \<Longrightarrow> m \<notin> set bl \<Longrightarrow> disk r ! m = disk s ! m"
proof -
  let ?H = "header_bytes (bview s (lg_start s)) bl"
  have e: "disk r = dput ((dput (disk s) (log_writes s bl))[lg_start s := ?H]) (take j (map (\<lambda>b. (b, bview s b)) bl))"
    unfolding r crash_after using j by simp
  have fh: "fst ` set (take j (map (\<lambda>b. (b, bview s b)) bl)) \<subseteq> set bl"
    using set_take_subset [of j "map (\<lambda>b. (b, bview s b)) bl"] by force
  have st: "lg_start s \<notin> set bl" "lg_start s < length (disk s)"
    using start_not_home [OF ok] ok by (auto simp: log_ok_def)
  show "disk r ! lg_start s = ?H"
    unfolding e using fh st by (subst dput_other) auto
  show "disk r ! (lg_start s + i + 1) = bview s (bl ! i)" if i: "i < length bl"
  proof -
    have "lg_start s + i + 1 \<in> fst ` set (log_writes s bl)"
      using i by (simp add: fst_log_writes)
    then have "lg_start s + i + 1 \<notin> fst ` set (take j (map (\<lambda>b. (b, bview s b)) bl))"
      using fh log_writes_disjoint [OF ok] by blast
    then have "disk r ! (lg_start s + i + 1) = dput (disk s) (log_writes s bl) ! (lg_start s + i + 1)"
      unfolding e by (subst dput_other) auto
    also have "\<dots> = bview s (bl ! i)"
      using i log_okD(4) [OF ok i] by (intro dput_hit [OF distinct_log_writes]) (auto simp: log_writes_def)
    finally show ?thesis .
  qed
  show "disk r ! m = disk s ! m" if m: "m \<notin> log_region s" "m \<notin> set bl"
  proof -
    have "m \<noteq> lg_start s" "m \<notin> fst ` set (log_writes s bl)"
      using m(1) ok by (auto simp: fst_log_writes log_region_def log_ok_def)
    then show ?thesis
      unfolding e using m fh by (subst dput_other) (auto simp: dput_other)
  qed
qed

lemma crash_new:
  assumes inv: "bcache_inv s" "bbusy s = {}" and ok: "log_ok s bl" and d: "bdirty s = set bl" and j: "j \<le> length bl"
    and r: "fresh_cache r" "lg_start r = lg_start s" "lg_size r = lg_size s"
      "disk r = dput (disk s) (take (length bl + 1 + j) (commit_writes s bl))"
  shows "wp recover_from_log (\<lambda>_ u. get32 (disk u ! lg_start s) 0 = 0 \<and>
    (\<forall>m < length (disk s). m \<notin> log_region s \<longrightarrow> disk u ! m = bview s m)) r"
proof -
  note ah = after_header_disk [OF ok j r(4)]
  have hl: "length (bview s (lg_start s)) = BSIZE" and lim: "length bl < LOGSIZE"
    using ok by (auto simp: log_ok_def intro!: bview_length [OF inv(1)])
  have "w32 (bl ! i) = bl ! i" if "i < length bl" for i
    using log_okD(3) [OF ok that] ok by (intro w32_id) (simp add: log_ok_def)
  then have dl: "disk_log r bl"
    using ok r ah(1) header_count [OF hl lim] header_entry [OF hl lim] by (auto simp: disk_log_def log_ok_def log_region_def)
  have rw: "redo_writes r bl = map (\<lambda>b. (b, bview s b)) bl"
    using ah(2) r(2) by (auto simp: redo_writes_def intro!: nth_equalityI)
  have len: "length (disk r) = length (disk s)"
    by (simp add: r)
  have dist: "distinct (map fst (map (\<lambda>b. (b, bview s b)) bl))"
    using ok by (simp add: log_ok_def comp_def)
  have new: "dput (disk r) (redo_writes r bl) ! m = bview s m" if m: "m < length (disk s)" "m \<notin> log_region s" for m
  proof (cases "m \<in> set bl")
    case True
    then show ?thesis
      unfolding rw using m len by (intro dput_hit [OF dist]) auto
  next
    case False
    then have "dput (disk r) (redo_writes r bl) ! m = disk r ! m"
      unfolding rw by (intro dput_other) auto
    also have "\<dots> = bview s m"
      using ah(3) [OF m(2) False] bview_clean [OF inv(1), of m] inv(2) d False by simp
    finally show ?thesis .
  qed
  show ?thesis
    by (rule wp_mono [OF recovered_elsewhere [OF r(1) dl]]) (use new r len in \<open>auto simp: log_region_def\<close>)
qed

text \<open>After the last write nothing is left to redo.\<close>

lemma crash_done:
  assumes inv: "bcache_inv s" "bbusy s = {}" and ok: "log_ok s bl" and d: "bdirty s = set bl"
    and r: "fresh_cache r" "lg_start r = lg_start s" "lg_size r = lg_size s"
      "disk r = dput (disk s) (commit_writes s bl)"
  shows "wp recover_from_log (\<lambda>_ u. get32 (disk u ! lg_start s) 0 = 0 \<and>
    (\<forall>m < length (disk s). m \<notin> log_region s \<longrightarrow> disk u ! m = bview s m)) r"
proof -
  let ?H = "header_bytes (bview s (lg_start s)) bl"
  define e where "e = dput (disk s) (take (length bl + 1 + length bl) (commit_writes s bl))"
  have re: "disk r = e[lg_start s := header_bytes ?H []]"
    unfolding r(4) e_def crash_after by (simp add: commit_writes_def)
  have le: "length e = length (disk s)" and st: "lg_start s < length (disk s)"
    using ok by (auto simp: e_def log_ok_def)
  have hl: "length (bview s (lg_start s)) = BSIZE" and lim: "length bl < LOGSIZE"
    using ok by (auto simp: log_ok_def intro!: bview_length [OF inv(1)])
  have "get32 (disk r ! lg_start s) 0 = 0"
    using header_count [of ?H "[]"] length_header_bytes [OF hl lim] st le by (simp add: re LOGSIZE_def MAXOPBLOCKS_def)
  then have dl: "disk_log r []"
    using r by (intro disk_log_nil [OF ok]) simp_all
  have new: "disk r ! m = bview s m" if m: "m < length (disk s)" "m \<notin> log_region s" for m
  proof -
    have ms: "m \<noteq> lg_start s"
      using m ok by (auto simp: log_region_def log_ok_def)
    have wr: "disk r ! m = e ! m"
      using ms by (simp add: re)
    show ?thesis
    proof (cases "m \<in> set bl")
      case True
      have "distinct (map fst (map (\<lambda>b. (b, bview s b)) bl))"
        using ok by (simp add: log_ok_def comp_def)
      then have "e ! m = bview s m"
        unfolding e_def crash_after using True m
        by (simp, intro dput_hit) auto
      then show ?thesis
        using wr by simp
    next
      case False
      then show ?thesis
        using wr after_header_disk(3) [OF ok order_refl, of "r\<lparr>disk := e\<rparr>" m] m bview_clean [OF inv(1), of m] inv(2) d
        by (simp add: e_def)
    qed
  qed
  show ?thesis
    by (rule wp_mono [OF recovered_elsewhere [OF r(1) dl]]) (use new r in \<open>auto simp: log_region_def redo_writes_def\<close>)
qed

section \<open>Recording a block in the transaction\<close>

text \<open>
  The state inside a transaction that has logged the blocks \<open>bl\<close>: these are exactly the blocks
  whose cached copy is newer than the disk.
\<close>

definition txn :: "'a log_st_scheme \<Rightarrow> nat list \<Rightarrow> bool" where
  "txn s bl \<longleftrightarrow> bcache_inv s \<and> log_ok s bl \<and> bdirty s = set bl \<and> 1 \<le> lg_outstanding s"

text \<open>The blocks listed after one more is recorded.\<close>

definition absorb :: "nat list \<Rightarrow> nat \<Rightarrow> nat list" where
  "absorb bl n = (if n \<in> set bl then bl else bl @ [n])"

text \<open>What an operation inside a transaction may change.\<close>

definition fs_frame :: "'a log_st_scheme \<Rightarrow> 'a log_st_scheme \<Rightarrow> bool" where
  "fs_frame s t \<longleftrightarrow> t = s\<lparr>ptable := ptable t, bufs := bufs t, disk := disk t, dtrace := dtrace t,
       lh_n := lh_n t, lh_block := lh_block t\<rparr> \<and>
     woken (ptable s) (ptable t) \<and> length (disk t) = length (disk s)"

lemma fs_frameE:
  assumes "fs_frame s t"
  obtains ps bs d tr n l where "t = s\<lparr>ptable := ps, bufs := bs, disk := d, dtrace := tr, lh_n := n, lh_block := l\<rparr>"
    "woken (ptable s) ps" "length d = length (disk s)"
  using assms unfolding fs_frame_def by blast

lemma fs_frame_refl [simp]: "fs_frame s s"
  by (simp add: fs_frame_def)

lemma fs_frame_trans: "fs_frame s t \<Longrightarrow> fs_frame t u \<Longrightarrow> fs_frame s u"
  by (elim fs_frameE) (auto simp: fs_frame_def intro: woken_trans)

lemma bio_fs_frame: "bio_frame s t \<Longrightarrow> fs_frame s t"
  by (elim bio_frameE) (simp add: fs_frame_def)

lemma fs_frame_log:
  assumes "fs_frame s t"
  shows "lg_start t = lg_start s" "lg_size t = lg_size s" "lg_dev t = lg_dev s"
    "lg_outstanding t = lg_outstanding s" "lg_committing t = lg_committing s" "cur t = cur s"
    "log_region t = log_region s" "length (disk t) = length (disk s)"
  using assms by (auto elim!: fs_frameE simp: log_region_def)

lemma absorb_index_hit:
  assumes "log_ok s bl" "n \<in> set bl"
  shows "absorb_index s n < length bl \<and> bl ! absorb_index s n = n"
proof -
  have t: "take (nat (lh_n s)) (lh_block s) = bl"
    using assms(1) by (simp add: log_ok_def)
  obtain i where "find_index (\<lambda>x. x = n) bl = Some i"
    using assms(2) find_index_None [of "\<lambda>x. x = n" bl] by (cases "find_index (\<lambda>x. x = n) bl") auto
  then show ?thesis
    using find_index_Some [of "\<lambda>x. x = n" bl i] by (simp add: absorb_index_def t)
qed

lemma absorb_index_miss:
  assumes "log_ok s bl" "n \<notin> set bl"
  shows "absorb_index s n = length bl"
proof -
  have t: "take (length bl) (lh_block s) = bl" "nat (lh_n s) = length bl"
    using assms(1) by (simp_all add: log_ok_def)
  have "find_index (\<lambda>x. x = n) bl = None"
    using assms(2) by (auto simp: find_index_None)
  then show ?thesis
    by (simp add: absorb_index_def t)
qed

definition logged :: "'a log_st_scheme \<Rightarrow> nat \<Rightarrow> nat \<Rightarrow> nat list \<Rightarrow> 'a log_st_scheme \<Rightarrow> bool" where
  "logged s b n bl t \<longleftrightarrow> txn t (absorb bl n) \<and> hold t b n \<and> bview t = bview s \<and> bbusy t = bbusy s \<and>
     fs_frame s t \<and> disk t = disk s \<and> dtrace t = dtrace s \<and> (\<forall>c m. hold s c m \<longrightarrow> hold t c m)"

lemma log_write_state:
  assumes tx: "txn s bl" and h: "hold s b n" and room: "length bl + 1 < LOGSIZE" "int (length bl) + 1 < lg_size s"
  shows "log_write b s = Ret () (upd_buf b (\<lambda>x. x\<lparr>b_dirty := True\<rparr>)
    (s\<lparr>lh_n := int (length (absorb bl n)), lh_block := (lh_block s)[absorb_index s n := n]\<rparr>))"
proof -
  have ok: "log_ok s bl" and out: "1 \<le> lg_outstanding s"
    using tx by (simp_all add: txn_def)
  have n: "lh_n s = int (length bl)" "length (lh_block s) = LOGSIZE"
    using ok by (simp_all add: log_ok_def)
  have bn: "b_blockno (bufs s ! b) = n"
    using holdD(3) [OF h] .
  have i: "absorb_index s n < length (lh_block s)"
    using absorb_index_hit [OF ok, of n] absorb_index_miss [OF ok, of n] n room(1) by (cases "n \<in> set bl") auto
  have c: "\<not> (int LOGSIZE \<le> lh_n s \<or> lg_size s - 1 \<le> lh_n s)" "\<not> lg_outstanding s < 1"
    using room out by (simp_all add: n)
  have e: "(if int (absorb_index s n) = lh_n s then u\<lparr>lh_n := lh_n s + 1\<rparr> else u) =
      u\<lparr>lh_n := int (length (absorb bl n))\<rparr>" if "lh_n u = lh_n s" for u :: "'a log_st_scheme"
  proof (cases "n \<in> set bl")
    case True
    then have "int (absorb_index s n) \<noteq> lh_n s" "u\<lparr>lh_n := int (length bl)\<rparr> = u"
      using absorb_index_hit [OF ok True] n that by (cases u; simp)+
    then show ?thesis
      using True by (simp add: absorb_def)
  qed (use absorb_index_miss [OF ok] n in \<open>simp add: absorb_def add.commute\<close>)
  let ?v = "s\<lparr>lh_block := (lh_block s)[absorb_index s n := n]\<rparr>"
  have v: "lh_n ?v = lh_n s" and o: "?v\<lparr>lh_n := k\<rparr> = s\<lparr>lh_n := k, lh_block := (lh_block s)[absorb_index s n := n]\<rparr>" for k
    by simp_all
  show ?thesis
    unfolding log_write_def
    by (simp only: kbind_def kget_def out.case c if_False lh_set_def kassert_def bn i if_True kmod_def v o e [OF v, unfolded o])
qed

lemma log_ok_absorb:
  assumes ok: "log_ok s bl" and n: "n < length (disk s)" "n \<notin> log_region s"
    and room: "length bl + 1 < LOGSIZE" "int (length bl) + 1 < lg_size s"
  shows "log_ok (s\<lparr>lh_n := int (length (absorb bl n)), lh_block := (lh_block s)[absorb_index s n := n]\<rparr>) (absorb bl n)"
proof (cases "n \<in> set bl")
  case True
  then have i: "absorb_index s n < length bl" "bl ! absorb_index s n = n"
    using absorb_index_hit [OF ok] by auto
  then have "lh_block s ! absorb_index s n = n"
    using log_okD(1) [OF ok i(1)] by simp
  then have "(lh_block s)[absorb_index s n := n] = lh_block s"
    by (metis list_update_id)
  then show ?thesis
    using ok True by (simp add: absorb_def log_ok_def log_region_def running_ok_def)
next
  case False
  then have i: "absorb_index s n = length bl"
    using absorb_index_miss [OF ok] by simp
  have "length bl < length (lh_block s)" "take (length bl) (lh_block s) = bl"
    using ok by (simp_all add: log_ok_def)
  then have "take (length bl + 1) ((lh_block s)[length bl := n]) = bl @ [n]"
    by (simp add: take_Suc_conv_app_nth)
  then show ?thesis
    using ok n room False by (auto simp: i absorb_def log_ok_def log_region_def running_ok_def)
qed

lemma log_write_ok:
  assumes tx: "txn s bl" and h: "hold s b n" and n: "n \<notin> log_region s"
    and room: "length bl + 1 < LOGSIZE" "int (length bl) + 1 < lg_size s"
  shows "wp (log_write b) (\<lambda>_. logged s b n bl) s"
proof -
  let ?u = "s\<lparr>lh_n := int (length (absorb bl n)), lh_block := (lh_block s)[absorb_index s n := n]\<rparr>"
  let ?t = "upd_buf b (\<lambda>x. x\<lparr>b_dirty := True\<rparr>) ?u"
  have inv: "bcache_inv s" "log_ok s bl" "bdirty s = set bl" "1 \<le> lg_outstanding s"
    using tx by (simp_all add: txn_def)
  have u: "bcache_inv ?u" "hold ?u b n" "log_ok ?u (absorb bl n)"
    using inv h log_ok_absorb [OF inv(2) hold_range [OF inv(1) h] n room] by simp_all
  note d = set_dirty [OF u(1,2)]
  have fr: "bio_frame ?u ?t"
    by (rule bio_frame_upd_buf)
  have "txn ?t (absorb bl n)"
    using d log_ok_frame [OF u(3) fr] bio_frame_log(6) [OF fr] inv by (auto simp: txn_def upd_post_def absorb_def)
  moreover have "fs_frame s ?t"
    by (simp add: fs_frame_def upd_buf_def)
  ultimately have "logged s b n bl ?t"
    using d by (simp add: logged_def upd_post_def)
  then show ?thesis
    by (simp add: wp_def log_write_state [OF tx h room])
qed

section \<open>Ending a transaction\<close>

text \<open>The home blocks after a commit.\<close>

lemma commit_home:
  assumes inv: "bcache_inv s" "bbusy s = {}" and ok: "log_ok s bl" and d: "bdirty s = set bl"
    and c: "commit_post s bl t" and m: "m \<notin> log_region s"
  shows "bview t m = bview s m" "m < length (disk s) \<Longrightarrow> disk t ! m = bview s m"
proof -
  have ms: "m \<noteq> lg_start s" "m \<notin> fst ` set (log_writes s bl)"
    using m ok by (auto simp: log_region_def log_ok_def fst_log_writes)
  have v: "bview t = vput (bview s) (commit_writes s bl)"
    using c by (simp add: commit_post_def)
  show bv: "bview t m = bview s m"
  proof (cases "m \<in> set bl")
    case True
    have "distinct (map fst (map (\<lambda>b. (b, bview s b)) bl))"
      using ok by (simp add: log_ok_def comp_def)
    then show ?thesis
      unfolding v commit_writes_def using True ms by (simp, intro vput_hit) auto
  next
    case False
    then show ?thesis
      unfolding v commit_writes_def using ms by (simp add: vput_other image_image)
  qed
  have "bcache_inv t" "bbusy t = {}" "bdirty t = {}"
    using c by (simp_all add: commit_post_def)
  then show "disk t ! m = bview s m"
    using bview_clean [of t m] bv by simp
qed

definition op_ended :: "'a log_st_scheme \<Rightarrow> 'a log_st_scheme \<Rightarrow> bool" where
  "op_ended s t \<longleftrightarrow> bcache_inv t \<and> bbusy t = {} \<and> bdirty t = {} \<and> lh_n t = 0 \<and> lg_outstanding t = 0 \<and>
     \<not> lg_committing t \<and> lg_start t = lg_start s \<and> lg_size t = lg_size s \<and>
     length (disk t) = length (disk s) \<and>
     (\<forall>m < length (disk s). m \<notin> log_region s \<longrightarrow> bview t m = bview s m \<and> disk t ! m = bview s m)"

lemma log_cache_fields [simp]:
  "bcache_inv (s\<lparr>lg_outstanding := n\<rparr>) = bcache_inv s" "bcache_inv (s\<lparr>lg_committing := c\<rparr>) = bcache_inv s"
  "bbusy (s\<lparr>lg_outstanding := n\<rparr>) = bbusy s" "bbusy (s\<lparr>lg_committing := c\<rparr>) = bbusy s"
  "bdirty (s\<lparr>lg_outstanding := n\<rparr>) = bdirty s" "bdirty (s\<lparr>lg_committing := c\<rparr>) = bdirty s"
  "bview (s\<lparr>lg_outstanding := n\<rparr>) = bview s" "bview (s\<lparr>lg_committing := c\<rparr>) = bview s"
  "log_ok (s\<lparr>lg_outstanding := n\<rparr>) bl = log_ok s bl" "log_ok (s\<lparr>lg_committing := c\<rparr>) bl = log_ok s bl"
  "bcache_inv (s\<lparr>ptable := ps\<rparr>) = bcache_inv s" "bbusy (s\<lparr>ptable := ps\<rparr>) = bbusy s"
  "bdirty (s\<lparr>ptable := ps\<rparr>) = bdirty s" "bview (s\<lparr>ptable := ps\<rparr>) = bview s"
  by (auto simp: bcache_inv_def lru_def bbusy_def bdirty_def bview_def fun_eq_iff log_ok_def log_region_def running_ok_def
      split: option.split)

lemma commit_any:
  assumes inv: "bcache_inv s" "bbusy s = {}" and ok: "log_ok s bl" and d: "bdirty s = set bl"
  shows "wp commit (\<lambda>_ t. bcache_inv t \<and> bbusy t = {} \<and> bdirty t = {} \<and> bio_frame (s\<lparr>lh_n := 0\<rparr>) t \<and>
    (\<forall>m < length (disk s). m \<notin> log_region s \<longrightarrow> bview t m = bview s m \<and> disk t ! m = bview s m)) s"
proof (cases "bl = []")
  case True
  then have n: "lh_n s = 0" and d0: "bdirty s = {}"
    using ok d by (simp_all add: log_ok_def)
  have e: "s\<lparr>lh_n := 0\<rparr> = s"
    using n by (cases s) simp
  have "bview s m = disk s ! m" for m
    using bview_clean [of s m] inv d0 by simp
  then show ?thesis
    unfolding e using inv d0 n by (simp add: commit_def)
next
  case False
  show ?thesis
    by (rule wp_mono [OF commit_ok [OF inv ok d False]])
      (use commit_home [OF inv ok d] in \<open>auto simp: commit_post_def\<close>)
qed

lemma end_op_ok:
  assumes tx: "txn s bl" and busy: "bbusy s = {}" and one: "lg_outstanding s = 1" and nc: "\<not> lg_committing s"
  shows "wp end_op (\<lambda>_. op_ended s) s"
proof -
  let ?s = "s\<lparr>lg_outstanding := 0, lg_committing := True\<rparr>"
  have "bcache_inv ?s" "bbusy ?s = {}" "log_ok ?s bl" "bdirty ?s = set bl"
    using tx busy by (simp_all add: txn_def)
  from commit_any [OF this]
  have "wp commit (\<lambda>_ t. wp (kbind (kmod (\<lambda>s. s\<lparr>lg_committing := False\<rparr>)) (\<lambda>_. wakeup ChLog)) (\<lambda>_. op_ended s) t) ?s"
  proof (rule wp_mono, elim conjE)
    fix x t
    assume t: "bcache_inv t" "bbusy t = {}" "bdirty t = {}" "bio_frame (?s\<lparr>lh_n := 0\<rparr>) t"
      and m: "\<forall>m < length (disk ?s). m \<notin> log_region ?s \<longrightarrow> bview t m = bview ?s m \<and> disk t ! m = bview ?s m"
    have "lh_n t = 0" "lg_outstanding t = 0" "lg_start t = lg_start s" "lg_size t = lg_size s"
      "length (disk t) = length (disk s)"
      using bio_frame_log [OF t(4)] t(4) by (auto simp: bio_frame_def)
    then show "wp (kbind (kmod (\<lambda>s. s\<lparr>lg_committing := False\<rparr>)) (\<lambda>_. wakeup ChLog)) (\<lambda>_. op_ended s) t"
      using t m by (simp add: wakeup_def op_ended_def log_region_def)
  qed
  then have "wp (kbind commit (\<lambda>_. kbind (kmod (\<lambda>s. s\<lparr>lg_committing := False\<rparr>)) (\<lambda>_. wakeup ChLog))) (\<lambda>_. op_ended s) ?s"
    unfolding wp_kbind [of commit] .
  then show ?thesis
    using one nc by (simp add: end_op_def)
qed

section \<open>Properties\<close>

text \<open>
  C1: A crash during a commit is atomic.  Take a transaction that has logged the blocks \<open>bl\<close>, on a
  disk whose log is empty.  \<^verbatim>\<open>commit\<close> returns, and whatever number \<open>k\<close> of its block writes have
  reached the disk when the machine stops: if the next boot starts with an empty cache on that
  disk, \<^verbatim>\<open>recover_from_log\<close> returns, empties the log, and every block outside the log has its
  contents from before the transaction if the header had not been written (\<open>k \<le> length bl\<close>), and
  from after the transaction otherwise.  No mixture of the two can be seen.
\<close>

theorem commit_crash_atomic:
  assumes "bcache_inv s" "bbusy s = {}" "log_ok s bl" "bdirty s = set bl" "bl \<noteq> []"
    and "get32 (disk s ! lg_start s) 0 = 0"
  shows "wp commit (\<lambda>_ t. \<exists>ws. dtrace t = dtrace s @ ws \<and> disk t = dput (disk s) ws \<and> length ws = 2 * length bl + 2 \<and>
    (\<forall>k \<le> length ws. \<forall>r. fresh_cache r \<and> lg_start r = lg_start s \<and> lg_size r = lg_size s \<and>
       disk r = dput (disk s) (take k ws) \<longrightarrow>
       wp recover_from_log (\<lambda>_ u. get32 (disk u ! lg_start s) 0 = 0 \<and>
         (\<forall>m < length (disk s). m \<notin> log_region s \<longrightarrow>
            disk u ! m = (if k \<le> length bl then disk s ! m else bview s m))) r)) s"
proof (rule wp_mono [OF commit_ok [OF assms(1-5)]])
  fix x t assume t: "commit_post s bl t"
  have len: "length (commit_writes s bl) = length bl + 1 + length bl + 1"
    by (simp add: commit_writes_def)
  have main: "wp recover_from_log (\<lambda>_ u. get32 (disk u ! lg_start s) 0 = 0 \<and>
         (\<forall>m < length (disk s). m \<notin> log_region s \<longrightarrow>
            disk u ! m = (if k \<le> length bl then disk s ! m else bview s m))) r"
    if k: "k \<le> length (commit_writes s bl)" and r: "fresh_cache r" "lg_start r = lg_start s" "lg_size r = lg_size s"
       "disk r = dput (disk s) (take k (commit_writes s bl))" for k r
  proof -
    consider "k \<le> length bl" | "length bl < k" "k \<le> length bl + 1 + length bl" | "k = length (commit_writes s bl)"
      using k len by linarith
    then show ?thesis
    proof cases
      case 1
      then show ?thesis
        using crash_old [OF assms(3,6) 1 r] by simp
    next
      case 2
      then obtain j where j: "k = length bl + 1 + j" "j \<le> length bl"
        by (metis Suc_eq_plus1 add_le_cancel_left le_Suc_ex less_eq_Suc_le)
      then show ?thesis
        using crash_new [OF assms(1-4) j(2) r(1-3)] r(4) 2 by simp
    next
      case 3
      then show ?thesis
        using crash_done [OF assms(1-4) r(1-3)] r(4) len by simp
    qed
  qed
  show "\<exists>ws. dtrace t = dtrace s @ ws \<and> disk t = dput (disk s) ws \<and> length ws = 2 * length bl + 2 \<and>
    (\<forall>k \<le> length ws. \<forall>r. fresh_cache r \<and> lg_start r = lg_start s \<and> lg_size r = lg_size s \<and>
       disk r = dput (disk s) (take k ws) \<longrightarrow>
       wp recover_from_log (\<lambda>_ u. get32 (disk u ! lg_start s) 0 = 0 \<and>
         (\<forall>m < length (disk s). m \<notin> log_region s \<longrightarrow>
            disk u ! m = (if k \<le> length bl then disk s ! m else bview s m))) r)"
  proof (intro exI [of _ "commit_writes s bl"] conjI allI impI)
    show "dtrace t = dtrace s @ commit_writes s bl" "disk t = dput (disk s) (commit_writes s bl)"
      using t by (simp_all add: commit_post_def)
    show "length (commit_writes s bl) = 2 * length bl + 2"
      by (simp add: len)
  qed (rule main; simp)
qed

text \<open>A small disk with an empty four-block log at block 2, and a transaction on block 7.\<close>

definition log_boot :: log_st where
  "log_boot = \<lparr>mem = (\<lambda>_. 0), kern_end = 0, kern_data = 0, use_lock = False, freelist = 0,
     ptable = [running 1], nextpid = 1, initproc = None, numofthread = 0, cur = Some 0, ticks = 0,
     forkret_addr = 0, trapret_addr = 0,
     bufs = replicate (NBUF + 1) zero_buf, disk = replicate 12 (replicate BSIZE 0), dtrace = [],
     lg_start = 2, lg_size = 4, lg_outstanding = 1, lg_committing = False, lg_dev = 1, lh_n = 0,
     lh_block = replicate LOGSIZE 0\<rparr>"

definition demo_op :: "(log_st, unit) kop" where
  "demo_op = kbind binit (\<lambda>_. kbind (bread 1 7) (\<lambda>b.
     kbind (set_buf_data b (\<lambda>_. replicate BSIZE 9)) (\<lambda>_. kbind (log_write b) (\<lambda>_. brelse b))))"

definition demo_txn :: "log_st \<Rightarrow> bool" where
  "demo_txn s \<longleftrightarrow> txn s [7] \<and> bbusy s = {} \<and> bview s 7 = replicate BSIZE 9 \<and>
     disk s = replicate 12 (replicate BSIZE 0) \<and> lg_start s = 2 \<and> lg_size s = 4 \<and> lg_outstanding s = 1 \<and>
     \<not> lg_committing s"

lemma log_boot_binit:
  "wp binit (\<lambda>_ s. txn s [] \<and> bbusy s = {} \<and> disk s = replicate 12 (replicate BSIZE 0) \<and>
     lg_start s = 2 \<and> lg_size s = 4 \<and> lg_outstanding s = 1 \<and> \<not> lg_committing s) log_boot"
proof (rule wp_mono [OF binit_inv])
  fix x t
  assume t: "bcache_inv t \<and> bview t = (!) (disk log_boot) \<and> bbusy t = {} \<and> bdirty t = {} \<and> relinked log_boot t"
  then have fr: "bio_frame log_boot t"
    using relinked_obs(5) by blast
  have "log_ok log_boot []"
    by (simp add: log_boot_def log_ok_def running_ok_def LOGSIZE_def MAXOPBLOCKS_def)
  then have "log_ok t []"
    using fr by (rule log_ok_frame)
  then show "txn t [] \<and> bbusy t = {} \<and> disk t = replicate 12 (replicate BSIZE 0) \<and>
     lg_start t = 2 \<and> lg_size t = 4 \<and> lg_outstanding t = 1 \<and> \<not> lg_committing t"
    using t bio_frame_log [OF fr] relinked_rest(1) [of log_boot t] by (simp add: txn_def log_boot_def)
qed (simp_all add: log_boot_def)

lemma of_le_zero [simp]: "of_le (replicate n 0) = 0"
  by (induction n) simp_all

lemma demo_op_ok: "wp demo_op (\<lambda>_. demo_txn) log_boot"
  unfolding demo_op_def
proof (rule wp_step [OF log_boot_binit], elim conjE)
  fix x :: unit and s :: log_st
  assume s: "txn s []" "bbusy s = {}" "disk s = replicate 12 (replicate BSIZE 0)" "lg_start s = 2" "lg_size s = 4"
    "lg_outstanding s = 1" "\<not> lg_committing s"
  then have inv: "bcache_inv s" "running_ok s" "log_region s = {2..<6}"
    by (auto simp: txn_def log_ok_def log_region_def)
  show "wp (kbind (bread 1 7) (\<lambda>b. kbind (set_buf_data b (\<lambda>_. replicate BSIZE 9)) (\<lambda>_.
     kbind (log_write b) (\<lambda>_. brelse b)))) (\<lambda>_. demo_txn) s"
  proof (rule wp_step [OF bread_run [OF inv(1,2)]])
    fix b u assume u: "bread_post s 7 b u"
    have txu: "txn u []"
      using u s(1) bio_frame_log(6) [of s u] log_ok_frame [of s "[]" u] by (auto simp: bread_post_def txn_def)
    show "wp (kbind (set_buf_data b (\<lambda>_. replicate BSIZE 9)) (\<lambda>_. kbind (log_write b) (\<lambda>_. brelse b))) (\<lambda>_. demo_txn) u"
    proof (rule wp_step [OF wp_set_buf_data])
      fix y v assume v: "set_post u b 7 (replicate BSIZE 9) v"
      have fv: "bio_frame s v"
        using u v by (auto simp: bread_post_def set_post_def upd_post_def intro: bio_frame_trans)
      have txv: "txn v []"
        using v txu bio_frame_log(6) [of u v] log_ok_frame [of u "[]" v] by (auto simp: set_post_def upd_post_def txn_def)
      show "wp (kbind (log_write b) (\<lambda>_. brelse b)) (\<lambda>_. demo_txn) v"
      proof (rule wp_step [OF log_write_ok [OF txv]])
        show "hold v b 7"
          using v by (simp add: set_post_def upd_post_def)
        show "7 \<notin> log_region v" "int (length []) + 1 < lg_size v"
          using bio_frame_log [OF fv] inv s by (simp_all add: log_region_def)
        fix z w assume w: "logged v b 7 [] w"
        then have w': "bcache_inv w" "hold w b 7" "7 \<in> bdirty w \<or> bview w 7 = disk w ! 7" "txn w [7]"
          by (auto simp: logged_def txn_def absorb_def)
        show "wp (brelse b) (\<lambda>_. demo_txn) w"
        proof (rule wp_mono [OF brelse_ok [OF w'(1-3)]])
          fix q r assume r: "brelse_post w 7 b r"
          then have fr: "bio_frame w r" by (simp add: brelse_post_def)
          show "demo_txn r"
            using r w w' u v s fs_frame_log [of v w] bio_frame_log [OF fv] bio_frame_log [OF fr] log_ok_frame [OF _ fr]
            by (auto simp: demo_txn_def txn_def logged_def set_post_def upd_post_def bread_post_def brelse_post_def)
        qed
      qed (simp add: LOGSIZE_def MAXOPBLOCKS_def)
    qed (use u in \<open>auto simp: bread_post_def\<close>)
  qed (use s in \<open>auto simp: txn_def NBUF_def MAXOPBLOCKS_def\<close>)
qed

theorem commit_crash_atomic_witness:
  "wp (kbind demo_op (\<lambda>_. commit)) (\<lambda>_ t. \<exists>ws. disk t = dput (replicate 12 (replicate BSIZE 0)) ws \<and> length ws = 4 \<and>
     (\<forall>r :: log_st. fresh_cache r \<and> lg_start r = 2 \<and> lg_size r = 4 \<and>
        disk r = dput (replicate 12 (replicate BSIZE 0)) (take 2 ws) \<longrightarrow>
        wp recover_from_log (\<lambda>_ u. disk u ! 7 = replicate BSIZE 9) r)) log_boot"
proof (rule wp_step [OF demo_op_ok])
  fix x s assume s: "demo_txn s"
  then have "bcache_inv s" "bbusy s = {}" "log_ok s [7]" "bdirty s = set [7]" "[7 :: nat] \<noteq> []"
    by (simp_all add: demo_txn_def txn_def)
  moreover have "get32 (disk s ! lg_start s) 0 = 0"
    using s by (simp add: demo_txn_def get32_def peek_def BSIZE_def)
  ultimately show "wp commit (\<lambda>_ t. \<exists>ws. disk t = dput (replicate 12 (replicate BSIZE 0)) ws \<and> length ws = 4 \<and>
     (\<forall>r :: log_st. fresh_cache r \<and> lg_start r = 2 \<and> lg_size r = 4 \<and>
        disk r = dput (replicate 12 (replicate BSIZE 0)) (take 2 ws) \<longrightarrow>
        wp recover_from_log (\<lambda>_ u. disk u ! 7 = replicate BSIZE 9) r)) s"
  proof (rule wp_mono [OF commit_crash_atomic], elim exE conjE)
    fix y t ws
    assume d: "disk t = dput (disk s) ws" and l: "length ws = 2 * length [7 :: nat] + 2"
      and k: "\<forall>k \<le> length ws. \<forall>r :: log_st. fresh_cache r \<and> lg_start r = lg_start s \<and> lg_size r = lg_size s \<and>
       disk r = dput (disk s) (take k ws) \<longrightarrow>
       wp recover_from_log (\<lambda>_ u. get32 (disk u ! lg_start s) 0 = 0 \<and>
         (\<forall>m < length (disk s). m \<notin> log_region s \<longrightarrow>
            disk u ! m = (if k \<le> length [7 :: nat] then disk s ! m else bview s m))) r"
    have s': "disk s = replicate 12 (replicate BSIZE 0)" "lg_start s = 2" "lg_size s = 4" "bview s 7 = replicate BSIZE 9"
      "log_region s = {2..<6}"
      using s by (auto simp: demo_txn_def log_region_def)
    have "wp recover_from_log (\<lambda>_ u. disk u ! 7 = replicate BSIZE 9) r"
      if "fresh_cache r" "lg_start r = 2" "lg_size r = 4" "disk r = dput (replicate 12 (replicate BSIZE 0)) (take 2 ws)" for r :: log_st
      using k [rule_format, of 2 r] that l s' by (auto elim!: wp_mono)
    then show "\<exists>ws. disk t = dput (replicate 12 (replicate BSIZE 0)) ws \<and> length ws = 4 \<and>
     (\<forall>r :: log_st. fresh_cache r \<and> lg_start r = 2 \<and> lg_size r = 4 \<and>
        disk r = dput (replicate 12 (replicate BSIZE 0)) (take 2 ws) \<longrightarrow>
        wp recover_from_log (\<lambda>_ u. disk u ! 7 = replicate BSIZE 9) r)"
      using d l s' by (intro exI [of _ ws]) simp
  qed
qed

text \<open>
  C2: The outermost \<^verbatim>\<open>end_op\<close> makes its transaction durable.  When the last operation of a
  transaction ends, \<^verbatim>\<open>end_op\<close> returns (the commit finds all buffers it needs, although every
  logged block is pinned in the cache), the log is empty and open again, nothing in the cache is
  newer than the disk, and every block outside the log has on the disk the contents the
  transaction had given it.
\<close>

theorem end_op_durable:
  assumes "txn s bl" "bbusy s = {}" "lg_outstanding s = 1" "\<not> lg_committing s"
  shows "wp end_op (\<lambda>_ t. bcache_inv t \<and> bdirty t = {} \<and> lh_n t = 0 \<and> lg_outstanding t = 0 \<and>
    \<not> lg_committing t \<and>
    (\<forall>m < length (disk s). m \<notin> log_region s \<longrightarrow> disk t ! m = bview s m \<and> bview t m = bview s m)) s"
  by (rule wp_mono [OF end_op_ok [OF assms]]) (simp add: op_ended_def)

theorem end_op_durable_witness:
  "wp (kbind demo_op (\<lambda>_. end_op)) (\<lambda>_ t. disk t ! 7 = replicate BSIZE 9 \<and> bdirty t = {}) log_boot"
proof (rule wp_step [OF demo_op_ok])
  fix x s assume s: "demo_txn s"
  then have r: "7 < length (disk s)" "7 \<notin> log_region s" "bview s 7 = replicate BSIZE 9"
    by (auto simp: demo_txn_def log_region_def)
  have "wp end_op (\<lambda>_ t. bcache_inv t \<and> bdirty t = {} \<and> lh_n t = 0 \<and> lg_outstanding t = 0 \<and>
    \<not> lg_committing t \<and>
    (\<forall>m < length (disk s). m \<notin> log_region s \<longrightarrow> disk t ! m = bview s m \<and> bview t m = bview s m)) s"
    using s by (intro end_op_durable [of s "[7]"]) (auto simp: demo_txn_def)
  then show "wp end_op (\<lambda>_ t. disk t ! 7 = replicate BSIZE 9 \<and> bdirty t = {}) s"
    by (rule wp_mono) (use r in auto)
qed

text \<open>
  C21: \<^verbatim>\<open>log_write\<close> records the block of a held buffer exactly once (absorbing repeated writes), pins
  the buffer, and keeps the transaction invariant: the recorded blocks are distinct, outside the
  log, and are precisely the blocks whose cached copy is newer than the disk.  It panics when the
  log (of at most \<open>LOGSIZE\<close> blocks) is full.
\<close>

theorem log_write_records_once:
  assumes "txn s bl" "hold s b n" "n \<notin> log_region s" "lg_size s \<le> int LOGSIZE"
  shows "if int (length bl) \<ge> lg_size s - 1
      then log_write b s = Panic ''too big a transaction''
      else wp (log_write b) (\<lambda>_ t. txn t (if n \<in> set bl then bl else bl @ [n]) \<and> hold t b n \<and>
             bview t = bview s \<and> disk t = disk s) s"
proof -
  have ok: "lh_n s = int (length bl)"
    using assms(1) by (simp add: txn_def log_ok_def)
  show ?thesis
  proof (cases "int (length bl) \<ge> lg_size s - 1")
    case True
    then show ?thesis
      by (simp add: log_write_def kbind_def kget_def kpanic_def ok)
  next
    case False
    then have "wp (log_write b) (\<lambda>_. logged s b n bl) s"
      using assms by (intro log_write_ok) auto
    then show ?thesis
      using False by (auto elim!: wp_mono simp: logged_def absorb_def)
  qed
qed

theorem log_write_records_once_witness:
  "wp (kbind binit (\<lambda>_. kbind (bread 1 7) (\<lambda>b. kbind (log_write b) (\<lambda>_. log_write b))))
     (\<lambda>_ t. txn t [7]) log_boot"
proof (rule wp_step [OF log_boot_binit], elim conjE)
  fix x :: unit and s :: log_st
  assume s: "txn s []" "bbusy s = {}" "disk s = replicate 12 (replicate BSIZE 0)" "lg_start s = 2" "lg_size s = 4"
  then have inv: "bcache_inv s" "running_ok s"
    by (auto simp: txn_def log_ok_def)
  show "wp (kbind (bread 1 7) (\<lambda>b. kbind (log_write b) (\<lambda>_. log_write b))) (\<lambda>_ t. txn t [7]) s"
  proof (rule wp_step [OF bread_run [OF inv]])
    fix b u assume u: "bread_post s 7 b u"
    then have fr: "bio_frame s u" by (simp add: bread_post_def)
    have u': "txn u []" "hold u b 7" "7 \<notin> log_region u" "lg_size u = 4"
      using u s bio_frame_log [OF fr] log_ok_frame [OF _ fr] by (auto simp: bread_post_def txn_def log_region_def)
    have "wp (log_write b) (\<lambda>_ t. txn t [7] \<and> hold t b 7 \<and> lg_size t = 4 \<and> 7 \<notin> log_region t) u"
    proof (rule wp_mono [OF log_write_ok [OF u'(1-3)]])
      fix y t assume "logged u b 7 [] t"
      then show "txn t [7] \<and> hold t b 7 \<and> lg_size t = 4 \<and> 7 \<notin> log_region t"
        using u' fs_frame_log [of u t] by (simp add: logged_def absorb_def)
    qed (use u' in \<open>simp_all add: LOGSIZE_def MAXOPBLOCKS_def\<close>)
    then show "wp (kbind (log_write b) (\<lambda>_. log_write b)) (\<lambda>_ t. txn t [7]) u"
    proof (rule wp_step, elim conjE)
      fix y v assume v: "txn v [7]" "hold v b 7" "lg_size v = 4" "7 \<notin> log_region v"
      show "wp (log_write b) (\<lambda>_ t. txn t [7]) v"
        using log_write_records_once [OF v(1,2,4)] v(3) by (auto elim!: wp_mono simp: LOGSIZE_def MAXOPBLOCKS_def)
    qed
  qed (use s in \<open>auto simp: txn_def NBUF_def MAXOPBLOCKS_def\<close>)
qed



end
