(* ===== verification/Vm.thy ===== *)
theory Vm
  imports ProcTable
begin

text \<open>
  The page tables of \<^verbatim>\<open>vm.c\<close>.  Page directories and page tables are pages of the kernel's memory,
  entries are 32-bit words in it, and a kernel virtual address indexes \<open>mem\<close>.  (\<^verbatim>\<open>loaduvm\<close>, which reads
  from the file system, is in theory \<open>Exec\<close>.)  The messages that \<^verbatim>\<open>allocuvm\<close> prints are left out.
\<close>

section \<open>Entries\<close>

definition PDX :: "u32 \<Rightarrow> u32" where "PDX va = drop_bit 22 va AND 0x3FF"
definition PTX :: "u32 \<Rightarrow> u32" where "PTX va = drop_bit 12 va AND 0x3FF"

definition PGADDR :: "u32 \<Rightarrow> u32 \<Rightarrow> u32 \<Rightarrow> u32" where
  "PGADDR d t off = push_bit 22 d OR push_bit 12 t OR off"

definition NPDENTRIES :: nat where "NPDENTRIES = 1024"

definition PTE_P :: u32 where "PTE_P = 1"
definition PTE_W :: u32 where "PTE_W = 2"
definition PTE_U :: u32 where "PTE_U = 4"

definition PTE_ADDR :: "u32 \<Rightarrow> u32" where "PTE_ADDR pte = pte AND NOT 0xFFF"
definition PTE_FLAGS :: "u32 \<Rightarrow> u32" where "PTE_FLAGS pte = pte AND 0xFFF"

definition rd32 :: "u32 \<Rightarrow> ('a kmem_st_scheme, u32) kop" where
  "rd32 a = kget (\<lambda>s. load32 (mem s) a)"

definition wr32 :: "u32 \<Rightarrow> u32 \<Rightarrow> ('a kmem_st_scheme, unit) kop" where
  "wr32 a w = kmod (\<lambda>s. s\<lparr>mem := store32 (mem s) a w\<rparr>)"

definition memset_page :: "u32 \<Rightarrow> ('a kmem_st_scheme, unit) kop" where
  "memset_page a = kmod (\<lambda>s. s\<lparr>mem := memset (mem s) a 0 PGSIZE\<rparr>)"

text \<open>The address of the entry for \<open>va\<close>, 0 for the null pointer.\<close>

definition walkpgdir :: "u32 \<Rightarrow> u32 \<Rightarrow> bool \<Rightarrow> ('a kmem_st_scheme, u32) kop" where
  "walkpgdir pgdir va alloc =
     (let pde = pgdir + 4 * PDX va in
      kbind (rd32 pde) (\<lambda>e.
      if e AND PTE_P \<noteq> 0 then kret (P2V (PTE_ADDR e) + 4 * PTX va)
      else if \<not> alloc then kret 0
      else
        kbind kalloc (\<lambda>pgtab.
        if pgtab = 0 then kret 0
        else
          kbind (memset_page pgtab) (\<lambda>_.
          kbind (wr32 pde (V2P pgtab OR PTE_P OR PTE_W OR PTE_U)) (\<lambda>_.
          kret (pgtab + 4 * PTX va))))))"

text \<open>
  The loop of \<^verbatim>\<open>mappages\<close> with \<open>n\<close> more pages after the one at \<open>a\<close>: both ends are page aligned, so it
  stops after \<^verbatim>\<open>(last - a) / PGSIZE + 1\<close> rounds, also when the address wraps.
\<close>

definition map_one :: "u32 \<Rightarrow> u32 \<Rightarrow> u32 \<Rightarrow> u32 \<Rightarrow> ('a kmem_st_scheme, int) kop" where
  "map_one pgdir a pa perm =
     kbind (walkpgdir pgdir a True) (\<lambda>pte.
     if pte = 0 then kret (- 1)
     else
       kbind (rd32 pte) (\<lambda>e.
       if e AND PTE_P \<noteq> 0 then kpanic ''remap''
       else kseq (wr32 pte (pa OR perm OR PTE_P)) (kret 0)))"

primrec mappages_loop :: "nat \<Rightarrow> u32 \<Rightarrow> u32 \<Rightarrow> u32 \<Rightarrow> u32 \<Rightarrow> ('a kmem_st_scheme, int) kop" where
  "mappages_loop 0 pgdir a pa perm = map_one pgdir a pa perm"
| "mappages_loop (Suc n) pgdir a pa perm =
     kbind (map_one pgdir a pa perm) (\<lambda>r.
     if r < 0 then kret r else mappages_loop n pgdir (a + PGSIZE) (pa + PGSIZE) perm)"

definition mappages :: "u32 \<Rightarrow> u32 \<Rightarrow> u32 \<Rightarrow> u32 \<Rightarrow> u32 \<Rightarrow> ('a kmem_st_scheme, int) kop" where
  "mappages pgdir va sz pa perm =
     (let a = PGROUNDDOWN va; last = PGROUNDDOWN (va + sz - 1)
      in mappages_loop (unat ((last - a) div PGSIZE)) pgdir a pa perm)"

section \<open>Releasing\<close>

text \<open>
  The loop of \<^verbatim>\<open>deallocuvm\<close>.  The address grows in every round, so it passes \<open>oldsz\<close> within \<open>2 ^ 20\<close> rounds,
  unless it wraps to 0, from where the loop repeats for ever.
\<close>

primrec deallocuvm_loop :: "nat \<Rightarrow> u32 \<Rightarrow> u32 \<Rightarrow> u32 \<Rightarrow> ('a kmem_st_scheme, unit) kop" where
  "deallocuvm_loop 0 pgdir a oldsz = khang"
| "deallocuvm_loop (Suc f) pgdir a oldsz =
     (if a < oldsz then
        kbind (walkpgdir pgdir a False) (\<lambda>pte.
        if pte = 0 then deallocuvm_loop f pgdir (PGADDR (PDX a + 1) 0 0 - PGSIZE + PGSIZE) oldsz
        else
          kbind (rd32 pte) (\<lambda>e.
          if e AND PTE_P \<noteq> 0 then
            (if PTE_ADDR e = 0 then kpanic ''kfree''
             else kseq (kfree (P2V (PTE_ADDR e)))
               (kseq (wr32 pte 0) (deallocuvm_loop f pgdir (a + PGSIZE) oldsz)))
          else deallocuvm_loop f pgdir (a + PGSIZE) oldsz))
      else kskip)"

definition deallocuvm :: "u32 \<Rightarrow> u32 \<Rightarrow> u32 \<Rightarrow> ('a kmem_st_scheme, u32) kop" where
  "deallocuvm pgdir oldsz newsz =
     (if newsz \<ge> oldsz then kret oldsz
      else kseq (deallocuvm_loop (2 ^ 20 + 1) pgdir (PGROUNDUP newsz) oldsz) (kret newsz))"

definition freevm :: "u32 \<Rightarrow> ('a kmem_st_scheme, unit) kop" where
  "freevm pgdir =
     (if pgdir = 0 then kpanic ''freevm: no pgdir''
      else
        kbind (deallocuvm pgdir KERNBASE 0) (\<lambda>_.
        kbind (kfor [0..<NPDENTRIES] (\<lambda>i.
          kbind (rd32 (pgdir + 4 * of_nat i)) (\<lambda>e.
          kwhen (e AND PTE_P \<noteq> 0) (kfree (P2V (PTE_ADDR e)))))) (\<lambda>_.
        kfree pgdir)))"

section \<open>The kernel part of an address space\<close>

record kmap_ent =
  km_virt :: u32
  km_phys_start :: u32
  km_phys_end :: u32
  km_perm :: u32

definition kmap :: "u32 \<Rightarrow> kmap_ent list" where
  "kmap kdata =
    [\<lparr>km_virt = KERNBASE, km_phys_start = 0, km_phys_end = EXTMEM, km_perm = PTE_W\<rparr>,
     \<lparr>km_virt = KERNLINK, km_phys_start = V2P KERNLINK, km_phys_end = V2P kdata, km_perm = 0\<rparr>,
     \<lparr>km_virt = kdata, km_phys_start = V2P kdata, km_phys_end = PHYSTOP, km_perm = PTE_W\<rparr>,
     \<lparr>km_virt = DEVSPACE, km_phys_start = DEVSPACE, km_phys_end = 0, km_perm = PTE_W\<rparr>]"

primrec setupkvm_loop :: "u32 \<Rightarrow> kmap_ent list \<Rightarrow> ('a kmem_st_scheme, u32) kop" where
  "setupkvm_loop pgdir [] = kret pgdir"
| "setupkvm_loop pgdir (k # ks) =
     kbind (mappages pgdir (km_virt k) (km_phys_end k - km_phys_start k) (km_phys_start k) (km_perm k)) (\<lambda>r.
     if r < 0 then kseq (freevm pgdir) (kret 0) else setupkvm_loop pgdir ks)"

definition setupkvm :: "('a kmem_st_scheme, u32) kop" where
  "setupkvm =
     kbind kalloc (\<lambda>pgdir.
     if pgdir = 0 then kret 0
     else
       kbind (memset_page pgdir) (\<lambda>_.
       if P2V PHYSTOP > DEVSPACE then kpanic ''PHYSTOP too high''
       else kbind (kget kern_data) (\<lambda>d. setupkvm_loop pgdir (kmap d))))"

section \<open>User memory\<close>

primrec store_bytes :: "memory \<Rightarrow> u32 \<Rightarrow> bytes \<Rightarrow> memory" where
  "store_bytes m a [] = m"
| "store_bytes m a (b # bs) = store_bytes (m(a := b)) (a + 1) bs"

definition load_bytes :: "memory \<Rightarrow> u32 \<Rightarrow> nat \<Rightarrow> bytes" where
  "load_bytes m a n = map (\<lambda>k. m (a + of_nat k)) [0..<n]"

definition inituvm :: "u32 \<Rightarrow> bytes \<Rightarrow> ('a kmem_st_scheme, unit) kop" where
  "inituvm pgdir init =
     (if length init \<ge> unat PGSIZE then kpanic ''inituvm: more than a page''
      else
        kbind kalloc (\<lambda>pg.
        kbind (memset_page pg) (\<lambda>_.
        kbind (mappages pgdir 0 PGSIZE (V2P pg) (PTE_W OR PTE_U)) (\<lambda>_.
        kmod (\<lambda>s. s\<lparr>mem := store_bytes (mem s) pg init\<rparr>)))))"

text \<open>The loop of \<^verbatim>\<open>allocuvm\<close>; \<open>newsz\<close> is below \<open>KERNBASE\<close>, so that \<open>a\<close> reaches it within \<open>2 ^ 20\<close> rounds.\<close>

primrec allocuvm_loop :: "nat \<Rightarrow> u32 \<Rightarrow> u32 \<Rightarrow> u32 \<Rightarrow> u32 \<Rightarrow> ('a kmem_st_scheme, u32) kop" where
  "allocuvm_loop 0 pgdir a oldsz newsz = khang"
| "allocuvm_loop (Suc f) pgdir a oldsz newsz =
     (if a < newsz then
        kbind kalloc (\<lambda>pg.
        if pg = 0 then kseq (deallocuvm pgdir newsz oldsz) (kret 0)
        else
          kbind (memset_page pg) (\<lambda>_.
          kbind (mappages pgdir a PGSIZE (V2P pg) (PTE_W OR PTE_U)) (\<lambda>r.
          if r < 0 then kseq (deallocuvm pgdir newsz oldsz) (kseq (kfree pg) (kret 0))
          else allocuvm_loop f pgdir (a + PGSIZE) oldsz newsz)))
      else kret newsz)"

definition allocuvm :: "u32 \<Rightarrow> u32 \<Rightarrow> u32 \<Rightarrow> ('a kmem_st_scheme, u32) kop" where
  "allocuvm pgdir oldsz newsz =
     (if newsz \<ge> KERNBASE then kret 0
      else if newsz < oldsz then kret oldsz
      else allocuvm_loop (2 ^ 20 + 1) pgdir (PGROUNDUP oldsz) oldsz newsz)"

definition clearpteu :: "u32 \<Rightarrow> u32 \<Rightarrow> ('a kmem_st_scheme, unit) kop" where
  "clearpteu pgdir uva =
     kbind (walkpgdir pgdir uva False) (\<lambda>pte.
     if pte = 0 then kpanic ''clearpteu''
     else kbind (rd32 pte) (\<lambda>e. wr32 pte (e AND NOT PTE_U)))"

text \<open>
  The loop of \<^verbatim>\<open>copyuvm\<close> over the pages below \<open>sz\<close>; the result 0 stands for the \<^verbatim>\<open>bad\<close> exit.  The counter
  wraps only for sizes above \<open>2 ^ 32 - PGSIZE\<close>.
\<close>

primrec copyuvm_loop :: "nat \<Rightarrow> u32 \<Rightarrow> u32 \<Rightarrow> u32 \<Rightarrow> u32 \<Rightarrow> ('a kmem_st_scheme, u32) kop" where
  "copyuvm_loop 0 pgdir d i sz = khang"
| "copyuvm_loop (Suc f) pgdir d i sz =
     (if i < sz then
        kbind (walkpgdir pgdir i False) (\<lambda>pte.
        if pte = 0 then kpanic ''copyuvm: pte should exist''
        else
          kbind (rd32 pte) (\<lambda>e.
          if e AND PTE_P = 0 then kpanic ''copyuvm: page not present''
          else
            kbind kalloc (\<lambda>pg.
            if pg = 0 then kret 0
            else
              kbind (kmod (\<lambda>s. s\<lparr>mem := memmove (mem s) pg (P2V (PTE_ADDR e)) PGSIZE\<rparr>)) (\<lambda>_.
              kbind (mappages d i PGSIZE (V2P pg) (PTE_FLAGS e)) (\<lambda>r.
              if r < 0 then kseq (kfree pg) (kret 0)
              else copyuvm_loop f pgdir d (i + PGSIZE) sz)))))
      else kret d)"

definition copyuvm :: "u32 \<Rightarrow> u32 \<Rightarrow> ('a kmem_st_scheme, u32) kop" where
  "copyuvm pgdir sz =
     kbind setupkvm (\<lambda>d.
     if d = 0 then kret 0
     else
       kbind (copyuvm_loop (2 ^ 20 + 1) pgdir d 0 sz) (\<lambda>r.
       if r = 0 then kseq (freevm d) (kret 0) else kret r))"

text \<open>\<^verbatim>\<open>uva2ka\<close> dereferences what \<^verbatim>\<open>walkpgdir\<close> returns without a test.\<close>

definition uva2ka :: "u32 \<Rightarrow> u32 \<Rightarrow> ('a kmem_st_scheme, u32) kop" where
  "uva2ka pgdir uva =
     kbind (walkpgdir pgdir uva False) (\<lambda>pte.
     if pte = 0 then kfault
     else
       kbind (rd32 pte) (\<lambda>e.
       if e AND PTE_P = 0 then kret 0
       else if e AND PTE_U = 0 then kret 0
       else kret (P2V (PTE_ADDR e))))"

text \<open>The number of bytes that one round of \<^verbatim>\<open>copyout\<close> writes at \<open>va\<close>.\<close>

definition copyout_n :: "u32 \<Rightarrow> nat \<Rightarrow> nat" where
  "copyout_n va len = min (unat (PGSIZE - (va - PGROUNDDOWN va))) len"

primrec copyout_loop :: "nat \<Rightarrow> u32 \<Rightarrow> u32 \<Rightarrow> bytes \<Rightarrow> ('a kmem_st_scheme, int) kop" where
  "copyout_loop 0 pgdir va buf = (if buf = [] then kret 0 else khang)"
| "copyout_loop (Suc f) pgdir va buf =
     (if buf = [] then kret 0
      else
        (let va0 = PGROUNDDOWN va in
         kbind (uva2ka pgdir va0) (\<lambda>pa0.
         if pa0 = 0 then kret (- 1)
         else
           (let n = copyout_n va (length buf) in
            kbind (kmod (\<lambda>s. s\<lparr>mem := store_bytes (mem s) (pa0 + (va - va0)) (take n buf)\<rparr>)) (\<lambda>_.
            copyout_loop f pgdir (va0 + PGSIZE) (drop n buf))))))"

definition copyout :: "u32 \<Rightarrow> u32 \<Rightarrow> bytes \<Rightarrow> ('a kmem_st_scheme, int) kop" where
  "copyout pgdir va buf = copyout_loop (length buf) pgdir va buf"

text \<open>The checks of \<^verbatim>\<open>switchuvm\<close>; the task segment and the page-table register are in theory \<open>Segs\<close>.\<close>

definition switchuvm :: "nat option \<Rightarrow> ('a proc_st_scheme, unit) kop" where
  "switchuvm p =
     (case p of
        None \<Rightarrow> kpanic ''switchuvm: no process''
      | Some i \<Rightarrow>
          kbind (kget (\<lambda>s. ptable s ! i)) (\<lambda>x.
          if p_kstack x = 0 then kpanic ''switchuvm: no kstack''
          else if p_pgdir x = 0 then kpanic ''switchuvm: no pgdir''
          else kskip))"

text \<open>
  User memory as the processor sees it in an address space: the kernel address a user address
  translates to, if the page is present and accessible from user mode.
\<close>

definition translate :: "memory \<Rightarrow> u32 \<Rightarrow> u32 \<Rightarrow> u32 option" where
  "translate m pgdir va =
     (let e = load32 m (pgdir + 4 * PDX va) in
      if e AND PTE_P = 0 then None
      else
        (let q = load32 m (P2V (PTE_ADDR e) + 4 * PTX va) in
         if q AND PTE_P = 0 \<or> q AND PTE_U = 0 then None
         else Some (P2V (PTE_ADDR q) + (va AND 0xFFF))))"

end
