(* ===== verification/Segs.thy ===== *)
theory Segs
  imports Vm
begin

text \<open>
  Segment and gate descriptors: the macros of \<^verbatim>\<open>mmu.h\<close>, \<^verbatim>\<open>seginit\<close> and the task segment of \<^verbatim>\<open>switchuvm\<close> in \<^verbatim>\<open>vm.c\<close>,
  and \<^verbatim>\<open>tvinit\<close> of \<^verbatim>\<open>trap.c\<close>.  Bit fields are words of their width.
\<close>

section \<open>Segment descriptors\<close>

record segdesc =
  lim_15_0 :: u16
  base_15_0 :: u16
  base_23_16 :: u8
  sd_type :: "4 word"
  sd_s :: "1 word"
  sd_dpl :: "2 word"
  sd_p :: "1 word"
  lim_19_16 :: "4 word"
  sd_avl :: "1 word"
  sd_rsv1 :: "1 word"
  sd_db :: "1 word"
  sd_g :: "1 word"
  base_31_24 :: u8

definition SEG :: "4 word \<Rightarrow> u32 \<Rightarrow> u32 \<Rightarrow> 2 word \<Rightarrow> segdesc" where
  "SEG ty base lim dpl =
     \<lparr>lim_15_0 = ucast (drop_bit 12 lim), base_15_0 = ucast base, base_23_16 = ucast (drop_bit 16 base),
      sd_type = ty, sd_s = 1, sd_dpl = dpl, sd_p = 1, lim_19_16 = ucast (drop_bit 28 lim),
      sd_avl = 0, sd_rsv1 = 0, sd_db = 1, sd_g = 1, base_31_24 = ucast (drop_bit 24 base)\<rparr>"

definition SEG16 :: "4 word \<Rightarrow> u32 \<Rightarrow> u32 \<Rightarrow> 2 word \<Rightarrow> segdesc" where
  "SEG16 ty base lim dpl =
     \<lparr>lim_15_0 = ucast lim, base_15_0 = ucast base, base_23_16 = ucast (drop_bit 16 base),
      sd_type = ty, sd_s = 1, sd_dpl = dpl, sd_p = 1, lim_19_16 = ucast (drop_bit 16 lim),
      sd_avl = 0, sd_rsv1 = 0, sd_db = 1, sd_g = 0, base_31_24 = ucast (drop_bit 24 base)\<rparr>"

definition NSEGS :: nat where "NSEGS = 6"
definition SEG_KCODE :: nat where "SEG_KCODE = 1"
definition SEG_KDATA :: nat where "SEG_KDATA = 2"
definition SEG_TSS :: nat where "SEG_TSS = 5"

definition STA_X :: "4 word" where "STA_X = 8"
definition STA_W :: "4 word" where "STA_W = 2"
definition STA_R :: "4 word" where "STA_R = 2"
definition STS_T32A :: "4 word" where "STS_T32A = 9"
definition STS_IG32 :: "4 word" where "STS_IG32 = 14"
definition STS_TG32 :: "4 word" where "STS_TG32 = 15"

text \<open>\<^verbatim>\<open>seginit\<close> on the descriptor table of its CPU.\<close>

definition seginit :: "segdesc list \<Rightarrow> segdesc list" where
  "seginit gdt = gdt
     [1 := SEG (STA_X OR STA_R) 0 0xffffffff 0, 2 := SEG STA_W 0 0xffffffff 0,
      3 := SEG (STA_X OR STA_R) 0 0xffffffff 3, 4 := SEG STA_W 0 0xffffffff 3]"

text \<open>The part of a task state that the kernel sets, and the hardware state \<^verbatim>\<open>switchuvm\<close> loads.\<close>

record cpu_hw =
  gdt :: "segdesc list"
  ts_ss0 :: u16
  ts_esp0 :: u32
  ts_iomb :: u16
  cr3 :: u32

definition load_task :: "u32 \<Rightarrow> proc \<Rightarrow> cpu_hw \<Rightarrow> cpu_hw" where
  "load_task ts_addr p c =
     c\<lparr>gdt := (gdt c)[SEG_TSS := (SEG16 STS_T32A ts_addr 103 0)\<lparr>sd_s := 0\<rparr>],
       ts_ss0 := 16, ts_esp0 := p_kstack p + KSTACKSIZE, ts_iomb := 0xFFFF, cr3 := V2P (p_pgdir p)\<rparr>"

section \<open>Gates\<close>

record gatedesc =
  off_15_0 :: u16
  gd_cs :: u16
  gd_args :: "5 word"
  gd_rsv1 :: "3 word"
  gd_type :: "4 word"
  gd_s :: "1 word"
  gd_dpl :: "2 word"
  gd_p :: "1 word"
  off_31_16 :: u16

definition SETGATE :: "bool \<Rightarrow> u16 \<Rightarrow> u32 \<Rightarrow> 2 word \<Rightarrow> gatedesc" where
  "SETGATE istrap sel off d =
     \<lparr>off_15_0 = ucast off, gd_cs = sel, gd_args = 0, gd_rsv1 = 0,
      gd_type = (if istrap then STS_TG32 else STS_IG32), gd_s = 0, gd_dpl = d, gd_p = 1,
      off_31_16 = ucast (drop_bit 16 off)\<rparr>"

definition T_SYSCALL :: nat where "T_SYSCALL = 64"

definition tvinit :: "u32 list \<Rightarrow> gatedesc list" where
  "tvinit vectors =
     (map (\<lambda>i. SETGATE False 8 (vectors ! i) 0) [0..<256])
     [T_SYSCALL := SETGATE True 8 (vectors ! T_SYSCALL) 3]"

section \<open>What the processor reads back\<close>

definition gate_offset :: "gatedesc \<Rightarrow> u32" where
  "gate_offset g = push_bit 16 (ucast (off_31_16 g)) OR ucast (off_15_0 g)"

definition seg_base :: "segdesc \<Rightarrow> u32" where
  "seg_base d = push_bit 24 (ucast (base_31_24 d)) OR push_bit 16 (ucast (base_23_16 d)) OR ucast (base_15_0 d)"

definition seg_limit :: "segdesc \<Rightarrow> u32" where
  "seg_limit d =
     (let l = push_bit 16 (ucast (lim_19_16 d)) OR ucast (lim_15_0 d)
      in if sd_g d = 1 then push_bit 12 l OR 0xFFF else l)"

lemma gate_offset_SETGATE [simp]: "gate_offset (SETGATE t sel off d) = off"
  by (rule bit_word_eqI)
    (auto simp: gate_offset_def SETGATE_def bit_or_iff bit_push_bit_iff bit_ucast_iff bit_drop_bit_eq)

lemma split_base:
  fixes base :: u32
  shows "push_bit 24 (ucast (ucast (drop_bit 24 base) :: u8)) OR push_bit 16 (ucast (ucast (drop_bit 16 base) :: u8)) OR
   ucast (ucast base :: u16) = base" (is "?l = base")
proof (rule bit_word_eqI)
  fix n assume "n < LENGTH(32)"
  then show "bit ?l n = bit base n"
    by (cases "24 \<le> n") (auto simp: bit_or_iff bit_push_bit_iff bit_ucast_iff bit_drop_bit_eq)
qed

lemma seg_base_SEG [simp]: "seg_base (SEG ty base lim dpl) = base" "seg_base (SEG16 ty base lim dpl) = base"
  by (simp_all add: seg_base_def SEG_def SEG16_def split_base)

text \<open>C23: In the interrupt table that \<^verbatim>\<open>tvinit\<close> builds, every entry leads to its own vector in the kernel's code
  segment, and the system call gate is the only one that user code may invoke and the only one that
  leaves interrupts enabled.\<close>

theorem tvinit_gates:
  assumes "length vectors = 256" "i < 256"
  shows "length (tvinit vectors) = 256 \<and> gate_offset (tvinit vectors ! i) = vectors ! i \<and>
    gd_cs (tvinit vectors ! i) = 8 \<and> gd_p (tvinit vectors ! i) = 1 \<and>
    (gd_dpl (tvinit vectors ! i) = 3 \<longleftrightarrow> i = T_SYSCALL) \<and>
    (gd_type (tvinit vectors ! i) = STS_TG32 \<longleftrightarrow> i = T_SYSCALL)"
proof (cases "i = T_SYSCALL")
  case True
  then show ?thesis
    by (simp add: tvinit_def T_SYSCALL_def) (simp add: SETGATE_def)
next
  case False
  then show ?thesis
    using assms by (simp add: tvinit_def T_SYSCALL_def) (simp add: SETGATE_def STS_TG32_def STS_IG32_def)
qed

theorem tvinit_gates_witness:
  "length (replicate 256 (0x80105555 :: u32)) = 256 \<and> (64 :: nat) < 256 \<and>
   gd_dpl (tvinit (replicate 256 0x80105555) ! 64) = 3"
  using tvinit_gates [of "replicate 256 0x80105555" 64] by (simp add: T_SYSCALL_def)

end
