(* ===== verification/Fs_Block.thy ===== *)
theory Fs_Block
  imports Log_Crash
begin

text \<open>
  Block allocation of \<^verbatim>\<open>fs.c\<close>: \<^verbatim>\<open>bzero\<close>, \<^verbatim>\<open>balloc\<close> and \<^verbatim>\<open>bfree\<close> on the free-block bitmap, and the record
  of the file system's memory: the copy \<open>sb\<close> of the super block and the inode cache of theory
  \<open>Fs_Inode\<close>.
\<close>

unbundle bit_operations_syntax

section \<open>State and operations\<close>

definition NINODE :: nat where "NINODE = 50"

record inode =
  i_dev :: nat
  i_inum :: nat
  i_ref :: int
  i_lock :: sleeplock
  i_valid :: bool
  i_type :: int
  i_major :: int
  i_minor :: int
  i_nlink :: int
  i_size :: nat
  i_addrs :: "nat list"

record fs_st = log_st +
  sb :: superblock
  inodes :: "inode list"

text \<open>Bit \<open>bi\<close> of a bitmap block: byte \<open>bi / 8\<close>, mask \<open>1 << (bi % 8)\<close>.\<close>

definition bm_mask :: "nat \<Rightarrow> u8" where
  "bm_mask bi = push_bit (bi mod 8) 1"

definition bm_free :: "bytes \<Rightarrow> nat \<Rightarrow> bool" where
  "bm_free d bi \<longleftrightarrow> d ! (bi div 8) AND bm_mask bi = 0"

definition bm_set :: "nat \<Rightarrow> bytes \<Rightarrow> bytes" where
  "bm_set bi d = d[bi div 8 := d ! (bi div 8) OR bm_mask bi]"

definition bm_clear :: "nat \<Rightarrow> bytes \<Rightarrow> bytes" where
  "bm_clear bi d = d[bi div 8 := d ! (bi div 8) AND NOT (bm_mask bi)]"

definition bzero :: "nat \<Rightarrow> nat \<Rightarrow> ('a log_st_scheme, unit) kop" where
  "bzero dev bno =
     kbind (bread dev bno) (\<lambda>bp.
     kbind (set_buf_data bp (\<lambda>_. replicate BSIZE 0)) (\<lambda>_.
     kbind (log_write bp) (\<lambda>_.
     brelse bp)))"

text \<open>The outer loop of \<^verbatim>\<open>balloc\<close> over the bitmap blocks; the inner one is the search for a free bit.\<close>

primrec balloc_loop :: "nat \<Rightarrow> nat list \<Rightarrow> ('a fs_st_scheme, nat) kop" where
  "balloc_loop dev [] = kpanic ''balloc: out of blocks''"
| "balloc_loop dev (b # bs) =
     kbind (kget sb) (\<lambda>sb.
     kbind (bread dev (BBLOCK b sb)) (\<lambda>bp.
     kbind (kget (\<lambda>s. b_data (bufs s ! bp))) (\<lambda>d.
     case find (bm_free d) [0..<min BPB (sb_size sb - b)] of
       Some bi \<Rightarrow>
         kbind (set_buf_data bp (bm_set bi)) (\<lambda>_.
         kbind (log_write bp) (\<lambda>_.
         kbind (brelse bp) (\<lambda>_.
         kbind (bzero dev (b + bi)) (\<lambda>_.
         kret (b + bi)))))
     | None \<Rightarrow> kbind (brelse bp) (\<lambda>_. balloc_loop dev bs))))"

definition bitmap_starts :: "superblock \<Rightarrow> nat list" where
  "bitmap_starts v = map (\<lambda>k. k * BPB) [0..<(sb_size v + BPB - 1) div BPB]"

definition balloc :: "nat \<Rightarrow> ('a fs_st_scheme, nat) kop" where
  "balloc dev = kbind (kget (\<lambda>s. bitmap_starts (sb s))) (balloc_loop dev)"

definition bfree :: "nat \<Rightarrow> nat \<Rightarrow> ('a fs_st_scheme, unit) kop" where
  "bfree dev b =
     kbind (kget sb) (\<lambda>sb.
     kbind (bread dev (BBLOCK b sb)) (\<lambda>bp.
     kbind (kget (\<lambda>s. b_data (bufs s ! bp))) (\<lambda>d.
     if bm_free d (b mod BPB) then kpanic ''freeing free block''
     else
       kbind (set_buf_data bp (bm_clear (b mod BPB))) (\<lambda>_.
       kbind (log_write bp) (\<lambda>_.
       brelse bp)))))"

end
