(* ===== verification/Fs_Inode.thy ===== *)
theory Fs_Inode
  imports Fs_Block
begin

text \<open>
  The inode layer of \<^verbatim>\<open>fs.c\<close>: the inode cache, locking, allocation, the map from file blocks to
  disk blocks, and truncation.  A \<^verbatim>\<open>struct inode *\<close> is an index into \<open>inodes\<close>; the null pointer is
  \<open>None\<close>.
\<close>

section \<open>The inode cache\<close>

definition upd_inode :: "nat \<Rightarrow> (inode \<Rightarrow> inode) \<Rightarrow> 'a fs_st_scheme \<Rightarrow> 'a fs_st_scheme" where
  "upd_inode i f s = s\<lparr>inodes := (inodes s)[i := f (inodes s ! i)]\<rparr>"

definition ino :: "nat \<Rightarrow> ('a fs_st_scheme, inode) kop" where
  "ino i = kget (\<lambda>s. inodes s ! i)"

definition ino_lock :: "nat \<Rightarrow> 'a fs_st_scheme \<Rightarrow> sleeplock" where
  "ino_lock i s = i_lock (inodes s ! i)"

definition upd_ino_lock :: "nat \<Rightarrow> (sleeplock \<Rightarrow> sleeplock) \<Rightarrow> 'a fs_st_scheme \<Rightarrow> 'a fs_st_scheme" where
  "upd_ino_lock i f = upd_inode i (\<lambda>x. x\<lparr>i_lock := f (i_lock x)\<rparr>)"

definition iinit :: "nat \<Rightarrow> ('a fs_st_scheme, unit) kop" where
  "iinit dev =
     kbind (kfor [0..<NINODE] (\<lambda>i. initsleeplock (upd_ino_lock i))) (\<lambda>_.
     kbind (readsb dev) (\<lambda>v.
     kmod (\<lambda>s. s\<lparr>sb := v\<rparr>)))"

text \<open>
  \<^verbatim>\<open>iget\<close>'s single pass: the first referenced entry for \<open>(dev, inum)\<close>, otherwise the first free
  entry it has seen.
\<close>

definition iget :: "nat \<Rightarrow> nat \<Rightarrow> ('a fs_st_scheme, nat) kop" where
  "iget dev inum s =
     (case find_index (\<lambda>x. i_ref x > 0 \<and> i_dev x = dev \<and> i_inum x = inum) (inodes s) of
        Some i \<Rightarrow> Ret i (upd_inode i (\<lambda>x. x\<lparr>i_ref := i_ref x + 1\<rparr>) s)
      | None \<Rightarrow>
          (case find_index (\<lambda>x. i_ref x = 0) (inodes s) of
             None \<Rightarrow> Panic ''iget: no inodes''
           | Some i \<Rightarrow>
               Ret i (upd_inode i (\<lambda>x. x\<lparr>i_dev := dev, i_inum := inum, i_ref := 1, i_valid := False\<rparr>) s)))"

definition idup :: "nat \<Rightarrow> ('a fs_st_scheme, nat) kop" where
  "idup ip = kbind (kmod (upd_inode ip (\<lambda>x. x\<lparr>i_ref := i_ref x + 1\<rparr>))) (\<lambda>_. kret ip)"

primrec ialloc_loop :: "nat \<Rightarrow> int \<Rightarrow> nat list \<Rightarrow> ('a fs_st_scheme, nat) kop" where
  "ialloc_loop dev type [] = kpanic ''ialloc: no inodes''"
| "ialloc_loop dev type (inum # rest) =
     kbind (kget sb) (\<lambda>sb.
     kbind (bread dev (IBLOCK inum sb)) (\<lambda>bp.
     kbind (kget (\<lambda>s. b_data (bufs s ! bp))) (\<lambda>d.
     if dip_type d (inum mod IPB) = 0 then
       kbind (set_buf_data bp (\<lambda>d. put_dinode d (inum mod IPB) (zero_dinode\<lparr>di_type := type\<rparr>))) (\<lambda>_.
       kbind (log_write bp) (\<lambda>_.
       kbind (brelse bp) (\<lambda>_.
       iget dev inum)))
     else kbind (brelse bp) (\<lambda>_. ialloc_loop dev type rest))))"

definition ialloc :: "nat \<Rightarrow> int \<Rightarrow> ('a fs_st_scheme, nat) kop" where
  "ialloc dev type = kbind (kget (\<lambda>s. [1..<sb_ninodes (sb s)])) (ialloc_loop dev type)"

definition dinode_of :: "inode \<Rightarrow> dinode" where
  "dinode_of x = \<lparr>di_type = i_type x, di_major = i_major x, di_minor = i_minor x, di_nlink = i_nlink x,
     di_size = i_size x, di_addrs = i_addrs x\<rparr>"

definition iupdate :: "nat \<Rightarrow> ('a fs_st_scheme, unit) kop" where
  "iupdate ip =
     kbind (ino ip) (\<lambda>x.
     kbind (kget sb) (\<lambda>sb.
     kbind (bread (i_dev x) (IBLOCK (i_inum x) sb)) (\<lambda>bp.
     kbind (set_buf_data bp (\<lambda>d. put_dinode d (i_inum x mod IPB) (dinode_of x))) (\<lambda>_.
     kbind (log_write bp) (\<lambda>_.
     brelse bp)))))"

definition load_dinode :: "dinode \<Rightarrow> inode \<Rightarrow> inode" where
  "load_dinode d x = x\<lparr>i_type := di_type d, i_major := di_major d, i_minor := di_minor d,
     i_nlink := di_nlink d, i_size := di_size d, i_addrs := di_addrs d\<rparr>"

definition ilock :: "nat option \<Rightarrow> ('a fs_st_scheme, unit) kop" where
  "ilock p =
     (case p of
        None \<Rightarrow> kpanic ''ilock''
      | Some ip \<Rightarrow>
          kbind (ino ip) (\<lambda>x.
          if i_ref x < 1 then kpanic ''ilock''
          else
            kbind (acquiresleep (ChInodeLock ip) (ino_lock ip) (upd_ino_lock ip)) (\<lambda>_.
            kbind (ino ip) (\<lambda>x.
            if \<not> i_valid x then
              kbind (kget sb) (\<lambda>sb.
              kbind (bread (i_dev x) (IBLOCK (i_inum x) sb)) (\<lambda>bp.
              kbind (kget (\<lambda>s. b_data (bufs s ! bp))) (\<lambda>d.
              kbind (kmod (upd_inode ip (load_dinode (get_dinode d (i_inum x mod IPB))))) (\<lambda>_.
              kbind (brelse bp) (\<lambda>_.
              kbind (kmod (upd_inode ip (\<lambda>x. x\<lparr>i_valid := True\<rparr>))) (\<lambda>_.
              kbind (ino ip) (\<lambda>x.
              if i_type x = 0 then kpanic ''ilock: no type'' else kskip)))))))
            else kskip))))"

definition iunlock :: "nat option \<Rightarrow> ('a fs_st_scheme, unit) kop" where
  "iunlock p =
     (case p of
        None \<Rightarrow> kpanic ''iunlock''
      | Some ip \<Rightarrow>
          kbind (holdingsleep (ino_lock ip)) (\<lambda>h.
          kbind (ino ip) (\<lambda>x.
          if \<not> h \<or> i_ref x < 1 then kpanic ''iunlock''
          else releasesleep (ChInodeLock ip) (upd_ino_lock ip))))"

section \<open>The blocks of a file\<close>

definition set_addr :: "nat \<Rightarrow> nat \<Rightarrow> nat \<Rightarrow> ('a fs_st_scheme, unit) kop" where
  "set_addr ip k a = kmod (upd_inode ip (\<lambda>x. x\<lparr>i_addrs := (i_addrs x)[k := a]\<rparr>))"

definition bmap :: "nat \<Rightarrow> nat \<Rightarrow> ('a fs_st_scheme, nat) kop" where
  "bmap ip bn =
     (if bn < NDIRECT then
        kbind (ino ip) (\<lambda>x.
        if i_addrs x ! bn = 0 then
          kbind (balloc (i_dev x)) (\<lambda>addr.
          kbind (set_addr ip bn addr) (\<lambda>_. kret addr))
        else kret (i_addrs x ! bn))
      else if bn - NDIRECT < NINDIRECT then
        kbind (ino ip) (\<lambda>x.
        kbind (if i_addrs x ! NDIRECT = 0 then
                 kbind (balloc (i_dev x)) (\<lambda>addr.
                 kbind (set_addr ip NDIRECT addr) (\<lambda>_. kret addr))
               else kret (i_addrs x ! NDIRECT)) (\<lambda>ind.
        kbind (bread (i_dev x) ind) (\<lambda>bp.
        kbind (kget (\<lambda>s. get32 (b_data (bufs s ! bp)) (4 * (bn - NDIRECT)))) (\<lambda>addr.
        if addr = 0 then
          kbind (balloc (i_dev x)) (\<lambda>addr.
          kbind (set_buf_data bp (\<lambda>d. put32 d (4 * (bn - NDIRECT)) addr)) (\<lambda>_.
          kbind (log_write bp) (\<lambda>_.
          kbind (brelse bp) (\<lambda>_. kret addr))))
        else kbind (brelse bp) (\<lambda>_. kret addr)))))
      else kpanic ''bmap: out of range'')"

definition itrunc :: "nat \<Rightarrow> ('a fs_st_scheme, unit) kop" where
  "itrunc ip =
     kbind (kfor [0..<NDIRECT] (\<lambda>i.
       kbind (ino ip) (\<lambda>x.
       kwhen (i_addrs x ! i \<noteq> 0)
         (kbind (bfree (i_dev x) (i_addrs x ! i)) (\<lambda>_. set_addr ip i 0))))) (\<lambda>_.
     kbind (ino ip) (\<lambda>x.
     kbind (kwhen (i_addrs x ! NDIRECT \<noteq> 0)
       (kbind (bread (i_dev x) (i_addrs x ! NDIRECT)) (\<lambda>bp.
        kbind (kfor [0..<NINDIRECT] (\<lambda>j.
          kbind (kget (\<lambda>s. get32 (b_data (bufs s ! bp)) (4 * j))) (\<lambda>a.
          kwhen (a \<noteq> 0) (bfree (i_dev x) a)))) (\<lambda>_.
        kbind (brelse bp) (\<lambda>_.
        kbind (bfree (i_dev x) (i_addrs x ! NDIRECT)) (\<lambda>_.
        set_addr ip NDIRECT 0)))))) (\<lambda>_.
     kbind (kmod (upd_inode ip (\<lambda>x. x\<lparr>i_size := 0\<rparr>))) (\<lambda>_.
     iupdate ip))))"

definition iput :: "nat \<Rightarrow> ('a fs_st_scheme, unit) kop" where
  "iput ip =
     kbind (acquiresleep (ChInodeLock ip) (ino_lock ip) (upd_ino_lock ip)) (\<lambda>_.
     kbind (ino ip) (\<lambda>x.
     kbind (kwhen (i_valid x \<and> i_nlink x = 0 \<and> i_ref x = 1)
       (kbind (itrunc ip) (\<lambda>_.
        kbind (kmod (upd_inode ip (\<lambda>x. x\<lparr>i_type := 0\<rparr>))) (\<lambda>_.
        kbind (iupdate ip) (\<lambda>_.
        kmod (upd_inode ip (\<lambda>x. x\<lparr>i_valid := False\<rparr>))))))) (\<lambda>_.
     kbind (releasesleep (ChInodeLock ip) (upd_ino_lock ip)) (\<lambda>_.
     kmod (upd_inode ip (\<lambda>x. x\<lparr>i_ref := i_ref x - 1\<rparr>))))))"

definition iunlockput :: "nat \<Rightarrow> ('a fs_st_scheme, unit) kop" where
  "iunlockput ip = kbind (iunlock (Some ip)) (\<lambda>_. iput ip)"

record stat =
  st_type :: int
  st_dev :: nat
  st_ino :: nat
  st_nlink :: int
  st_size :: nat

definition stati :: "nat \<Rightarrow> ('a fs_st_scheme, stat) kop" where
  "stati ip = kget (\<lambda>s. let x = inodes s ! ip in
     \<lparr>st_type = i_type x, st_dev = i_dev x, st_ino = i_inum x, st_nlink = i_nlink x, st_size = i_size x\<rparr>)"

end
