(* ===== verification/Kbd.thy ===== *)
theory Kbd
  imports ProcTable
begin

text \<open>
  The PC keyboard driver of \<^verbatim>\<open>kbd.c\<close> and \<^verbatim>\<open>kbd.h\<close>: the scan code tables, written as the list of the
  leading entries and the designated entries of the initialisers, and the state machine that
  turns scan codes into characters.
\<close>

unbundle bit_operations_syntax

definition E0ESC :: u32 where "E0ESC = 64"
definition CAPSLOCK :: u32 where "CAPSLOCK = 8"
definition KB_CTL :: u32 where "KB_CTL = 2"
definition KB_SHIFT :: u32 where "KB_SHIFT = 1"

definition kb_table :: "nat list \<Rightarrow> (nat \<times> nat) list \<Rightarrow> u32 \<Rightarrow> u32" where
  "kb_table base extra d = (let i = unat d in
     if i < length base then of_nat (base ! i)
     else case map_of extra i of Some v \<Rightarrow> of_nat v | None \<Rightarrow> 0)"

definition shiftcode :: "u32 \<Rightarrow> u32" where
  "shiftcode = kb_table
    []
    [(29, 2), (42, 1), (54, 1), (56, 4), (157, 2), (184, 4)]"

definition togglecode :: "u32 \<Rightarrow> u32" where
  "togglecode = kb_table
    []
    [(58, 8), (69, 16), (70, 32)]"

definition normalmap :: "u32 \<Rightarrow> u32" where
  "normalmap = kb_table
    [0, 27, 49, 50, 51, 52, 53, 54, 55, 56, 57, 48, 45, 61, 8, 9,
     113, 119, 101, 114, 116, 121, 117, 105, 111, 112, 91, 93, 10, 0, 97, 115,
     100, 102, 103, 104, 106, 107, 108, 59, 39, 96, 0, 92, 122, 120, 99, 118,
     98, 110, 109, 44, 46, 47, 0, 42, 0, 32, 0, 0, 0, 0, 0, 0,
     0, 0, 0, 0, 0, 0, 0, 55, 56, 57, 45, 52, 53, 54, 43, 49,
     50, 51, 48, 46, 0, 0, 0, 0]
    [(156, 10), (181, 47), (200, 226), (208, 227), (201, 230), (209, 231), (203, 228), (205, 229), (151, 224), (207, 225), (210, 232), (211, 233)]"

definition shiftmap :: "u32 \<Rightarrow> u32" where
  "shiftmap = kb_table
    [0, 27, 33, 64, 35, 36, 37, 94, 38, 42, 40, 41, 95, 43, 8, 9,
     81, 87, 69, 82, 84, 89, 85, 73, 79, 80, 123, 125, 10, 0, 65, 83,
     68, 70, 71, 72, 74, 75, 76, 58, 34, 126, 0, 124, 90, 88, 67, 86,
     66, 78, 77, 60, 62, 63, 0, 42, 0, 32, 0, 0, 0, 0, 0, 0,
     0, 0, 0, 0, 0, 0, 0, 55, 56, 57, 45, 52, 53, 54, 43, 49,
     50, 51, 48, 46, 0, 0, 0, 0]
    [(156, 10), (181, 47), (200, 226), (208, 227), (201, 230), (209, 231), (203, 228), (205, 229), (151, 224), (207, 225), (210, 232), (211, 233)]"

definition ctlmap :: "u32 \<Rightarrow> u32" where
  "ctlmap = kb_table
    [0, 0, 0, 0, 0, 0, 0, 0, 0, 0, 0, 0, 0, 0, 0, 0,
     17, 23, 5, 18, 20, 25, 21, 9, 15, 16, 0, 0, 13, 0, 1, 19,
     4, 6, 7, 8, 10, 11, 12, 0, 0, 0, 0, 28, 26, 24, 3, 22,
     2, 14, 13, 0, 0, 239, 0, 0]
    [(156, 13), (181, 239), (200, 226), (208, 227), (201, 230), (209, 231), (203, 228), (205, 229), (151, 224), (207, 225), (210, 232), (211, 233)]"

text \<open>
  \<open>kbdgetc st data shift\<close>: the status byte and the data byte read from the controller and the static
  \<^verbatim>\<open>shift\<close>; the returned character and the new \<^verbatim>\<open>shift\<close>.
\<close>

definition kbdgetc :: "u32 \<Rightarrow> u32 \<Rightarrow> u32 \<Rightarrow> int \<times> u32" where
  "kbdgetc st data shift =
     (if st AND 1 = 0 then (- 1, shift)
      else if data = 0xE0 then (0, shift OR E0ESC)
      else if data AND 0x80 \<noteq> 0 then
        (let d = (if shift AND E0ESC \<noteq> 0 then data else data AND 0x7F)
         in (0, shift AND NOT (shiftcode d OR E0ESC)))
      else
        (let esc = (shift AND E0ESC \<noteq> 0);
             d = (if esc then data OR 0x80 else data);
             s1 = (if esc then shift AND NOT E0ESC else shift);
             s2 = s1 OR shiftcode d;
             s3 = s2 XOR togglecode d;
             sel = s3 AND (KB_CTL OR KB_SHIFT);
             c = (if sel = 0 then normalmap d else if sel = 1 then shiftmap d else ctlmap d);
             c' = (if s3 AND CAPSLOCK \<noteq> 0 then
                     if 97 \<le> c \<and> c \<le> 122 then c - 32
                     else if 65 \<le> c \<and> c \<le> 90 then c + 32 else c
                   else c)
         in (uint c', s3)))"

text \<open>The characters that a sequence of data bytes delivers (\<^verbatim>\<open>kbdintr\<close> reads until the buffer is empty).\<close>

primrec kbd_chars :: "u32 list \<Rightarrow> u32 \<Rightarrow> int list \<times> u32" where
  "kbd_chars [] shift = ([], shift)"
| "kbd_chars (d # ds) shift =
     (let (c, s1) = kbdgetc 1 d shift; (cs, s2) = kbd_chars ds s1 in (c # cs, s2))"

end
