(* ===== verification/Spinlock.thy ===== *)
theory Spinlock
  imports Kalloc
begin

text \<open>
  \<^verbatim>\<open>spinlock.c\<close> and the CPU lookup of \<^verbatim>\<open>proc.c\<close>.  The executing CPU is named by its local APIC
  identifier \<open>aid\<close>, the value \<^verbatim>\<open>lapicid()\<close> reads; \<open>iflag\<close> is the interrupt flag of its
  \<^verbatim>\<open>eflags\<close> register.  Sequential versions of \<^verbatim>\<open>acquire\<close> and \<^verbatim>\<open>release\<close> are composed of the
  pieces between which another CPU can be observed; \<open>lock_step\<close> interleaves these pieces on
  any number of CPUs.
\<close>

section \<open>State\<close>

record cpu_st =
  apicid :: u8
  started :: bool
  ncli :: int
  intena :: bool
  cpu_proc :: "nat option"

record spinlock =
  locked :: bool
  lk_name :: string
  lk_cpu :: "nat option"
  pcs :: "u32 list"

record smp_st = kmem_st +
  cpus :: "cpu_st list"
  ncpu :: nat
  iflag :: "u8 \<Rightarrow> bool"
  locks :: "nat \<Rightarrow> spinlock"

section \<open>Operations\<close>

definition initlock :: "nat \<Rightarrow> string \<Rightarrow> ('a smp_st_scheme, unit) kop" where
  "initlock l nm = kmod (\<lambda>s. s\<lparr>locks := (locks s)(l := (locks s l)\<lparr>lk_name := nm, locked := False,
     lk_cpu := None\<rparr>)\<rparr>)"

definition mycpu :: "u8 \<Rightarrow> ('a smp_st_scheme, nat) kop" where
  "mycpu aid s =
     (if iflag s aid then Panic ''mycpu called with interrupts enabled''
      else case find_index (\<lambda>c. apicid c = aid) (take (ncpu s) (cpus s)) of
        Some i \<Rightarrow> Ret i s
      | None \<Rightarrow> Panic ''unknown apicid'')"

definition cpuid :: "u8 \<Rightarrow> ('a smp_st_scheme, nat) kop" where
  "cpuid aid = mycpu aid"

definition cli :: "u8 \<Rightarrow> ('a smp_st_scheme, unit) kop" where
  "cli aid = kmod (\<lambda>s. s\<lparr>iflag := (iflag s)(aid := False)\<rparr>)"

definition sti :: "u8 \<Rightarrow> ('a smp_st_scheme, unit) kop" where
  "sti aid = kmod (\<lambda>s. s\<lparr>iflag := (iflag s)(aid := True)\<rparr>)"

definition upd_cpu :: "nat \<Rightarrow> (cpu_st \<Rightarrow> cpu_st) \<Rightarrow> 'a smp_st_scheme \<Rightarrow> 'a smp_st_scheme" where
  "upd_cpu i f s = s\<lparr>cpus := (cpus s)[i := f (cpus s ! i)]\<rparr>"

definition pushcli :: "u8 \<Rightarrow> ('a smp_st_scheme, unit) kop" where
  "pushcli aid =
     kbind (kget (\<lambda>s. iflag s aid)) (\<lambda>eflags.
     kbind (cli aid) (\<lambda>_.
     kbind (mycpu aid) (\<lambda>i.
     kbind (kget (\<lambda>s. ncli (cpus s ! i))) (\<lambda>n.
     kbind (kwhen (n = 0) (kmod (upd_cpu i (\<lambda>c. c\<lparr>intena := eflags\<rparr>)))) (\<lambda>_.
     kmod (upd_cpu i (\<lambda>c. c\<lparr>ncli := ncli c + 1\<rparr>)))))))"

definition popcli :: "u8 \<Rightarrow> ('a smp_st_scheme, unit) kop" where
  "popcli aid =
     kbind (kget (\<lambda>s. iflag s aid)) (\<lambda>ifl.
     if ifl then kpanic ''popcli - interruptible''
     else
     kbind (mycpu aid) (\<lambda>i.
     kbind (kmod (upd_cpu i (\<lambda>c. c\<lparr>ncli := ncli c - 1\<rparr>))) (\<lambda>_.
     kbind (kget (\<lambda>s. cpus s ! i)) (\<lambda>c.
     if ncli c < 0 then kpanic ''popcli''
     else kwhen (ncli c = 0 \<and> intena c) (sti aid)))))"

definition holding :: "u8 \<Rightarrow> nat \<Rightarrow> ('a smp_st_scheme, bool) kop" where
  "holding aid l =
     kbind (pushcli aid) (\<lambda>_.
     kbind (mycpu aid) (\<lambda>i.
     kbind (kget (\<lambda>s. locked (locks s l) \<and> lk_cpu (locks s l) = Some i)) (\<lambda>r.
     kbind (popcli aid) (\<lambda>_. kret r))))"

text \<open>
  \<^verbatim>\<open>getcallerpcs(v, pcs)\<close> follows the chain of saved frame pointers from two words below \<^verbatim>\<open>v\<close>, for
  at most ten frames, and fills the rest with zeros.
\<close>

primrec getcallerpcs_loop :: "nat \<Rightarrow> memory \<Rightarrow> u32 \<Rightarrow> u32 list" where
  "getcallerpcs_loop 0 m ebp = []"
| "getcallerpcs_loop (Suc n) m ebp =
     (if ebp = 0 \<or> ebp < KERNBASE \<or> ebp = 0xffffffff then replicate (Suc n) 0
      else load32 m (ebp + 4) # getcallerpcs_loop n m (load32 m ebp))"

definition getcallerpcs :: "memory \<Rightarrow> u32 \<Rightarrow> u32 list" where
  "getcallerpcs m v = getcallerpcs_loop 10 m (v - 8)"

text \<open>
  \<^verbatim>\<open>acquire\<close>: disable interrupts and refuse a lock this CPU already holds; exchange until the old
  value was 0; record the holder.  \<open>v\<close> is the stack address \<^verbatim>\<open>&lk\<close> that \<^verbatim>\<open>getcallerpcs\<close> starts from.
\<close>

definition acquire_enter :: "u8 \<Rightarrow> nat \<Rightarrow> ('a smp_st_scheme, unit) kop" where
  "acquire_enter aid l =
     kbind (pushcli aid) (\<lambda>_.
     kbind (holding aid l) (\<lambda>h. if h then kpanic ''acquire'' else kskip))"

definition xchg_lock :: "nat \<Rightarrow> bool \<Rightarrow> ('a smp_st_scheme, bool) kop" where
  "xchg_lock l new =
     kbind (kget (\<lambda>s. locked (locks s l))) (\<lambda>old.
     kbind (kmod (\<lambda>s. s\<lparr>locks := (locks s)(l := (locks s l)\<lparr>locked := new\<rparr>)\<rparr>)) (\<lambda>_. kret old))"

definition acquire_record :: "u8 \<Rightarrow> nat \<Rightarrow> u32 \<Rightarrow> ('a smp_st_scheme, unit) kop" where
  "acquire_record aid l v =
     kbind (mycpu aid) (\<lambda>i.
     kmod (\<lambda>s. s\<lparr>locks := (locks s)(l := (locks s l)\<lparr>lk_cpu := Some i, pcs := getcallerpcs (mem s) v\<rparr>)\<rparr>))"

text \<open>Run alone, \<^verbatim>\<open>acquire\<close> of a lock that is taken spins forever.\<close>

definition acquire :: "u8 \<Rightarrow> nat \<Rightarrow> u32 \<Rightarrow> ('a smp_st_scheme, unit) kop" where
  "acquire aid l v =
     kbind (acquire_enter aid l) (\<lambda>_.
     kbind (xchg_lock l True) (\<lambda>old.
     if old then khang else acquire_record aid l v))"

definition release_enter :: "u8 \<Rightarrow> nat \<Rightarrow> ('a smp_st_scheme, unit) kop" where
  "release_enter aid l =
     kbind (holding aid l) (\<lambda>h.
     if \<not> h then kpanic ''release''
     else kmod (\<lambda>s. s\<lparr>locks := (locks s)(l := (locks s l)\<lparr>pcs := (pcs (locks s l))[0 := 0], lk_cpu := None\<rparr>)\<rparr>))"

definition release_store :: "u8 \<Rightarrow> nat \<Rightarrow> ('a smp_st_scheme, unit) kop" where
  "release_store aid l =
     kbind (kmod (\<lambda>s. s\<lparr>locks := (locks s)(l := (locks s l)\<lparr>locked := False\<rparr>)\<rparr>)) (\<lambda>_. popcli aid)"

definition release :: "u8 \<Rightarrow> nat \<Rightarrow> ('a smp_st_scheme, unit) kop" where
  "release aid l = kseq (release_enter aid l) (release_store aid l)"

section \<open>Interleaved executions\<close>

text \<open>
  Where a CPU is in \<^verbatim>\<open>acquire\<close> or \<^verbatim>\<open>release\<close>: outside both, in the exchange loop, between the
  successful exchange and the record of the holder, or between clearing that record and
  storing 0.
\<close>

datatype lock_pc = Outside | Spinning nat | Taken nat | Releasing nat

text \<open>
  One piece of one CPU's code.  \<open>held\<close> is ghost state: the locks whose exchange a CPU won and
  that it has not stored 0 to since.
\<close>

inductive lock_step ::
  "'a smp_st_scheme \<times> (u8 \<Rightarrow> lock_pc) \<times> (u8 \<Rightarrow> nat set) \<Rightarrow>
   'a smp_st_scheme \<times> (u8 \<Rightarrow> lock_pc) \<times> (u8 \<Rightarrow> nat set) \<Rightarrow> bool" where
  ls_enter: "pc aid = Outside \<Longrightarrow> acquire_enter aid l s = Ret () t \<Longrightarrow>
    lock_step (s, pc, held) (t, pc(aid := Spinning l), held)"
| ls_spin: "pc aid = Spinning l \<Longrightarrow> xchg_lock l True s = Ret True t \<Longrightarrow>
    lock_step (s, pc, held) (t, pc, held)"
| ls_take: "pc aid = Spinning l \<Longrightarrow> xchg_lock l True s = Ret False t \<Longrightarrow>
    lock_step (s, pc, held) (t, pc(aid := Taken l), held(aid := insert l (held aid)))"
| ls_record: "pc aid = Taken l \<Longrightarrow> acquire_record aid l v s = Ret () t \<Longrightarrow>
    lock_step (s, pc, held) (t, pc(aid := Outside), held)"
| ls_unlock: "pc aid = Outside \<Longrightarrow> release_enter aid l s = Ret () t \<Longrightarrow>
    lock_step (s, pc, held) (t, pc(aid := Releasing l), held)"
| ls_store: "pc aid = Releasing l \<Longrightarrow> release_store aid l s = Ret () t \<Longrightarrow>
    lock_step (s, pc, held) (t, pc(aid := Outside), held(aid := held aid - {l}))"

definition lock_init :: "'a smp_st_scheme \<times> (u8 \<Rightarrow> lock_pc) \<times> (u8 \<Rightarrow> nat set) \<Rightarrow> bool" where
  "lock_init = (\<lambda>(s, pc, held). (\<forall>l. \<not> locked (locks s l) \<and> lk_cpu (locks s l) = None) \<and>
     (\<forall>a. pc a = Outside \<and> held a = {}))"

text \<open>A CPU is inside the critical section of a lock when \<^verbatim>\<open>holding\<close> is true of it.\<close>

definition in_critical :: "'a smp_st_scheme \<Rightarrow> u8 \<Rightarrow> nat \<Rightarrow> bool" where
  "in_critical s aid l \<longleftrightarrow> (\<exists>i. find_index (\<lambda>c. apicid c = aid) (take (ncpu s) (cpus s)) = Some i \<and>
     locked (locks s l) \<and> lk_cpu (locks s l) = Some i)"

section \<open>CPUs and interrupts\<close>

text \<open>
  A CPU known to the system: its identifier occurs once among the CPUs found at boot, and its
  interrupts are on only outside every \<^verbatim>\<open>pushcli\<close>.
\<close>

definition cpu_at :: "'a smp_st_scheme \<Rightarrow> u8 \<Rightarrow> nat \<Rightarrow> bool" where
  "cpu_at s aid i \<longleftrightarrow> find_index (\<lambda>c. apicid c = aid) (take (ncpu s) (cpus s)) = Some i"

definition cpu_ok :: "'a smp_st_scheme \<Rightarrow> u8 \<Rightarrow> nat \<Rightarrow> bool" where
  "cpu_ok s aid i \<longleftrightarrow> cpu_at s aid i \<and> 0 \<le> ncli (cpus s ! i) \<and> (iflag s aid \<longrightarrow> ncli (cpus s ! i) = 0)"

lemma find_index_map_cong:
  "length xs = length ys \<Longrightarrow> (\<And>i. i < length xs \<Longrightarrow> P (xs ! i) = P (ys ! i)) \<Longrightarrow>
   find_index P xs = find_index P ys"
proof (induction xs arbitrary: ys)
  case Nil
  then show ?case by simp
next
  case (Cons x xs)
  then obtain y ys' where ys: "ys = y # ys'" by (cases ys) auto
  have "find_index P xs = find_index P ys'"
    using Cons.prems(1) Cons.prems(2) [of "Suc i" for i] by (intro Cons.IH) (auto simp: ys)
  then show ?case
    using Cons.prems(2) [of 0] by (simp add: ys)
qed

lemma cpu_at_upd_cpu [simp]:
  assumes "\<And>c. apicid (f c) = apicid c"
  shows "cpu_at (upd_cpu j f s) aid i = cpu_at s aid i"
proof -
  have "find_index (\<lambda>c. apicid c = aid) (take (ncpu s) ((cpus s)[j := f (cpus s ! j)])) =
      find_index (\<lambda>c. apicid c = aid) (take (ncpu s) (cpus s))"
    by (rule find_index_map_cong, simp, cases "j < length (cpus s)") (simp_all add: nth_list_update assms)
  moreover have "cpus (upd_cpu j f s) = (cpus s)[j := f (cpus s ! j)]" "ncpu (upd_cpu j f s) = ncpu s"
    by (simp_all add: upd_cpu_def)
  ultimately show ?thesis
    unfolding cpu_at_def by (simp only:)
qed

lemma cpu_at_frame [simp]:
  "cpu_at (s\<lparr>iflag := f\<rparr>) aid i = cpu_at s aid i" "cpu_at (s\<lparr>locks := k\<rparr>) aid i = cpu_at s aid i"
  by (simp_all add: cpu_at_def)

lemma upd_cpu_simps [simp]:
  "iflag (upd_cpu i f s) = iflag s" "locks (upd_cpu i f s) = locks s" "mem (upd_cpu i f s) = mem s"
  "i < length (cpus s) \<Longrightarrow> cpus (upd_cpu i f s) ! i = f (cpus s ! i)"
  "length (cpus (upd_cpu i f s)) = length (cpus s)" "ncpu (upd_cpu i f s) = ncpu s"
  by (simp_all add: upd_cpu_def)

lemma cpu_atD: "cpu_at s aid i \<Longrightarrow> i < length (cpus s) \<and> apicid (cpus s ! i) = aid"
  by (auto simp: cpu_at_def find_index_Some)

lemma cpu_at_inj: "cpu_at s a i \<Longrightarrow> cpu_at s b i \<Longrightarrow> a = b"
  using cpu_atD by metis

lemma wp_mycpu: "cpu_at s aid i \<Longrightarrow> wp (mycpu aid) Q s = (\<not> iflag s aid \<and> Q i s)"
  by (simp add: wp_def mycpu_def cpu_at_def)

lemma wp_cli [simp]: "wp (cli aid) Q s = Q () (s\<lparr>iflag := (iflag s)(aid := False)\<rparr>)"
  by (simp add: cli_def)

lemma wp_sti [simp]: "wp (sti aid) Q s = Q () (s\<lparr>iflag := (iflag s)(aid := True)\<rparr>)"
  by (simp add: sti_def)

text \<open>A run of \<^verbatim>\<open>pushcli\<close> (\<open>True\<close>) and \<^verbatim>\<open>popcli\<close> (\<open>False\<close>) calls, and the nesting depth it reaches.\<close>

primrec run_cli :: "u8 \<Rightarrow> bool list \<Rightarrow> ('a smp_st_scheme, unit) kop" where
  "run_cli aid [] = kskip"
| "run_cli aid (e # es) = kseq (if e then pushcli aid else popcli aid) (run_cli aid es)"

primrec nested :: "nat \<Rightarrow> bool list \<Rightarrow> bool" where
  "nested d [] \<longleftrightarrow> d = 0"
| "nested d (e # es) \<longleftrightarrow> (if e then nested (Suc d) es else 0 < d \<and> nested (d - 1) es)"

text \<open>The state of a CPU that entered the run with interrupt flag \<open>b\<close> and nesting \<open>n\<close>, at depth \<open>d\<close>.\<close>

definition cli_depth :: "'a smp_st_scheme \<Rightarrow> u8 \<Rightarrow> nat \<Rightarrow> bool \<Rightarrow> int \<Rightarrow> nat \<Rightarrow> bool" where
  "cli_depth s aid i b n d \<longleftrightarrow> cpu_at s aid i \<and> ncli (cpus s ! i) = n + int d \<and>
     (iflag s aid \<longleftrightarrow> b \<and> d = 0) \<and> (n = 0 \<and> 0 < d \<longrightarrow> intena (cpus s ! i) = b)"

lemma wp_pushcli:
  assumes "cli_depth s aid i b n d" "0 \<le> n"
  shows "wp (pushcli aid) (\<lambda>_ t. cli_depth t aid i b n (Suc d)) s"
proof -
  have "cpu_at s aid i" "i < length (cpus s)"
    using assms(1) cpu_atD by (auto simp: cli_depth_def)
  with assms show ?thesis
    by (auto simp: pushcli_def wp_mycpu cli_depth_def)
qed

lemma wp_popcli_eq:
  assumes "cpu_at s aid i"
  shows "wp (popcli aid) Q s \<longleftrightarrow> \<not> iflag s aid \<and> 0 < ncli (cpus s ! i) \<and>
    (let t = upd_cpu i (\<lambda>c. c\<lparr>ncli := ncli c - 1\<rparr>) s
     in if ncli (cpus s ! i) = 1 \<and> intena (cpus s ! i) then Q () (t\<lparr>iflag := (iflag t)(aid := True)\<rparr>) else Q () t)"
proof -
  have "i < length (cpus s)" using cpu_atD [OF assms] by simp
  then show ?thesis
    using assms by (simp add: popcli_def wp_mycpu Let_def)
qed

lemma wp_popcli:
  assumes "cli_depth s aid i b n (Suc d)" "0 \<le> n" "b \<longrightarrow> n = 0"
  shows "wp (popcli aid) (\<lambda>_ t. cli_depth t aid i b n d) s"
proof -
  have at: "cpu_at s aid i" and i: "i < length (cpus s)"
    using assms(1) cpu_atD by (auto simp: cli_depth_def)
  show ?thesis
    unfolding wp_popcli_eq [OF at] Let_def cli_depth_def
    using assms i by (cases b) (simp_all add: cli_depth_def)
qed

lemma wp_run_cli:
  assumes "nested d es" "cli_depth s aid i b n d" "0 \<le> n" "b \<longrightarrow> n = 0"
  shows "wp (run_cli aid es) (\<lambda>_ t. cli_depth t aid i b n 0) s"
  using assms
proof (induction es arbitrary: d s)
  case Nil
  then show ?case by simp
next
  case (Cons e es)
  show ?case
  proof (cases e)
    case True
    with Cons have "wp (pushcli aid) (\<lambda>_. wp (run_cli aid es) (\<lambda>_ t. cli_depth t aid i b n 0)) s"
      by (intro wp_mono [OF wp_pushcli [OF Cons.prems(2,3)]]) auto
    with True show ?thesis by simp
  next
    case False
    then obtain d' where d: "d = Suc d'" "nested d' es"
      using Cons.prems(1) by (cases d) auto
    with Cons have "wp (popcli aid) (\<lambda>_. wp (run_cli aid es) (\<lambda>_ t. cli_depth t aid i b n 0)) s"
      by (intro wp_mono [OF wp_popcli [of s aid i b n d']]) auto
    with False show ?thesis by simp
  qed
qed

text \<open>
  C16: every well-nested sequence of \<^verbatim>\<open>pushcli\<close> and \<^verbatim>\<open>popcli\<close> calls on a CPU returns without panic
  and leaves the interrupt flag and the nesting count of that CPU as they were: interrupts that
  were off stay off, interrupts that were on come back on.
\<close>

theorem cli_nesting_restores:
  assumes "cpu_ok s aid i" "nested 0 es"
  shows "\<exists>t. run_cli aid es s = Ret () t \<and> iflag t aid = iflag s aid \<and> ncli (cpus t ! i) = ncli (cpus s ! i)"
proof -
  have "cli_depth s aid i (iflag s aid) (ncli (cpus s ! i)) 0"
    using assms(1) by (simp add: cli_depth_def cpu_ok_def)
  then have "wp (run_cli aid es) (\<lambda>_ t. cli_depth t aid i (iflag s aid) (ncli (cpus s ! i)) 0) s"
    using assms by (intro wp_run_cli) (auto simp: cpu_ok_def)
  then show ?thesis
    by (auto simp: wp_iff_Ret cli_depth_def)
qed

theorem cli_nesting_restores_witness:
  "\<exists>t. run_cli 3 [True, True, False, True, False, False]
      \<lparr>mem = (\<lambda>_. 0), kern_end = 0, kern_data = 0, use_lock = False, freelist = 0,
       cpus = [\<lparr>apicid = 3, started = True, ncli = 0, intena = False, cpu_proc = None\<rparr>], ncpu = 1,
       iflag = (\<lambda>_. True), locks = (\<lambda>_. \<lparr>locked = False, lk_name = [], lk_cpu = None, pcs = []\<rparr>)\<rparr> = Ret () t \<and>
    iflag t 3"
  using cli_nesting_restores [of "\<lparr>mem = (\<lambda>_. 0), kern_end = 0, kern_data = 0, use_lock = False, freelist = 0,
       cpus = [\<lparr>apicid = 3, started = True, ncli = 0, intena = False, cpu_proc = None\<rparr>], ncpu = 1,
       iflag = (\<lambda>_. True), locks = (\<lambda>_. \<lparr>locked = False, lk_name = [], lk_cpu = None, pcs = []\<rparr>)\<rparr>" 3 0
      "[True, True, False, True, False, False]"]
  by (auto simp: cpu_ok_def cpu_at_def)

section \<open>Mutual exclusion\<close>

definition lock_inv :: "'a smp_st_scheme \<times> (u8 \<Rightarrow> lock_pc) \<times> (u8 \<Rightarrow> nat set) \<Rightarrow> bool" where
  "lock_inv = (\<lambda>(s, pc, held).
     (\<forall>l. locked (locks s l) \<longleftrightarrow> (\<exists>a. l \<in> held a)) \<and>
     (\<forall>l a b. l \<in> held a \<and> l \<in> held b \<longrightarrow> a = b) \<and>
     (\<forall>l i. lk_cpu (locks s l) = Some i \<longrightarrow> (\<exists>a. cpu_at s a i \<and> l \<in> held a)) \<and>
     (\<forall>l a. pc a = Taken l \<or> pc a = Releasing l \<longrightarrow> l \<in> held a) \<and>
     (\<forall>l a. pc a = Releasing l \<longrightarrow> lk_cpu (locks s l) = None))"

text \<open>\<^verbatim>\<open>pushcli\<close>, \<^verbatim>\<open>popcli\<close> and \<^verbatim>\<open>holding\<close> touch no lock and no CPU identifier.\<close>

definition lock_frame :: "'a smp_st_scheme \<Rightarrow> 'a smp_st_scheme \<Rightarrow> bool" where
  "lock_frame s t \<longleftrightarrow> locks t = locks s \<and> cpu_at t = cpu_at s"

lemma lock_frame_trans: "lock_frame s t \<Longrightarrow> lock_frame t u \<Longrightarrow> lock_frame s u"
  by (simp add: lock_frame_def)

lemma lock_frame_upd [simp]:
  "lock_frame s (s\<lparr>iflag := f\<rparr>)"
  "(\<And>c. apicid (g c) = apicid c) \<Longrightarrow> lock_frame s (upd_cpu i g s)"
  by (simp_all add: lock_frame_def fun_eq_iff)

lemma mycpu_Ret: "mycpu aid s = Ret i t \<longleftrightarrow> t = s \<and> \<not> iflag s aid \<and> cpu_at s aid i"
  by (auto simp: mycpu_def cpu_at_def split: option.splits)

lemmas op_Ret = kbind_Ret kget_def kmod_def kret_def kskip_def kwhen_def kpanic_def mycpu_Ret

lemma pushcli_frame: "pushcli aid s = Ret u t \<Longrightarrow> lock_frame s t"
  by (auto simp: pushcli_def op_Ret cli_def lock_frame_def fun_eq_iff split: if_splits)

lemma popcli_frame: "popcli aid s = Ret u t \<Longrightarrow> lock_frame s t"
  by (auto simp: popcli_def op_Ret sti_def lock_frame_def fun_eq_iff split: if_splits)

lemma holding_Ret:
  assumes "holding aid l s = Ret h t"
  shows "lock_frame s t \<and> (\<exists>i. cpu_at s aid i \<and> h = (locked (locks s l) \<and> lk_cpu (locks s l) = Some i))"
proof -
  from assms obtain u i where u: "pushcli aid s = Ret () u" "cpu_at u aid i"
    "h = (locked (locks u l) \<and> lk_cpu (locks u l) = Some i)" "popcli aid u = Ret () t"
    by (auto simp: holding_def op_Ret)
  with pushcli_frame [OF u(1)] popcli_frame [OF u(4)] show ?thesis
    by (auto simp: lock_frame_def)
qed

lemma acquire_enter_frame: "acquire_enter aid l s = Ret u t \<Longrightarrow> lock_frame s t"
  by (auto simp: acquire_enter_def op_Ret split: if_splits
      intro: lock_frame_trans dest!: pushcli_frame holding_Ret)

lemma release_enter_Ret:
  assumes "release_enter aid l s = Ret u t"
  shows "\<exists>i s'. lock_frame s s' \<and> cpu_at s aid i \<and> locked (locks s l) \<and> lk_cpu (locks s l) = Some i \<and>
     t = s'\<lparr>locks := (locks s')(l := (locks s' l)\<lparr>pcs := (pcs (locks s' l))[0 := 0], lk_cpu := None\<rparr>)\<rparr>"
  using assms by (auto simp: release_enter_def op_Ret split: if_splits dest!: holding_Ret)

lemma lock_inv_cong:
  "lock_frame s t \<Longrightarrow> lock_inv (t, pc, held) = lock_inv (s, pc, held)"
  by (simp add: lock_inv_def lock_frame_def)

lemma lock_invD:
  assumes "lock_inv (s, pc, held)"
  shows "locked (locks s l) \<longleftrightarrow> (\<exists>a. l \<in> held a)"
    and "l \<in> held a \<Longrightarrow> l \<in> held b \<Longrightarrow> a = b"
    and "lk_cpu (locks s l) = Some i \<Longrightarrow> \<exists>a. cpu_at s a i \<and> l \<in> held a"
    and "pc a = Taken l \<Longrightarrow> l \<in> held a"
    and "pc a = Releasing l \<Longrightarrow> l \<in> held a"
    and "pc a = Releasing l \<Longrightarrow> lk_cpu (locks s l) = None"
  using assms unfolding lock_inv_def by blast+

lemma lock_invI:
  assumes "\<And>l. locked (locks s l) \<longleftrightarrow> (\<exists>a. l \<in> held a)"
    and "\<And>l a b. l \<in> held a \<Longrightarrow> l \<in> held b \<Longrightarrow> a = b"
    and "\<And>l i. lk_cpu (locks s l) = Some i \<Longrightarrow> \<exists>a. cpu_at s a i \<and> l \<in> held a"
    and "\<And>l a. pc a = Taken l \<Longrightarrow> l \<in> held a"
    and "\<And>l a. pc a = Releasing l \<Longrightarrow> l \<in> held a"
    and "\<And>l a. pc a = Releasing l \<Longrightarrow> lk_cpu (locks s l) = None"
  shows "lock_inv (s, pc, held)"
  using assms unfolding lock_inv_def by blast

lemma lock_step_inv: "lock_inv x \<Longrightarrow> lock_step x y \<Longrightarrow> lock_inv y"
proof -
  assume inv: "lock_inv x" and step: "lock_step x y"
  from step inv show "lock_inv y"
  proof (induction rule: lock_step.induct)
    case (ls_enter pc aid l s t held)
    then have "lock_inv (s, pc(aid := Spinning l), held)"
      by (auto simp: lock_inv_def)
    with ls_enter show ?case
      using acquire_enter_frame lock_inv_cong by metis
  next
    case (ls_spin pc aid l s t held)
    then have "t = s\<lparr>locks := (locks s)(l := (locks s l)\<lparr>locked := True\<rparr>)\<rparr>" "locked (locks s l)"
      by (auto simp: xchg_lock_def op_Ret)
    with ls_spin.prems show ?case
      by (auto simp: lock_inv_def)
  next
    case (ls_take pc aid l s t held)
    then have "t = s\<lparr>locks := (locks s)(l := (locks s l)\<lparr>locked := True\<rparr>)\<rparr>" "\<not> locked (locks s l)"
      by (auto simp: xchg_lock_def op_Ret)
    note t = this
    note D = lock_invD [OF ls_take.prems]
    have nobody: "l \<notin> held a" for a
      using t(2) D(1) by blast
    show ?case
    proof (rule lock_invI)
      show "locked (locks t k) \<longleftrightarrow> (\<exists>a. k \<in> (held(aid := insert l (held aid))) a)" for k
        using D(1) [of k] by (auto simp: t)
      show "a = b" if "k \<in> (held(aid := insert l (held aid))) a" "k \<in> (held(aid := insert l (held aid))) b" for k a b
        using that nobody D(2) [of k] by (auto split: if_splits)
      show "\<exists>a. cpu_at t a i \<and> k \<in> (held(aid := insert l (held aid))) a" if "lk_cpu (locks t k) = Some i" for k i
        using that D(3) [of k i] by (auto simp: t split: if_splits)
      show "lk_cpu (locks t k) = None" if "(pc(aid := Taken l)) a = Releasing k" for k a
        using that D(6) [of a k] by (auto simp: t split: if_splits)
    qed (use D(4,5) in \<open>auto split: if_splits\<close>)
  next
    case (ls_record pc aid l v s t held)
    then obtain i where i: "cpu_at s aid i"
      "t = s\<lparr>locks := (locks s)(l := (locks s l)\<lparr>lk_cpu := Some i, pcs := getcallerpcs (mem s) v\<rparr>)\<rparr>"
      by (auto simp: acquire_record_def op_Ret)
    note D = lock_invD [OF ls_record.prems]
    have mine: "l \<in> held aid"
      using ls_record.hyps(1) D(4) by blast
    have rel: "pc a \<noteq> Releasing l" for a
      using ls_record.hyps(1) D(2) [OF mine] D(5) [of a l] by auto
    show ?case
    proof (rule lock_invI)
      show "locked (locks t k) \<longleftrightarrow> (\<exists>a. k \<in> held a)" for k
        using D(1) [of k] by (cases "k = l") (simp_all add: i)
      show "\<exists>a. cpu_at t a j \<and> k \<in> held a" if "lk_cpu (locks t k) = Some j" for k j
        using that D(3) [of k j] mine i(1) by (auto simp: i(2) split: if_splits)
      show "lk_cpu (locks t k) = None" if "(pc(aid := Outside)) a = Releasing k" for k a
        using that D(6) [of a k] rel [of a] by (auto simp: i(2) split: if_splits)
    qed (use D(2,4,5) in \<open>auto split: if_splits\<close>)
  next
    case (ls_unlock pc aid l s t held)
    then obtain i s' where u: "lock_frame s s'" "cpu_at s aid i" "locked (locks s l)" "lk_cpu (locks s l) = Some i"
      "t = s'\<lparr>locks := (locks s')(l := (locks s' l)\<lparr>pcs := (pcs (locks s' l))[0 := 0], lk_cpu := None\<rparr>)\<rparr>"
      using release_enter_Ret by blast
    note D = lock_invD [OF ls_unlock.prems [folded lock_inv_cong [OF u(1)]]]
    have mine: "l \<in> held aid"
      using lock_invD(3) [OF ls_unlock.prems u(4)] u(2) cpu_at_inj by blast
    show ?case
    proof (rule lock_invI)
      show "locked (locks t k) \<longleftrightarrow> (\<exists>a. k \<in> held a)" for k
        using D(1) [of k] by (cases "k = l") (simp_all add: u(5))
      show "\<exists>a. cpu_at t a j \<and> k \<in> held a" if "lk_cpu (locks t k) = Some j" for k j
        using that D(3) [of k j] by (auto simp: u(5) split: if_splits)
      show "k \<in> held a" if "(pc(aid := Releasing l)) a = Releasing k" for k a
        using that D(5) [of a k] mine by (auto split: if_splits)
      show "lk_cpu (locks t k) = None" if "(pc(aid := Releasing l)) a = Releasing k" for k a
        using that D(6) [of a k] by (auto simp: u(5) split: if_splits)
    qed (use D(2,4) in \<open>auto split: if_splits\<close>)
  next
    case (ls_store pc aid l s t held)
    let ?s' = "s\<lparr>locks := (locks s)(l := (locks s l)\<lparr>locked := False\<rparr>)\<rparr>"
    let ?held = "held(aid := held aid - {l})"
    have "popcli aid ?s' = Ret () t"
      using ls_store by (auto simp: release_store_def op_Ret)
    then have f: "lock_frame ?s' t" by (rule popcli_frame)
    note D = lock_invD [OF ls_store.prems]
    have mine: "l \<in> held aid" and rec: "lk_cpu (locks s l) = None"
      using ls_store.hyps(1) D(5,6) by blast+
    have held': "k \<in> ?held a \<longleftrightarrow> k \<in> held a \<and> k \<noteq> l" for k a
      using D(2) [OF mine] by (cases "a = aid") auto
    have "lock_inv (?s', pc(aid := Outside), ?held)"
    proof (rule lock_invI)
      show "locked (locks ?s' k) \<longleftrightarrow> (\<exists>a. k \<in> ?held a)" for k
        using D(1) [of k] unfolding held' by (cases "k = l") simp_all
      show "\<exists>a. cpu_at ?s' a j \<and> k \<in> ?held a" if "lk_cpu (locks ?s' k) = Some j" for k j
        using that D(3) [of k j] rec by (auto split: if_splits)
      show "k \<in> ?held a" if "(pc(aid := Outside)) a = Taken k" for k a
        using that D(4) [of a k] by (auto split: if_splits)
      show "k \<in> ?held a" if "(pc(aid := Outside)) a = Releasing k" for k a
        using that D(5) [of a k] by (auto split: if_splits)
      show "lk_cpu (locks ?s' k) = None" if "(pc(aid := Outside)) a = Releasing k" for k a
        using that D(6) [of a k] by (auto split: if_splits)
    qed (use D(2) in \<open>auto split: if_splits\<close>)
    then show ?case
      using lock_inv_cong [OF f] by simp
  qed
qed

interpretation lki: inv_system lock_init lock_step lock_inv
proof
  show "lock_inv x" if "lock_init x" for x :: "'a smp_st_scheme \<times> (u8 \<Rightarrow> lock_pc) \<times> (u8 \<Rightarrow> nat set)"
    using that by (cases x) (auto simp: lock_inv_def lock_init_def)
qed (rule lock_step_inv)

text \<open>
  C6: on any number of CPUs that run \<^verbatim>\<open>acquire\<close> and \<^verbatim>\<open>release\<close> in any interleaving, no two CPUs are
  inside the critical section of the same lock; and a CPU whose exchange won the lock excludes
  every other CPU from it until its \<^verbatim>\<open>release\<close> stores 0.
\<close>

theorem spinlock_mutual_exclusion:
  assumes "lock_init (s0, pc0, held0)" "lock_step\<^sup>*\<^sup>* (s0, pc0, held0) (s, pc, held)"
  shows "(in_critical s a l \<and> in_critical s b l \<longrightarrow> a = b) \<and>
    (l \<in> held a \<and> l \<in> held b \<longrightarrow> a = b) \<and> (in_critical s a l \<longrightarrow> l \<in> held a)"
proof -
  have inv: "lock_inv (s, pc, held)"
    using assms by (rule lki.inv_reachable)
  have crit: "in_critical s x l \<longleftrightarrow> (\<exists>i. cpu_at s x i \<and> locked (locks s l) \<and> lk_cpu (locks s l) = Some i)" for x
    by (simp add: in_critical_def cpu_at_def)
  have "l \<in> held x" if "in_critical s x l" for x
    using that lock_invD(3) [OF inv] cpu_at_inj by (fastforce simp: crit)
  moreover have "l \<in> held x \<Longrightarrow> l \<in> held y \<Longrightarrow> x = y" for x y
    using lock_invD(2) [OF inv] .
  ultimately show ?thesis by blast
qed

theorem spinlock_mutual_exclusion_witness:
  "\<exists>s pc held. lock_step\<^sup>*\<^sup>* (\<lparr>mem = (\<lambda>_. 0), kern_end = 0, kern_data = 0, use_lock = False, freelist = 0,
       cpus = [\<lparr>apicid = 3, started = True, ncli = 0, intena = False, cpu_proc = None\<rparr>], ncpu = 1,
       iflag = (\<lambda>_. False), locks = (\<lambda>_. \<lparr>locked = False, lk_name = [], lk_cpu = None, pcs = []\<rparr>)\<rparr> :: smp_st,
       (\<lambda>_. Outside), (\<lambda>_. {})) (s, pc, held) \<and> in_critical s 3 7 \<and> \<not> in_critical s 4 7"
proof -
  let ?s0 = "\<lparr>mem = (\<lambda>_. 0), kern_end = 0, kern_data = 0, use_lock = False, freelist = 0,
       cpus = [\<lparr>apicid = 3, started = True, ncli = 0, intena = False, cpu_proc = None\<rparr>], ncpu = 1,
       iflag = (\<lambda>_. False), locks = (\<lambda>_. \<lparr>locked = False, lk_name = [], lk_cpu = None, pcs = []\<rparr>)\<rparr> :: smp_st"
  let ?s1 = "?s0\<lparr>cpus := [\<lparr>apicid = 3, started = True, ncli = 1, intena = False, cpu_proc = None\<rparr>]\<rparr>"
  let ?s2 = "?s1\<lparr>locks := (locks ?s1)(7 := (locks ?s1 7)\<lparr>locked := True\<rparr>)\<rparr>"
  let ?s3 = "?s2\<lparr>locks := (locks ?s2)(7 := (locks ?s2 7)\<lparr>lk_cpu := Some 0, pcs := getcallerpcs (mem ?s2) 8\<rparr>)\<rparr>"
  let ?p = "\<lambda>_ :: u8. Outside" and ?h = "\<lambda>_ :: u8. {} :: nat set"
  have upd0: "(\<lambda>_ :: u8. False)(3 := False) = (\<lambda>_. False)" by auto
  have "acquire_enter 3 7 ?s0 = Ret () ?s1"
    by (simp add: acquire_enter_def pushcli_def holding_def popcli_def kbind_def kget_def kmod_def kret_def
        kwhen_def kskip_def cli_def mycpu_def upd_cpu_def upd0)
  then have 1: "lock_step (?s0, ?p, ?h) (?s1, ?p(3 := Spinning 7), ?h)"
    by (intro lock_step.ls_enter) auto
  have 2: "lock_step (?s1, ?p(3 := Spinning 7), ?h) (?s2, (?p(3 := Spinning 7))(3 := Taken 7), ?h(3 := insert 7 (?h 3)))"
    by (rule lock_step.ls_take) (simp_all add: xchg_lock_def kbind_def kget_def kmod_def kret_def)
  have 3: "lock_step (?s2, (?p(3 := Spinning 7))(3 := Taken 7), ?h(3 := insert 7 (?h 3)))
      (?s3, ((?p(3 := Spinning 7))(3 := Taken 7))(3 := Outside), ?h(3 := insert 7 (?h 3)))"
    by (rule lock_step.ls_record [where l = 7 and v = 8])
      (simp_all add: acquire_record_def mycpu_def kbind_def kmod_def)
  from 1 2 3 have run: "lock_step\<^sup>*\<^sup>* (?s0, ?p, ?h)
      (?s3, ((?p(3 := Spinning 7))(3 := Taken 7))(3 := Outside), ?h(3 := insert 7 (?h 3)))"
    by (meson rtranclp.rtrancl_into_rtrancl rtranclp.rtrancl_refl)
  have "lock_init (?s0, ?p, ?h)"
    by (simp add: lock_init_def)
  note ex = spinlock_mutual_exclusion [OF this run, of 3 7 4]
  have "in_critical ?s3 3 7"
    by (simp add: in_critical_def)
  moreover have "(3 :: u8) \<noteq> 4" by simp
  ultimately show ?thesis using ex run by blast
qed

end
