(* ===== verification/Console.thy ===== *)
theory Console
  imports Fs_Inode Kbd Spinlock
begin

text \<open>
  The console of \<^verbatim>\<open>console.c\<close>: number and message formatting, the text screen, the line editor that
  consumes keyboard or serial characters, and the device's \<^verbatim>\<open>read\<close> and \<^verbatim>\<open>write\<close>.  The screen memory is a
  function from cell to value, the hardware cursor is \<open>cga_pos\<close>, and the characters given to the
  serial port are appended to \<open>uart_out\<close>.
\<close>

section \<open>State\<close>

definition INPUT_BUF :: nat where "INPUT_BUF = 128"
definition BACKSPACE :: int where "BACKSPACE = 256"
definition NDEV :: nat where "NDEV = 10"
definition CONSOLE :: nat where "CONSOLE = 1"

text \<open>\<open>devsw\<close> says for each major number whether \<^verbatim>\<open>consoleread\<close> and \<^verbatim>\<open>consolewrite\<close> are installed.\<close>

record cons_st = fs_st +
  cga :: "nat \<Rightarrow> u16"
  cga_pos :: int
  uart :: bool
  uart_out :: "u8 list"
  panicked :: bool
  inp_buf :: bytes
  inp_r :: u32
  inp_w :: u32
  inp_e :: u32
  kbd_shift :: u32
  devsw :: "(bool \<times> bool) list"

section \<open>Formatting\<close>

function pdigits :: "nat \<Rightarrow> nat \<Rightarrow> nat list" where
  "pdigits b x = (if b < 2 then [x] else x mod b # (if x div b = 0 then [] else pdigits b (x div b)))"
  by pat_completeness auto
termination
  by (relation "measure snd") (auto simp: div_greater_zero_iff)

declare pdigits.simps [simp del]

definition digit_char :: "nat \<Rightarrow> u8" where
  "digit_char d = (if d < 10 then of_nat (48 + d) else of_nat (87 + d))"

text \<open>The characters \<^verbatim>\<open>printint\<close> prints; \<open>xx\<close> is the bit pattern of the argument as a signed number.\<close>

definition printint :: "int \<Rightarrow> nat \<Rightarrow> bool \<Rightarrow> bytes" where
  "printint xx base sign =
     (let neg = (sign \<and> xx < 0);
          x = nat ((if neg then - xx else xx) mod 2 ^ 32)
      in (if neg then [45] else []) @ rev (map digit_char (pdigits base x)))"

text \<open>The variable arguments of \<^verbatim>\<open>cprintf\<close>: a word, or a string (the null pointer is \<open>None\<close>).\<close>

datatype carg = CInt int | CStr "bytes option"

definition null_str :: bytes where
  "null_str = [40, 110, 117, 108, 108, 41]"

text \<open>
  The output of \<^verbatim>\<open>cprintf\<close> for a format string; \<open>None\<close> when the format asks for an argument that is
  not there or has the wrong kind.
\<close>

fun cprintf_fmt :: "bytes \<Rightarrow> carg list \<Rightarrow> bytes option" where
  "cprintf_fmt [] as = Some []"
| "cprintf_fmt [c] as = (if c = 37 then Some [] else Some [c])"
| "cprintf_fmt (c # d # fs) as =
     (if c \<noteq> 37 then map_option ((#) c) (cprintf_fmt (d # fs) as)
      else if d = 100 then
        (case as of CInt v # as' \<Rightarrow> map_option ((@) (printint v 10 True)) (cprintf_fmt fs as') | _ \<Rightarrow> None)
      else if d = 120 \<or> d = 112 then
        (case as of CInt v # as' \<Rightarrow> map_option ((@) (printint v 16 False)) (cprintf_fmt fs as') | _ \<Rightarrow> None)
      else if d = 115 then
        (case as of CStr s # as' \<Rightarrow>
           map_option ((@) (case s of None \<Rightarrow> null_str | Some t \<Rightarrow> t)) (cprintf_fmt fs as') | _ \<Rightarrow> None)
      else if d = 37 then map_option ((#) 37) (cprintf_fmt fs as)
      else map_option ((@) [37, d]) (cprintf_fmt fs as))"

section \<open>Output\<close>

text \<open>The cursor after character \<open>c\<close>, and the screen with the character written.\<close>

definition cga_put :: "int \<Rightarrow> int \<Rightarrow> (nat \<Rightarrow> u16) \<Rightarrow> int \<times> (nat \<Rightarrow> u16)" where
  "cga_put c pos crt =
     (if c = 10 then (pos + (80 - pos mod 80), crt)
      else if c = BACKSPACE then ((if pos > 0 then pos - 1 else pos), crt)
      else (pos + 1, crt(nat pos := of_int (c mod 256) OR 0x0700)))"

text \<open>Scrolling: the rows 1 to 23 move up by one, the cells from the cursor to the end of row 23 are cleared.\<close>

definition cga_scroll :: "int \<Rightarrow> (nat \<Rightarrow> u16) \<Rightarrow> int \<times> (nat \<Rightarrow> u16)" where
  "cga_scroll pos crt =
     (let crt1 = (\<lambda>i. if i < 23 * 80 then crt (i + 80) else crt i);
          pos1 = pos - 80
      in (pos1, (\<lambda>i. if nat pos1 \<le> i \<and> i < 24 * 80 then 0 else crt1 i)))"

definition cgaputc :: "int \<Rightarrow> ('a cons_st_scheme, unit) kop" where
  "cgaputc c s =
     (let (pos, crt) = cga_put c (cga_pos s) (cga s) in
      if pos < 0 \<or> pos > 25 * 80 then Panic ''pos under/overflow''
      else
        (let (pos', crt') = (if pos div 80 \<ge> 24 then cga_scroll pos crt else (pos, crt))
         in Ret () (s\<lparr>cga_pos := pos', cga := crt'(nat pos' := 0x0720)\<rparr>)))"

definition uartputc :: "int \<Rightarrow> ('a cons_st_scheme, unit) kop" where
  "uartputc c = kmod (\<lambda>s. if uart s then s\<lparr>uart_out := uart_out s @ [of_int c]\<rparr> else s)"

definition consputc :: "int \<Rightarrow> ('a cons_st_scheme, unit) kop" where
  "consputc c =
     kbind (kget panicked) (\<lambda>p.
     if p then khang
     else
       kbind (if c = BACKSPACE
              then kbind (uartputc 8) (\<lambda>_. kbind (uartputc 32) (\<lambda>_. uartputc 8))
              else uartputc c) (\<lambda>_.
       cgaputc c))"

definition cprintf :: "bytes \<Rightarrow> carg list \<Rightarrow> ('a cons_st_scheme, unit) kop" where
  "cprintf fmt as =
     (case cprintf_fmt fmt as of
        None \<Rightarrow> kfault
      | Some out \<Rightarrow> kfor out (\<lambda>c. consputc (uint c)))"

section \<open>Input\<close>

definition inp_at :: "'a cons_st_scheme \<Rightarrow> u32 \<Rightarrow> u8" where
  "inp_at s i = inp_buf s ! (unat i mod INPUT_BUF)"

text \<open>The loop of \<^verbatim>\<open>C('U')\<close>: the new edit index and the number of characters erased.\<close>

primrec kill_line :: "nat \<Rightarrow> 'a cons_st_scheme \<Rightarrow> u32 \<Rightarrow> u32" where
  "kill_line 0 s e = e"
| "kill_line (Suc n) s e = (if e \<noteq> inp_w s \<and> inp_at s (e - 1) \<noteq> 10 then kill_line n s (e - 1) else e)"

text \<open>One character of \<^verbatim>\<open>consoleintr\<close>; the boolean result asks for a process listing.\<close>

definition cons_char :: "int \<Rightarrow> ('a cons_st_scheme, bool) kop" where
  "cons_char c =
     (if c = 16 then kret True
      else if c = 21 then
        kbind (kget (\<lambda>s. kill_line (unat (inp_e s - inp_w s)) s (inp_e s))) (\<lambda>e.
        kbind (kget (\<lambda>s. unat (inp_e s - e))) (\<lambda>k.
        kbind (kmod (\<lambda>s. s\<lparr>inp_e := e\<rparr>)) (\<lambda>_.
        kbind (kfor (replicate k ()) (\<lambda>_. consputc BACKSPACE)) (\<lambda>_. kret False))))
      else if c = 8 \<or> c = 127 then
        kbind (kget (\<lambda>s. inp_e s \<noteq> inp_w s)) (\<lambda>any.
        kbind (kwhen any
          (kbind (kmod (\<lambda>s. s\<lparr>inp_e := inp_e s - 1\<rparr>)) (\<lambda>_. consputc BACKSPACE))) (\<lambda>_. kret False))
      else
        kbind (kget (\<lambda>s. c \<noteq> 0 \<and> inp_e s - inp_r s < of_nat INPUT_BUF)) (\<lambda>ok.
        kbind (kwhen ok
          (let c' = (if c = 13 then 10 else c) in
           kbind (kmod (\<lambda>s. s\<lparr>inp_buf := (inp_buf s)[unat (inp_e s) mod INPUT_BUF := of_int c'], inp_e := inp_e s + 1\<rparr>)) (\<lambda>_.
           kbind (consputc c') (\<lambda>_.
           kbind (kget (\<lambda>s. c' = 10 \<or> c' = 4 \<or> inp_e s = inp_r s + of_nat INPUT_BUF)) (\<lambda>line.
           kwhen line
             (kbind (kmod (\<lambda>s. s\<lparr>inp_w := inp_e s\<rparr>)) (\<lambda>_. wakeup ChInput))))))) (\<lambda>_. kret False)))"

text \<open>
  \<^verbatim>\<open>procdump\<close>: a line per used slot.  The back trace of a sleeping process is read from the saved
  frame pointer.
\<close>

definition state_name :: "procstate \<Rightarrow> string" where
  "state_name st = (case st of UNUSED \<Rightarrow> ''unused'' | EMBRYO \<Rightarrow> ''embryo'' | SLEEPING \<Rightarrow> ''sleep ''
     | RUNNABLE \<Rightarrow> ''runble'' | RUNNING \<Rightarrow> ''run   '' | ZOMBIE \<Rightarrow> ''zombie'')"

definition str :: "string \<Rightarrow> bytes" where
  "str cs = map (\<lambda>c. of_char c) cs"

definition procdump_line :: "u32 list \<Rightarrow> proc \<Rightarrow> ('a cons_st_scheme, unit) kop" where
  "procdump_line bt p =
     (if p_state p = UNUSED then kskip
      else
        kbind (cprintf (str ''%d %s %s tickets:%d count:%d '')
          [CInt (p_pid p), CStr (Some (str (state_name (p_state p)))), CStr (Some (takeWhile (\<lambda>c. c \<noteq> 0) (p_name p))),
           CInt (p_tickets p), CInt (p_execution_count p)]) (\<lambda>_.
        kbind (kwhen (p_state p = SLEEPING)
          (kfor (takeWhile (\<lambda>c. c \<noteq> 0) (take 10 bt)) (\<lambda>pc. cprintf (str '' %p'') [CInt (uint pc)]))) (\<lambda>_.
        cprintf [10] [])))"

definition procdump :: "('a cons_st_scheme, unit) kop" where
  "procdump =
     kbind (kget (\<lambda>s. map (\<lambda>p. (getcallerpcs (mem s) (ctx_ebp (p_context p) + 8), p)) (ptable s))) (\<lambda>ps.
     kfor ps (\<lambda>(bt, p). procdump_line bt p))"

text \<open>\<^verbatim>\<open>consoleintr\<close> on the characters its \<^verbatim>\<open>getc\<close> delivers.\<close>

primrec consoleintr_loop :: "int list \<Rightarrow> bool \<Rightarrow> ('a cons_st_scheme, bool) kop" where
  "consoleintr_loop [] dump = kret dump"
| "consoleintr_loop (c # cs) dump =
     (if c < 0 then kret dump
      else kbind (cons_char c) (\<lambda>d. consoleintr_loop cs (dump \<or> d)))"

definition consoleintr :: "int list \<Rightarrow> ('a cons_st_scheme, unit) kop" where
  "consoleintr cs =
     kbind (consoleintr_loop cs False) (\<lambda>dump.
     kwhen dump (procdump))"

definition kbdintr :: "u32 list \<Rightarrow> ('a cons_st_scheme, unit) kop" where
  "kbdintr data =
     kbind (kget kbd_shift) (\<lambda>sh.
     kbind (kmod (\<lambda>s. s\<lparr>kbd_shift := snd (kbd_chars data sh)\<rparr>)) (\<lambda>_.
     consoleintr (fst (kbd_chars data sh))))"

text \<open>\<^verbatim>\<open>uartintr\<close>: the characters the serial port has received, if there is one.\<close>

definition uartintr :: "u8 list \<Rightarrow> ('a cons_st_scheme, unit) kop" where
  "uartintr rx =
     kbind (kget uart) (\<lambda>u. consoleintr (if u then map uint rx else []))"

section \<open>The device operations\<close>

text \<open>
  The loop of \<^verbatim>\<open>consoleread\<close> with \<open>n\<close> bytes still wanted and \<open>acc\<close> already copied.  \<open>None\<close> is the
  early return of a killed process.  A process that finds no input sleeps and continues with the
  same arguments when it runs again.
\<close>

primrec consoleread_loop :: "nat \<Rightarrow> nat \<Rightarrow> bytes \<Rightarrow> ('a cons_st_scheme, bytes option) kop" where
  "consoleread_loop target 0 acc = kret (Some acc)"
| "consoleread_loop target (Suc n) acc =
     kbind (kget (\<lambda>s. inp_r s = inp_w s)) (\<lambda>empty.
     if empty then
       kbind curproc (\<lambda>i.
       kbind (kget (\<lambda>s. p_killed (ptable s ! i))) (\<lambda>killed.
       if killed then kret None else sleep ChInput (Some L_cons)))
     else
       kbind (kget (\<lambda>s. inp_at s (inp_r s))) (\<lambda>c.
       kbind (kmod (\<lambda>s. s\<lparr>inp_r := inp_r s + 1\<rparr>)) (\<lambda>_.
       if c = 4 then
         kbind (kwhen (Suc n < target) (kmod (\<lambda>s. s\<lparr>inp_r := inp_r s - 1\<rparr>))) (\<lambda>_. kret (Some acc))
       else if c = 10 then kret (Some (acc @ [c]))
       else consoleread_loop target n (acc @ [c]))))"

definition consoleread :: "nat \<Rightarrow> int \<Rightarrow> ('a cons_st_scheme, bytes option) kop" where
  "consoleread ip n =
     kbind (iunlock (Some ip)) (\<lambda>_.
     kbind (consoleread_loop (nat n) (nat n) []) (\<lambda>r.
     kbind (ilock (Some ip)) (\<lambda>_.
     kret r)))"

definition consolewrite :: "nat \<Rightarrow> bytes \<Rightarrow> ('a cons_st_scheme, int) kop" where
  "consolewrite ip bs =
     kbind (iunlock (Some ip)) (\<lambda>_.
     kbind (kfor bs (\<lambda>c. consputc (uint c))) (\<lambda>_.
     kbind (ilock (Some ip)) (\<lambda>_.
     kret (int (length bs)))))"

definition consoleinit :: "('a cons_st_scheme, unit) kop" where
  "consoleinit = kmod (\<lambda>s. s\<lparr>devsw := (devsw s)[CONSOLE := (True, True)]\<rparr>)"

end
