(* ===== verification/Fs_Rw.thy ===== *)
theory Fs_Rw
  imports Console
begin

text \<open>
  Reading and writing the contents of an inode, \<^verbatim>\<open>readi\<close> and \<^verbatim>\<open>writei\<close> of \<^verbatim>\<open>fs.c\<close>.  \<^verbatim>\<open>readi\<close> returns the
  bytes it copies to \<^verbatim>\<open>dst\<close>, and \<open>None\<close> for \<^verbatim>\<open>-1\<close>; \<^verbatim>\<open>writei\<close> takes the \<^verbatim>\<open>n\<close> bytes at \<^verbatim>\<open>src\<close>.
\<close>

lemma chunk_pos: "0 < BSIZE - off mod BSIZE"
  by (simp add: BSIZE_def)

text \<open>The offsets and lengths \<^verbatim>\<open>(off, m)\<close> of the iterations of the copy loops.\<close>

function chunks :: "nat \<Rightarrow> nat \<Rightarrow> (nat \<times> nat) list" where
  "chunks off n =
     (if n = 0 then []
      else let m = min n (BSIZE - off mod BSIZE) in (off, m) # chunks (off + m) (n - m))"
  by pat_completeness auto

termination
  by (relation "measure snd") (use chunk_pos in auto)

declare chunks.simps [simp del]

primrec readi_loop :: "nat \<Rightarrow> (nat \<times> nat) list \<Rightarrow> ('a fs_st_scheme, bytes) kop" where
  "readi_loop ip [] = kret []"
| "readi_loop ip (c # cs) =
     kbind (ino ip) (\<lambda>x.
     kbind (bmap ip (fst c div BSIZE)) (\<lambda>a.
     kbind (bread (i_dev x) a) (\<lambda>bp.
     kbind (kget (\<lambda>s. peek (b_data (bufs s ! bp)) (fst c mod BSIZE) (snd c))) (\<lambda>d.
     kbind (brelse bp) (\<lambda>_.
     kbind (readi_loop ip cs) (\<lambda>rest.
     kret (d @ rest)))))))"

definition dev_reader :: "'a cons_st_scheme \<Rightarrow> int \<Rightarrow> bool" where
  "dev_reader s major \<longleftrightarrow> 0 \<le> major \<and> major < int NDEV \<and> fst (devsw s ! nat major)"

definition dev_writer :: "'a cons_st_scheme \<Rightarrow> int \<Rightarrow> bool" where
  "dev_writer s major \<longleftrightarrow> 0 \<le> major \<and> major < int NDEV \<and> snd (devsw s ! nat major)"

definition readi :: "nat \<Rightarrow> nat \<Rightarrow> nat \<Rightarrow> ('a cons_st_scheme, bytes option) kop" where
  "readi ip off n =
     kbind (ino ip) (\<lambda>x.
     if i_type x = T_DEV then
       kbind (kget (\<lambda>s. dev_reader s (i_major x))) (\<lambda>r.
       if r then consoleread ip (s32 (int n)) else kret None)
     else if off > i_size x \<or> w32 (off + n) < off then kret None
     else
       kbind (readi_loop ip (chunks off (if off + n > i_size x then i_size x - off else n))) (\<lambda>bs.
       kret (Some bs)))"

primrec writei_loop :: "nat \<Rightarrow> (nat \<times> nat) list \<Rightarrow> bytes \<Rightarrow> ('a fs_st_scheme, unit) kop" where
  "writei_loop ip [] src = kskip"
| "writei_loop ip (c # cs) src =
     kbind (ino ip) (\<lambda>x.
     kbind (bmap ip (fst c div BSIZE)) (\<lambda>a.
     kbind (bread (i_dev x) a) (\<lambda>bp.
     kbind (set_buf_data bp (\<lambda>d. poke d (fst c mod BSIZE) (take (snd c) src))) (\<lambda>_.
     kbind (log_write bp) (\<lambda>_.
     kbind (brelse bp) (\<lambda>_.
     writei_loop ip cs (drop (snd c) src)))))))"

definition writei :: "nat \<Rightarrow> bytes \<Rightarrow> nat \<Rightarrow> ('a cons_st_scheme, int) kop" where
  "writei ip src off =
     kbind (ino ip) (\<lambda>x.
     let n = length src in
     if i_type x = T_DEV then
       kbind (kget (\<lambda>s. dev_writer s (i_major x))) (\<lambda>w.
       if w then consolewrite ip src else kret (- 1))
     else if off > i_size x \<or> w32 (off + n) < off then kret (- 1)
     else if off + n > MAXFILE * BSIZE then kret (- 1)
     else
       kbind (writei_loop ip (chunks off n) src) (\<lambda>_.
       kbind (ino ip) (\<lambda>x.
       kbind (kwhen (n > 0 \<and> off + n > i_size x)
         (kbind (kmod (upd_inode ip (\<lambda>x. x\<lparr>i_size := off + n\<rparr>))) (\<lambda>_. iupdate ip))) (\<lambda>_.
       kret (int n)))))"

end
