(* ===== verification/Fs_Dir.thy ===== *)
theory Fs_Dir
  imports Fs_Rw
begin

text \<open>
  Directories and path names of \<^verbatim>\<open>fs.c\<close>: \<^verbatim>\<open>dirlookup\<close>, \<^verbatim>\<open>dirlink\<close>, \<^verbatim>\<open>skipelem\<close>, \<^verbatim>\<open>namex\<close>.  A path is the list
  of its characters without the terminating NUL; \<^verbatim>\<open>name\<close> is the caller's buffer of \<open>DIRSIZ\<close> bytes.
\<close>

section \<open>Directories\<close>

definition namecmp :: "bytes \<Rightarrow> bytes \<Rightarrow> int" where
  "namecmp s t = strncmp_l s t DIRSIZ"

definition dir_offsets :: "nat \<Rightarrow> nat list" where
  "dir_offsets sz = map (\<lambda>k. 16 * k) [0..<(sz + 15) div 16]"

text \<open>The scan of \<^verbatim>\<open>dirlookup\<close>: the inode number and the offset of the entry.\<close>

primrec dirlookup_loop :: "nat \<Rightarrow> bytes \<Rightarrow> nat list \<Rightarrow> ('a cons_st_scheme, (nat \<times> nat) option) kop" where
  "dirlookup_loop dp name [] = kret None"
| "dirlookup_loop dp name (off # offs) =
     kbind (readi dp off 16) (\<lambda>r.
     case r of
       None \<Rightarrow> kpanic ''dirlookup read''
     | Some bs \<Rightarrow>
         if length bs \<noteq> 16 then kpanic ''dirlookup read''
         else
           (let de = dirent_of bs in
            if de_inum de = 0 then dirlookup_loop dp name offs
            else if namecmp name (de_name de) = 0 then kret (Some (de_inum de, off))
            else dirlookup_loop dp name offs))"

definition dirlookup :: "nat \<Rightarrow> bytes \<Rightarrow> ('a cons_st_scheme, (nat \<times> nat) option) kop" where
  "dirlookup dp name =
     kbind (ino dp) (\<lambda>x.
     if i_type x \<noteq> T_DIR then kpanic ''dirlookup not DIR''
     else
       kbind (dirlookup_loop dp name (dir_offsets (i_size x))) (\<lambda>r.
       case r of
         None \<Rightarrow> kret None
       | Some (inum, off) \<Rightarrow> kbind (iget (i_dev x) inum) (\<lambda>ip. kret (Some (ip, off)))))"

text \<open>The offset at which \<^verbatim>\<open>dirlink\<close>'s second loop stops.\<close>

primrec free_dirent_loop :: "nat \<Rightarrow> nat \<Rightarrow> nat list \<Rightarrow> ('a cons_st_scheme, nat) kop" where
  "free_dirent_loop dp eoff [] = kret eoff"
| "free_dirent_loop dp eoff (off # offs) =
     kbind (readi dp off 16) (\<lambda>r.
     case r of
       None \<Rightarrow> kpanic ''dirlink read''
     | Some bs \<Rightarrow>
         if length bs \<noteq> 16 then kpanic ''dirlink read''
         else if de_inum (dirent_of bs) = 0 then kret off
         else free_dirent_loop dp eoff offs)"

definition dirlink :: "nat \<Rightarrow> bytes \<Rightarrow> nat \<Rightarrow> ('a cons_st_scheme, int) kop" where
  "dirlink dp name inum =
     kbind (dirlookup dp name) (\<lambda>r.
     case r of
       Some (ip, _) \<Rightarrow> kbind (iput ip) (\<lambda>_. kret (- 1))
     | None \<Rightarrow>
         kbind (ino dp) (\<lambda>x.
         kbind (free_dirent_loop dp (16 * ((i_size x + 15) div 16)) (dir_offsets (i_size x))) (\<lambda>off.
         kbind (writei dp (dirent_bytes \<lparr>de_inum = inum, de_name = strncpy_l name DIRSIZ\<rparr>) off) (\<lambda>n.
         if n \<noteq> 16 then kpanic ''dirlink'' else kret 0))))"

section \<open>Paths\<close>

definition SLASH :: u8 where "SLASH = 47"

definition skipelem :: "bytes \<Rightarrow> bytes \<Rightarrow> (bytes \<times> bytes) option" where
  "skipelem path name =
     (let p = dropWhile (\<lambda>c. c = SLASH) path in
      if p = [] then None
      else
        (let s = takeWhile (\<lambda>c. c \<noteq> SLASH) p;
             rest = dropWhile (\<lambda>c. c = SLASH) (dropWhile (\<lambda>c. c \<noteq> SLASH) p);
             name' = (if length s \<ge> DIRSIZ then take DIRSIZ s else s @ [0] @ drop (length s + 1) name)
         in Some (name', rest)))"

lemma skipelem_shorter: "skipelem path name = Some (name', rest) \<Longrightarrow> length rest < length path"
proof -
  assume a: "skipelem path name = Some (name', rest)"
  let ?p = "dropWhile (\<lambda>c. c = SLASH) path"
  have p: "?p \<noteq> []" and r: "rest = dropWhile (\<lambda>c. c = SLASH) (dropWhile (\<lambda>c. c \<noteq> SLASH) ?p)"
    using a by (auto simp: skipelem_def Let_def split: if_splits)
  have "hd ?p \<noteq> SLASH"
    using hd_dropWhile [OF p] by simp
  then have "length (dropWhile (\<lambda>c. c \<noteq> SLASH) ?p) < length ?p"
    using p by (cases ?p) (auto simp: length_dropWhile_le less_Suc_eq_le)
  moreover have "length rest \<le> length (dropWhile (\<lambda>c. c \<noteq> SLASH) ?p)" "length ?p \<le> length path"
    unfolding r by (rule length_dropWhile_le)+
  ultimately show ?thesis
    by simp
qed

text \<open>The values of \<^verbatim>\<open>name\<close> and \<^verbatim>\<open>path\<close> in the iterations of \<^verbatim>\<open>namex\<close>'s loop.\<close>

function path_elems :: "bytes \<Rightarrow> bytes \<Rightarrow> (bytes \<times> bytes) list" where
  "path_elems path name =
     (case skipelem path name of
        None \<Rightarrow> []
      | Some (name', rest) \<Rightarrow> (name', rest) # path_elems rest name')"
  by pat_completeness auto
termination
  by (relation "measure (length \<circ> fst)") (auto dest: skipelem_shorter)

declare path_elems.simps [simp del]

primrec namex_loop :: "nat \<Rightarrow> bool \<Rightarrow> bytes \<Rightarrow> (bytes \<times> bytes) list \<Rightarrow> ('a cons_st_scheme, (nat \<times> bytes) option) kop" where
  "namex_loop ip parent name [] =
     (if parent then kbind (iput ip) (\<lambda>_. kret None) else kret (Some (ip, name)))"
| "namex_loop ip parent name (e # es) =
     kbind (ilock (Some ip)) (\<lambda>_.
     kbind (ino ip) (\<lambda>x.
     if i_type x \<noteq> T_DIR then kbind (iunlockput ip) (\<lambda>_. kret None)
     else if parent \<and> snd e = [] then
       kbind (iunlock (Some ip)) (\<lambda>_. kret (Some (ip, fst e)))
     else
       kbind (dirlookup ip (fst e)) (\<lambda>r.
       case r of
         None \<Rightarrow> kbind (iunlockput ip) (\<lambda>_. kret None)
       | Some (nxt, _) \<Rightarrow>
           kbind (iunlockput ip) (\<lambda>_. namex_loop nxt parent (fst e) es))))"

definition namex :: "bytes \<Rightarrow> bool \<Rightarrow> bytes \<Rightarrow> ('a cons_st_scheme, (nat \<times> bytes) option) kop" where
  "namex path parent name =
     kbind (if path \<noteq> [] \<and> hd path = SLASH then iget ROOTDEV ROOTINO
            else
              kbind curproc (\<lambda>i.
              kbind (kget (\<lambda>s. p_cwd (ptable s ! i))) (\<lambda>cwd.
              kbind (kderef cwd) idup))) (\<lambda>ip.
     namex_loop ip parent name (path_elems path name))"

text \<open>\<^verbatim>\<open>namei\<close>'s own name buffer is uninitialised stack memory; its contents are not looked at.\<close>

definition namei :: "bytes \<Rightarrow> ('a cons_st_scheme, nat option) kop" where
  "namei path =
     kbind (namex path False (replicate DIRSIZ 0)) (\<lambda>r. kret (map_option fst r))"

definition nameiparent :: "bytes \<Rightarrow> bytes \<Rightarrow> ('a cons_st_scheme, (nat \<times> bytes) option) kop" where
  "nameiparent path name = namex path True name"

end
