(* ===== verification/Pipe.thy ===== *)
theory Pipe
  imports Fs_Dir
begin

text \<open>
  The ring buffer of \<^verbatim>\<open>pipe.c\<close>: \<^verbatim>\<open>struct pipe\<close>, the copy loops of \<^verbatim>\<open>pipewrite\<close> and \<^verbatim>\<open>piperead\<close>, and the
  interleavings of one pipe's writers and readers.  The counters are machine words that wrap.
\<close>

section \<open>The ring buffer\<close>

definition PIPESIZE :: nat where "PIPESIZE = 512"

record pipe =
  pi_data :: bytes
  pi_nread :: u32
  pi_nwrite :: u32
  pi_readopen :: bool
  pi_writeopen :: bool

definition pipe_full :: "pipe \<Rightarrow> bool" where
  "pipe_full p \<longleftrightarrow> pi_nwrite p = pi_nread p + 512"

definition pipe_empty :: "pipe \<Rightarrow> bool" where
  "pipe_empty p \<longleftrightarrow> pi_nread p = pi_nwrite p"

definition pipe_put :: "u8 \<Rightarrow> pipe \<Rightarrow> pipe" where
  "pipe_put b p = p\<lparr>pi_data := (pi_data p)[unat (pi_nwrite p) mod PIPESIZE := b], pi_nwrite := pi_nwrite p + 1\<rparr>"

definition pipe_get :: "pipe \<Rightarrow> u8 \<times> pipe" where
  "pipe_get p = (pi_data p ! (unat (pi_nread p) mod PIPESIZE), p\<lparr>pi_nread := pi_nread p + 1\<rparr>)"

text \<open>
  The loop of \<^verbatim>\<open>pipewrite\<close> up to its end or to the point where the writer fails or sleeps with the
  given bytes still to be written.
\<close>

datatype pw = PwDone | PwFail bytes | PwSleep bytes

primrec pipewrite_loop :: "bool \<Rightarrow> bytes \<Rightarrow> pipe \<Rightarrow> pw \<times> pipe" where
  "pipewrite_loop killed [] p = (PwDone, p)"
| "pipewrite_loop killed (b # bs) p =
     (if pipe_full p then
        (if \<not> pi_readopen p \<or> killed then (PwFail (b # bs), p) else (PwSleep (b # bs), p))
      else pipewrite_loop killed bs (pipe_put b p))"

primrec piperead_loop :: "nat \<Rightarrow> pipe \<Rightarrow> bytes \<times> pipe" where
  "piperead_loop 0 p = ([], p)"
| "piperead_loop (Suc n) p =
     (if pipe_empty p then ([], p)
      else
        (let (b, p1) = pipe_get p; (bs, p2) = piperead_loop n p1
         in (b # bs, p2)))"

definition pipe_new :: "bytes \<Rightarrow> pipe" where
  "pipe_new junk = \<lparr>pi_data = junk, pi_nread = 0, pi_nwrite = 0, pi_readopen = True, pi_writeopen = True\<rparr>"

section \<open>Bounded queues\<close>

text \<open>What the readers and writers of a bounded first-in first-out buffer rely on.\<close>

locale fifo =
  fixes ok :: "'q \<Rightarrow> bool"
    and queue :: "'q \<Rightarrow> 'a list"
    and cap :: nat
    and put :: "'a \<Rightarrow> 'q \<Rightarrow> 'q"
    and get :: "'q \<Rightarrow> 'a \<times> 'q"
  assumes put_law: "ok q \<Longrightarrow> length (queue q) < cap \<Longrightarrow> ok (put x q) \<and> queue (put x q) = queue q @ [x]"
    and get_law: "ok q \<Longrightarrow> queue q \<noteq> [] \<Longrightarrow> ok (snd (get q)) \<and> queue q = fst (get q) # queue (snd (get q))"
    and cap_law: "ok q \<Longrightarrow> length (queue q) \<le> cap"
begin

lemma puts_append:
  "ok q \<Longrightarrow> length (queue q) + length xs \<le> cap \<Longrightarrow> ok (fold put xs q) \<and> queue (fold put xs q) = queue q @ xs"
proof (induction xs arbitrary: q)
  case (Cons x xs)
  then have "ok (put x q)" "queue (put x q) = queue q @ [x]"
    using put_law [of q x] by auto
  then show ?case
    using Cons.IH [of "put x q"] Cons.prems by simp
qed simp

lemma gets_prefix:
  "ok q \<Longrightarrow> n \<le> length (queue q) \<Longrightarrow>
    ok (((snd \<circ> get) ^^ n) q) \<and> queue (((snd \<circ> get) ^^ n) q) = drop n (queue q)"
proof (induction n arbitrary: q)
  case (Suc n)
  then have "queue q \<noteq> []"
    by auto
  then have q: "ok (snd (get q))" "queue q = fst (get q) # queue (snd (get q))"
    using get_law [OF Suc.prems(1)] by blast+
  then have "n \<le> length (queue (snd (get q)))"
    using Suc.prems(2) by (metis length_Cons Suc_le_mono)
  then show ?case
    using Suc.IH [OF q(1)] q(2) by (metis comp_apply drop_Suc_Cons funpow_Suc_right)
qed simp

text \<open>Whatever fits is read back in the order it was written.\<close>

lemma round_trip:
  "ok q \<Longrightarrow> queue q = [] \<Longrightarrow> length (xs @ [x]) \<le> cap \<Longrightarrow>
    fst (get (((snd \<circ> get) ^^ length xs) (fold put (xs @ [x]) q))) = x"
  using puts_append [of q "xs @ [x]"] gets_prefix [of "fold put (xs @ [x]) q" "length xs"]
    get_law [of "((snd \<circ> get) ^^ length xs) (fold put (xs @ [x]) q)"]
  by (auto simp del: fold_append)

end

section \<open>The queue of buffered bytes\<close>

definition pipe_len :: "pipe \<Rightarrow> nat" where
  "pipe_len p = unat (pi_nwrite p - pi_nread p)"

definition pipe_queue :: "pipe \<Rightarrow> bytes" where
  "pipe_queue p = map (\<lambda>k. pi_data p ! (unat (pi_nread p + of_nat k) mod PIPESIZE)) [0..<pipe_len p]"

definition pipe_ok :: "pipe \<Rightarrow> bool" where
  "pipe_ok p \<longleftrightarrow> length (pi_data p) = PIPESIZE \<and> pipe_len p \<le> PIPESIZE"

lemma pipe_new_ok: "length junk = PIPESIZE \<Longrightarrow> pipe_ok (pipe_new junk) \<and> pipe_queue (pipe_new junk) = []"
  by (simp add: pipe_ok_def pipe_new_def pipe_len_def pipe_queue_def)

lemma ring_index: "unat (x + of_nat k :: u32) mod PIPESIZE = (unat x + k) mod PIPESIZE"
proof -
  have "unat (x + of_nat k) = (unat x + k) mod 2 ^ 32"
    by (simp add: unat_word_ariths unsigned_of_nat take_bit_eq_mod mod_add_right_eq)
  then show ?thesis
    by (simp add: PIPESIZE_def mod_mod_cancel)
qed

lemma nwrite_eq: "pi_nwrite p = pi_nread p + of_nat (pipe_len p)"
  by (simp add: pipe_len_def)

lemma pipe_queue_alt:
  "pipe_queue p = map (\<lambda>k. pi_data p ! ((unat (pi_nread p) + k) mod PIPESIZE)) [0..<pipe_len p]"
  by (simp add: pipe_queue_def ring_index)

lemma length_pipe_queue [simp]: "length (pipe_queue p) = pipe_len p"
  by (simp add: pipe_queue_def)

lemma pipe_empty_len: "pipe_empty p \<longleftrightarrow> pipe_len p = 0"
  by (auto simp: pipe_empty_def pipe_len_def unat_eq_0)

lemma pipe_full_len: "pipe_full p \<longleftrightarrow> pipe_len p = PIPESIZE"
proof -
  have "pi_nwrite p = pi_nread p + 512 \<longleftrightarrow> pi_nwrite p - pi_nread p = 512"
    by (auto simp: algebra_simps)
  also have "\<dots> \<longleftrightarrow> unat (pi_nwrite p - pi_nread p) = unat (512 :: u32)"
    by (simp only: word_unat_eq_iff)
  finally show ?thesis
    by (simp add: pipe_full_def pipe_len_def PIPESIZE_def)
qed

lemma ring_index_neq:
  assumes "k < n" "n < PIPESIZE"
  shows "(a + k) mod PIPESIZE \<noteq> (a + n) mod PIPESIZE"
proof
  assume "(a + k) mod PIPESIZE = (a + n) mod PIPESIZE"
  then have "PIPESIZE dvd (a + n) - (a + k)"
    using assms mod_eq_dvd_iff_nat [of "a + k" "a + n" PIPESIZE] by simp
  then show False
    using assms dvd_imp_le [of PIPESIZE "n - k"] by auto
qed

lemma pipe_put_len: "pipe_len p < PIPESIZE \<Longrightarrow> pipe_len (pipe_put b p) = Suc (pipe_len p)"
proof -
  assume a: "pipe_len p < PIPESIZE"
  have "pi_nwrite p + 1 - pi_nread p = of_nat (Suc (pipe_len p))"
    by (subst nwrite_eq) simp
  moreover have "pi_nwrite (pipe_put b p) = pi_nwrite p + 1" "pi_nread (pipe_put b p) = pi_nread p"
    by (simp_all add: pipe_put_def)
  ultimately have "pipe_len (pipe_put b p) = unat (of_nat (Suc (pipe_len p)) :: u32)"
    by (simp only: pipe_len_def [of "pipe_put b p"])
  then show ?thesis
    using a by (simp add: PIPESIZE_def del: of_nat_Suc)
qed

lemma pipe_put_law:
  assumes "pipe_ok p" "length (pipe_queue p) < PIPESIZE"
  shows "pipe_ok (pipe_put b p) \<and> pipe_queue (pipe_put b p) = pipe_queue p @ [b]"
proof -
  let ?r = "unat (pi_nread p)" and ?n = "pipe_len p"
  have len: "pipe_len (pipe_put b p) = Suc ?n" and d: "length (pi_data p) = PIPESIZE"
    using assms by (auto simp: pipe_put_len pipe_ok_def)
  have w: "unat (pi_nwrite p) mod PIPESIZE = (?r + ?n) mod PIPESIZE"
    by (subst nwrite_eq) (rule ring_index)
  have "pipe_queue (pipe_put b p)
      = map (\<lambda>k. (pi_data p)[(?r + ?n) mod PIPESIZE := b] ! ((?r + k) mod PIPESIZE)) [0..<Suc ?n]"
    unfolding pipe_queue_alt len by (simp add: pipe_put_def w)
  also have "\<dots> = pipe_queue p @ [b]"
    using assms(2) d ring_index_neq [of _ ?n ?r, THEN not_sym]
    by (auto simp: pipe_queue_alt PIPESIZE_def)
  finally show ?thesis
    using assms len by (simp add: pipe_ok_def pipe_put_def)
qed

lemma pipe_get_law:
  assumes "pipe_ok p" "pipe_queue p \<noteq> []"
  shows "pipe_ok (snd (pipe_get p)) \<and> pipe_queue p = fst (pipe_get p) # pipe_queue (snd (pipe_get p))"
proof -
  let ?q = "snd (pipe_get p)" and ?r = "unat (pi_nread p)"
  obtain n where n: "pipe_len p = Suc n"
    using assms(2) by (cases "pipe_len p") (auto simp: pipe_queue_def)
  have "n < 2 ^ 32"
    using n assms(1) by (simp add: pipe_ok_def PIPESIZE_def)
  moreover have "pi_nwrite p - (pi_nread p + 1) = of_nat n"
    by (subst nwrite_eq) (simp add: n)
  ultimately have len: "pipe_len ?q = n"
    by (simp add: pipe_get_def pipe_len_def)
  have r: "(unat (pi_nread p + 1) + k) mod PIPESIZE = (?r + Suc k) mod PIPESIZE" for k
    using ring_index [of "pi_nread p" 1] ring_index [of "pi_nread p + 1" k] ring_index [of "pi_nread p" "Suc k"]
    by (simp add: add.commute add.left_commute)
  have "pipe_queue p = pi_data p ! (?r mod PIPESIZE) # map (\<lambda>k. pi_data p ! ((?r + Suc k) mod PIPESIZE)) [0..<n]"
    unfolding pipe_queue_alt n by (simp del: upt_Suc add: upt_conv_Cons map_Suc_upt [symmetric] comp_def)
  also have "\<dots> = fst (pipe_get p) # pipe_queue ?q"
    unfolding pipe_queue_alt len by (simp add: pipe_get_def r del: add_Suc_right)
  finally show ?thesis
    using assms(1) n len by (simp add: pipe_ok_def pipe_get_def)
qed

interpretation pq: fifo pipe_ok pipe_queue PIPESIZE pipe_put pipe_get
  by unfold_locales (use pipe_put_law pipe_get_law in \<open>auto simp: pipe_ok_def\<close>)

section \<open>Interleaved readers and writers\<close>

lemma pipe_put_open [simp]: "pi_readopen (pipe_put b p) = pi_readopen p" "pi_writeopen (pipe_put b p) = pi_writeopen p"
  by (simp_all add: pipe_put_def)

lemma pipe_get_open [simp]:
  "pi_readopen (snd (pipe_get p)) = pi_readopen p" "pi_writeopen (snd (pipe_get p)) = pi_writeopen p"
  by (simp_all add: pipe_get_def)

text \<open>The bytes a run of the write loop left over.\<close>

primrec pw_rest :: "pw \<Rightarrow> bytes" where
  "pw_rest PwDone = []"
| "pw_rest (PwFail bs) = bs"
| "pw_rest (PwSleep bs) = bs"

lemma pipewrite_loop_spec:
  "pipe_ok p \<Longrightarrow> pipewrite_loop killed bs p = (r, p') \<Longrightarrow>
    pipe_ok p' \<and> (\<exists>ws. bs = ws @ pw_rest r \<and> pipe_queue p' = pipe_queue p @ ws) \<and>
    pi_readopen p' = pi_readopen p \<and> pi_writeopen p' = pi_writeopen p \<and>
    (r \<noteq> PwDone \<longrightarrow> pipe_full p')"
proof (induction bs arbitrary: p)
  case (Cons b bs)
  show ?case
  proof (cases "pipe_full p")
    case True
    then show ?thesis
      using Cons.prems by (auto split: if_splits)
  next
    case False
    then have "pipe_ok (pipe_put b p)" "pipe_queue (pipe_put b p) = pipe_queue p @ [b]"
      using pq.put_law [of p b] Cons.prems(1) by (auto simp: pipe_full_len pipe_ok_def)
    then show ?thesis
      using Cons.IH [of "pipe_put b p"] Cons.prems(2) False by auto
  qed
qed simp

lemma piperead_loop_spec:
  "pipe_ok p \<Longrightarrow> piperead_loop n p = (bs, p') \<Longrightarrow>
    pipe_ok p' \<and> pipe_queue p = bs @ pipe_queue p' \<and> length bs = min n (length (pipe_queue p)) \<and>
    pi_readopen p' = pi_readopen p \<and> pi_writeopen p' = pi_writeopen p"
proof (induction n arbitrary: p bs)
  case (Suc n)
  show ?case
  proof (cases "pipe_empty p")
    case True
    then show ?thesis
      using Suc.prems by (auto simp: pipe_empty_len)
  next
    case False
    then have "length (pipe_queue p) \<noteq> 0"
      by (simp add: pipe_empty_len)
    then have g: "pipe_ok (snd (pipe_get p))" "pipe_queue p = fst (pipe_get p) # pipe_queue (snd (pipe_get p))"
      using pq.get_law [OF Suc.prems(1)] by blast+
    obtain bs' where b: "bs = fst (pipe_get p) # bs'" "piperead_loop n (snd (pipe_get p)) = (bs', p')"
      using Suc.prems(2) False by (auto split: prod.splits)
    note ih = Suc.IH [OF g(1) b(2)]
    have "pipe_len p = Suc (pipe_len (snd (pipe_get p)))"
      using arg_cong [OF g(2), of length] by simp
    then have "length bs = min (Suc n) (pipe_len p)"
      using ih b(1) by simp
    moreover have "pipe_queue p = bs @ pipe_queue p'"
      unfolding b(1) by (subst g(2)) (simp add: ih)
    ultimately show ?thesis
      using ih pipe_get_open by (metis length_pipe_queue)
  qed
qed simp

text \<open>
  One pipe and what has passed through it: \<open>sent\<close> is everything its writers have stored and
  \<open>received\<close> everything its readers have been given.  A writer that sleeps continues later with
  the bytes it has left, possibly after other writers.
\<close>

record pipe_run =
  pr_pipe :: pipe
  pr_sent :: bytes
  pr_received :: bytes

inductive pipe_step :: "pipe_run \<Rightarrow> pipe_run \<Rightarrow> bool" where
  ps_write: "pipewrite_loop killed bs (pr_pipe h) = (r, p') \<Longrightarrow> bs = ws @ pw_rest r \<Longrightarrow>
    pipe_step h (h\<lparr>pr_pipe := p', pr_sent := pr_sent h @ ws\<rparr>)"
| ps_read: "piperead_loop n (pr_pipe h) = (bs, p') \<Longrightarrow>
    pipe_step h (h\<lparr>pr_pipe := p', pr_received := pr_received h @ bs\<rparr>)"
| ps_close_w: "pipe_step h (h\<lparr>pr_pipe := (pr_pipe h)\<lparr>pi_writeopen := False\<rparr>\<rparr>)"
| ps_close_r: "pipe_step h (h\<lparr>pr_pipe := (pr_pipe h)\<lparr>pi_readopen := False\<rparr>\<rparr>)"

definition pipe_inv :: "pipe_run \<Rightarrow> bool" where
  "pipe_inv h \<longleftrightarrow> pipe_ok (pr_pipe h) \<and> pr_sent h = pr_received h @ pipe_queue (pr_pipe h)"

lemma pipe_step_inv: "pipe_step h h' \<Longrightarrow> pipe_inv h \<Longrightarrow> pipe_inv h'"
proof (induction rule: pipe_step.induct)
  case (ps_write killed bs h r p' ws)
  then show ?case
    using pipewrite_loop_spec [OF _ ps_write(1)] by (auto simp: pipe_inv_def)
next
  case (ps_read n h bs p')
  then show ?case
    using piperead_loop_spec [OF _ ps_read(1)] by (auto simp: pipe_inv_def)
qed (simp_all add: pipe_inv_def pipe_ok_def pipe_queue_def pipe_len_def)

text \<open>C5: However writers and readers of a pipe interleave, and whatever their chunk sizes, the bytes
  received so far are a prefix of the bytes sent, in order and without loss or duplication; what is
  missing is exactly the contents of the ring, at most 512 bytes, even when the 32-bit counters wrap.\<close>

theorem pipe_fifo:
  assumes "length junk = PIPESIZE"
    and "pipe_step\<^sup>*\<^sup>* \<lparr>pr_pipe = pipe_new junk, pr_sent = [], pr_received = []\<rparr> h"
  shows "pr_sent h = pr_received h @ pipe_queue (pr_pipe h) \<and> length (pipe_queue (pr_pipe h)) \<le> PIPESIZE"
proof -
  have "pipe_inv \<lparr>pr_pipe = pipe_new junk, pr_sent = [], pr_received = []\<rparr>"
    using pipe_new_ok [OF assms(1)] by (simp add: pipe_inv_def)
  with assms(2) have "pipe_inv h"
    by (induction rule: rtranclp_induct) (auto intro: pipe_step_inv)
  then show ?thesis
    by (simp add: pipe_inv_def pipe_ok_def)
qed

text \<open>A writer stores three bytes and a reader takes two of them.\<close>

definition demo_pipe :: pipe where
  "demo_pipe = pipe_new (replicate PIPESIZE 0)"

theorem pipe_fifo_witness:
  "length (replicate PIPESIZE (0 :: u8)) = PIPESIZE \<and>
   (\<exists>h. pipe_step\<^sup>*\<^sup>* \<lparr>pr_pipe = demo_pipe, pr_sent = [], pr_received = []\<rparr> h \<and>
     pr_sent h = [7, 8, 9] \<and> pr_received h = [7, 8] \<and> pipe_queue (pr_pipe h) = [9])"
proof -
  let ?h0 = "\<lparr>pr_pipe = demo_pipe, pr_sent = [], pr_received = []\<rparr>"
  let ?p1 = "pipe_put 9 (pipe_put 8 (pipe_put 7 demo_pipe))"
  let ?h1 = "\<lparr>pr_pipe = ?p1, pr_sent = [7, 8, 9], pr_received = []\<rparr>"
  let ?h2 = "\<lparr>pr_pipe = ?p1\<lparr>pi_nread := 2\<rparr>, pr_sent = [7, 8, 9], pr_received = [7, 8]\<rparr>"
  note ev = demo_pipe_def pipe_new_def pipe_put_def pipe_full_def pipe_empty_def pipe_get_def PIPESIZE_def
  have "pipewrite_loop False [7, 8, 9] (pr_pipe ?h0) = (PwDone, ?p1)"
    by (simp add: ev)
  then have "pipe_step ?h0 (?h0\<lparr>pr_pipe := ?p1, pr_sent := pr_sent ?h0 @ [7, 8, 9]\<rparr>)"
    by (rule pipe_step.ps_write) simp
  then have 1: "pipe_step ?h0 ?h1"
    by simp
  have "piperead_loop (Suc (Suc 0)) (pr_pipe ?h1) = ([7, 8], ?p1\<lparr>pi_nread := 2\<rparr>)"
    by (simp add: ev)
  then have "pipe_step ?h1 (?h1\<lparr>pr_pipe := ?p1\<lparr>pi_nread := 2\<rparr>, pr_received := pr_received ?h1 @ [7, 8]\<rparr>)"
    by (rule pipe_step.ps_read)
  then have 2: "pipe_step\<^sup>*\<^sup>* ?h0 ?h2"
    using 1 by simp
  have "pr_sent ?h2 = pr_received ?h2 @ pipe_queue (pr_pipe ?h2)"
    using pipe_fifo [OF _ 2 [unfolded demo_pipe_def]] by (simp add: demo_pipe_def)
  then show ?thesis
    using 2 by (intro conjI exI [of _ ?h2]) simp_all
qed

end
