(* ===== verification/Filetab.thy ===== *)
theory Filetab
  imports Pipe
begin

text \<open>
  Open files, \<^verbatim>\<open>file.c\<close>, and the operations of \<^verbatim>\<open>pipe.c\<close> on the kernel state.  The pipe structures
  that live in allocated pages are kept in a store that maps the page's address to the structure;
  a page that holds no live pipe is not in it, and using one is a fault.
\<close>

section \<open>Data\<close>

datatype ftype = FD_NONE | FD_PIPE | FD_INODE

record kfile =
  f_type :: ftype
  f_ref :: int
  f_readable :: bool
  f_writable :: bool
  f_pipe :: u32
  f_ip :: nat
  f_off :: nat

definition NFILE :: nat where "NFILE = 100"

record file_st = cons_st +
  ftable :: "kfile list"
  pipes :: "u32 \<Rightarrow> pipe option"

definition fil :: "nat \<Rightarrow> ('a file_st_scheme, kfile) kop" where
  "fil f = kget (\<lambda>s. ftable s ! f)"

definition upd_file :: "nat \<Rightarrow> (kfile \<Rightarrow> kfile) \<Rightarrow> 'a file_st_scheme \<Rightarrow> 'a file_st_scheme" where
  "upd_file f g s = s\<lparr>ftable := (ftable s)[f := g (ftable s ! f)]\<rparr>"

definition pipe_at :: "u32 \<Rightarrow> ('a file_st_scheme, pipe) kop" where
  "pipe_at p = kbind (kget (\<lambda>s. pipes s p)) kderef"

definition set_pipe :: "u32 \<Rightarrow> pipe \<Rightarrow> ('a file_st_scheme, unit) kop" where
  "set_pipe p x = kmod (\<lambda>s. s\<lparr>pipes := (pipes s)(p \<mapsto> x)\<rparr>)"

section \<open>Pipes\<close>

definition pipeclose :: "u32 \<Rightarrow> bool \<Rightarrow> ('a file_st_scheme, unit) kop" where
  "pipeclose p writable =
     kbind (pipe_at p) (\<lambda>x.
     kbind (if writable then kseq (set_pipe p (x\<lparr>pi_writeopen := False\<rparr>)) (wakeup (ChPipeRead p))
            else kseq (set_pipe p (x\<lparr>pi_readopen := False\<rparr>)) (wakeup (ChPipeWrite p))) (\<lambda>_.
     kbind (pipe_at p) (\<lambda>x.
     kwhen (\<not> pi_readopen x \<and> \<not> pi_writeopen x)
       (kseq (kmod (\<lambda>s. s\<lparr>pipes := (pipes s)(p := None)\<rparr>)) (kfree p)))))"

text \<open>
  \<^verbatim>\<open>pipewrite\<close> with the bytes \<open>bs\<close> of its \<open>n\<close> bytes still to be written: a writer that finds the pipe
  full sleeps, and continues here with the bytes it had left.
\<close>

definition pipewrite_from :: "u32 \<Rightarrow> int \<Rightarrow> bytes \<Rightarrow> ('a file_st_scheme, int) kop" where
  "pipewrite_from p n bs =
     kbind curproc (\<lambda>i.
     kbind (kget (\<lambda>s. p_killed (ptable s ! i))) (\<lambda>killed.
     kbind (pipe_at p) (\<lambda>x.
     let (r, x') = pipewrite_loop killed bs x in
     kbind (set_pipe p x') (\<lambda>_.
     case r of
       PwDone \<Rightarrow> kseq (wakeup (ChPipeRead p)) (kret n)
     | PwFail _ \<Rightarrow> kret (- 1)
     | PwSleep _ \<Rightarrow> kseq (wakeup (ChPipeRead p)) (sleep (ChPipeWrite p) (Some (L_pipe p)))))))"

definition pipewrite :: "u32 \<Rightarrow> bytes \<Rightarrow> ('a file_st_scheme, int) kop" where
  "pipewrite p bs = pipewrite_from p (int (length bs)) bs"

definition piperead :: "u32 \<Rightarrow> int \<Rightarrow> ('a file_st_scheme, bytes option) kop" where
  "piperead p n =
     kbind (pipe_at p) (\<lambda>x.
     if pipe_empty x \<and> pi_writeopen x then
       kbind curproc (\<lambda>i.
       kbind (kget (\<lambda>s. p_killed (ptable s ! i))) (\<lambda>killed.
       if killed then kret None else sleep (ChPipeRead p) (Some (L_pipe p))))
     else
       (let (bs, x') = piperead_loop (nat n) x in
        kseq (set_pipe p x') (kseq (wakeup (ChPipeWrite p)) (kret (Some bs)))))"

section \<open>The file table\<close>

definition filealloc :: "('a file_st_scheme, nat option) kop" where
  "filealloc =
     kbind (kget (\<lambda>s. find_index (\<lambda>f. f_ref f = 0) (ftable s))) (\<lambda>r.
     case r of
       None \<Rightarrow> kret None
     | Some f \<Rightarrow> kseq (kmod (upd_file f (\<lambda>x. x\<lparr>f_ref := 1\<rparr>))) (kret (Some f)))"

definition filedup :: "nat \<Rightarrow> ('a file_st_scheme, nat) kop" where
  "filedup f =
     kbind (fil f) (\<lambda>x.
     if f_ref x < 1 then kpanic ''filedup''
     else kseq (kmod (upd_file f (\<lambda>x. x\<lparr>f_ref := f_ref x + 1\<rparr>))) (kret f))"

definition fileclose :: "nat \<Rightarrow> ('a file_st_scheme, unit) kop" where
  "fileclose f =
     kbind (fil f) (\<lambda>x.
     if f_ref x < 1 then kpanic ''fileclose''
     else
       kbind (kmod (upd_file f (\<lambda>x. x\<lparr>f_ref := f_ref x - 1\<rparr>))) (\<lambda>_.
       kbind (fil f) (\<lambda>ff.
       if f_ref ff > 0 then kskip
       else
         kbind (kmod (upd_file f (\<lambda>x. x\<lparr>f_ref := 0, f_type := FD_NONE\<rparr>))) (\<lambda>_.
         case f_type ff of
           FD_PIPE \<Rightarrow> pipeclose (f_pipe ff) (f_writable ff)
         | FD_INODE \<Rightarrow> kseq begin_op (kseq (iput (f_ip ff)) end_op)
         | FD_NONE \<Rightarrow> kskip))))"

definition filestat :: "nat \<Rightarrow> ('a file_st_scheme, stat option) kop" where
  "filestat f =
     kbind (fil f) (\<lambda>x.
     if f_type x = FD_INODE then
       kbind (ilock (Some (f_ip x))) (\<lambda>_.
       kbind (stati (f_ip x)) (\<lambda>st.
       kbind (iunlock (Some (f_ip x))) (\<lambda>_. kret (Some st))))
     else kret None)"

text \<open>The offset advances by what was transferred.\<close>

definition advance :: "nat \<Rightarrow> nat \<Rightarrow> ('a file_st_scheme, unit) kop" where
  "advance f r = kwhen (r > 0) (kmod (upd_file f (\<lambda>x. x\<lparr>f_off := w32 (f_off x + r)\<rparr>)))"

definition fileread :: "nat \<Rightarrow> int \<Rightarrow> ('a file_st_scheme, bytes option) kop" where
  "fileread f n =
     kbind (fil f) (\<lambda>x.
     if \<not> f_readable x then kret None
     else
       (case f_type x of
          FD_PIPE \<Rightarrow> piperead (f_pipe x) n
        | FD_INODE \<Rightarrow>
            kbind (ilock (Some (f_ip x))) (\<lambda>_.
            kbind (readi (f_ip x) (f_off x) (nat (n mod 2 ^ 32))) (\<lambda>r.
            kbind (case r of None \<Rightarrow> kskip | Some bs \<Rightarrow> advance f (length bs)) (\<lambda>_.
            kbind (iunlock (Some (f_ip x))) (\<lambda>_.
            kret r))))
        | FD_NONE \<Rightarrow> kpanic ''fileread''))"

text \<open>The most bytes that one transaction of \<^verbatim>\<open>filewrite\<close> writes.\<close>

definition filewrite_max :: nat where
  "filewrite_max = ((MAXOPBLOCKS - 1 - 1 - 2) div 2) * 512"

text \<open>
  The loop of \<^verbatim>\<open>filewrite\<close> over the pieces of the buffer, each written in a transaction of its own;
  it returns the number of bytes written.
\<close>

primrec filewrite_loop :: "nat \<Rightarrow> bytes list \<Rightarrow> ('a file_st_scheme, nat) kop" where
  "filewrite_loop f [] = kret 0"
| "filewrite_loop f (bs # rest) =
     kbind (fil f) (\<lambda>x.
     kbind begin_op (\<lambda>_.
     kbind (ilock (Some (f_ip x))) (\<lambda>_.
     kbind (writei (f_ip x) bs (f_off x)) (\<lambda>r.
     kbind (advance f (nat r)) (\<lambda>_.
     kbind (iunlock (Some (f_ip x))) (\<lambda>_.
     kbind end_op (\<lambda>_.
     if r < 0 then kret 0
     else if r \<noteq> int (length bs) then kpanic ''short filewrite''
     else kbind (filewrite_loop f rest) (\<lambda>i. kret (length bs + i)))))))))"

function pieces :: "nat \<Rightarrow> bytes \<Rightarrow> bytes list" where
  "pieces m bs = (if bs = [] \<or> m = 0 then [] else take m bs # pieces m (drop m bs))"
  by pat_completeness auto
termination
  by (relation "measure (length \<circ> snd)") auto

declare pieces.simps [simp del]

definition filewrite :: "nat \<Rightarrow> bytes \<Rightarrow> ('a file_st_scheme, int) kop" where
  "filewrite f bs =
     kbind (fil f) (\<lambda>x.
     if \<not> f_writable x then kret (- 1)
     else
       (case f_type x of
          FD_PIPE \<Rightarrow> pipewrite (f_pipe x) bs
        | FD_INODE \<Rightarrow>
            kbind (filewrite_loop f (pieces filewrite_max bs)) (\<lambda>i.
            kret (if i = length bs then int (length bs) else - 1))
        | FD_NONE \<Rightarrow> kpanic ''filewrite''))"

section \<open>Making a pipe\<close>

definition pipe_end :: "u32 \<Rightarrow> bool \<Rightarrow> kfile \<Rightarrow> kfile" where
  "pipe_end p writable x = x\<lparr>f_type := FD_PIPE, f_readable := \<not> writable, f_writable := writable, f_pipe := p\<rparr>"

definition close_opt :: "nat option \<Rightarrow> ('a file_st_scheme, unit) kop" where
  "close_opt f = (case f of None \<Rightarrow> kskip | Some f \<Rightarrow> fileclose f)"

text \<open>The data bytes of a new pipe are what the page held (\<^verbatim>\<open>p->data\<close> follows the 52-byte spin lock).\<close>

definition pipealloc :: "('a file_st_scheme, (nat \<times> nat) option) kop" where
  "pipealloc =
     kbind filealloc (\<lambda>f0.
     case f0 of
       None \<Rightarrow> kret None
     | Some a \<Rightarrow>
         kbind filealloc (\<lambda>f1.
         case f1 of
           None \<Rightarrow> kseq (close_opt f0) (kret None)
         | Some b \<Rightarrow>
             kbind kalloc (\<lambda>p.
             if p = 0 then kseq (close_opt f0) (kseq (close_opt f1) (kret None))
             else
               kbind (kget (\<lambda>s. map (\<lambda>k. mem s (p + 52 + of_nat k)) [0..<PIPESIZE])) (\<lambda>junk.
               kbind (set_pipe p (pipe_new junk)) (\<lambda>_.
               kbind (kmod (upd_file a (pipe_end p False))) (\<lambda>_.
               kbind (kmod (upd_file b (pipe_end p True))) (\<lambda>_.
               kret (Some (a, b)))))))))"

end
