(* ===== verification/Proc.thy ===== *)
theory Proc
  imports Filetab Vm
begin

text \<open>
  The life cycle of processes and threads in \<^verbatim>\<open>proc.c\<close>: \<^verbatim>\<open>userinit\<close>, \<^verbatim>\<open>growproc\<close>, \<^verbatim>\<open>fork\<close>, \<^verbatim>\<open>clone\<close>, \<^verbatim>\<open>exit\<close>, \<^verbatim>\<open>wait\<close>,
  \<^verbatim>\<open>forkret\<close>.  The tracing calls of \<^verbatim>\<open>cprintf\<close> in these functions are left out.
\<close>

section \<open>The kernel's access to the current address space\<close>

text \<open>
  The kernel runs on the page table of the current process and uses user addresses directly.  In
  kernel mode an access needs a present page, and a write (with \<^verbatim>\<open>CR0_WP\<close> set) a writable one; otherwise
  the processor traps and \<^verbatim>\<open>trap()\<close> panics.
\<close>

definition sup_addr :: "memory \<Rightarrow> u32 \<Rightarrow> bool \<Rightarrow> u32 \<Rightarrow> u32 option" where
  "sup_addr m pgdir write va =
     (let e = load32 m (pgdir + 4 * PDX va) in
      if e AND PTE_P = 0 then None
      else
        (let q = load32 m (P2V (PTE_ADDR e) + 4 * PTX va) in
         if q AND PTE_P = 0 \<or> (write \<and> q AND PTE_W = 0) then None
         else Some (P2V (PTE_ADDR q) + (va AND 0xFFF))))"

definition cur_pgdir :: "('a proc_st_scheme, u32) kop" where
  "cur_pgdir = kbind curproc (\<lambda>i. kget (\<lambda>s. p_pgdir (ptable s ! i)))"

primrec uread :: "nat \<Rightarrow> u32 \<Rightarrow> ('a proc_st_scheme, bytes) kop" where
  "uread 0 va = kret []"
| "uread (Suc n) va =
     kbind cur_pgdir (\<lambda>pg.
     kbind (kget (\<lambda>s. sup_addr (mem s) pg False va)) (\<lambda>a.
     case a of
       None \<Rightarrow> kpanic ''trap''
     | Some ka \<Rightarrow>
         kbind (kget (\<lambda>s. mem s ka)) (\<lambda>b.
         kbind (uread n (va + 1)) (\<lambda>bs. kret (b # bs)))))"

primrec uwrite :: "u32 \<Rightarrow> bytes \<Rightarrow> ('a proc_st_scheme, unit) kop" where
  "uwrite va [] = kskip"
| "uwrite va (b # bs) =
     kbind cur_pgdir (\<lambda>pg.
     kbind (kget (\<lambda>s. sup_addr (mem s) pg True va)) (\<lambda>a.
     case a of
       None \<Rightarrow> kpanic ''trap''
     | Some ka \<Rightarrow> kseq (kmod (\<lambda>s. s\<lparr>mem := (mem s)(ka := b)\<rparr>)) (uwrite (va + 1) bs)))"

section \<open>The first process\<close>

definition SEG_UCODE :: u16 where "SEG_UCODE = 3"
definition SEG_UDATA :: u16 where "SEG_UDATA = 4"
definition DPL_USER :: u16 where "DPL_USER = 3"
definition FL_IF :: u32 where "FL_IF = 0x200"

definition user_trapframe :: trapframe where
  "user_trapframe =
     (let ds = push_bit 3 SEG_UDATA OR DPL_USER in
      zero_trapframe\<lparr>tf_cs := push_bit 3 SEG_UCODE OR DPL_USER, tf_ds := ds, tf_es := ds, tf_ss := ds,
        tf_eflags := FL_IF, tf_esp := PGSIZE, tf_eip := 0\<rparr>)"

definition set_name :: "bytes \<Rightarrow> proc \<Rightarrow> proc" where
  "set_name nm p = p\<lparr>p_name := poke (p_name p) 0 (safestrcpy_l nm 16)\<rparr>"

definition userinit :: "bytes \<Rightarrow> ('a file_st_scheme, unit) kop" where
  "userinit initcode =
     kbind allocproc (\<lambda>r.
     kbind (kmod (\<lambda>s. s\<lparr>initproc := r\<rparr>)) (\<lambda>_.
     kbind (kderef r) (\<lambda>i.
     kbind setupkvm (\<lambda>pg.
     kbind (kmod (upd_proc i (\<lambda>p. p\<lparr>p_pgdir := pg\<rparr>))) (\<lambda>_.
     if pg = 0 then kpanic ''userinit: out of memory?''
     else
       kbind (inituvm pg initcode) (\<lambda>_.
       kbind (kmod (upd_proc i (\<lambda>p. set_name (str ''initcode'') (p\<lparr>p_sz := PGSIZE, p_tf := user_trapframe\<rparr>)))) (\<lambda>_.
       kbind (namei [SLASH]) (\<lambda>ip.
       kmod (upd_proc i (\<lambda>p. p\<lparr>p_cwd := ip, p_state := RUNNABLE\<rparr>))))))))))"

definition growproc :: "int \<Rightarrow> ('a proc_st_scheme, int) kop" where
  "growproc n =
     kbind curproc (\<lambda>i.
     kbind (kget (\<lambda>s. ptable s ! i)) (\<lambda>p.
     kbind (if n > 0 then allocuvm (p_pgdir p) (p_sz p) (p_sz p + of_int n)
            else if n < 0 then deallocuvm (p_pgdir p) (p_sz p) (p_sz p + of_int n)
            else kret (p_sz p)) (\<lambda>sz.
     if n \<noteq> 0 \<and> sz = 0 then kret (- 1)
     else
       kbind (kmod (upd_proc i (\<lambda>p. p\<lparr>p_sz := sz\<rparr>))) (\<lambda>_.
       kbind (switchuvm (Some i)) (\<lambda>_.
       kret 0)))))"

section \<open>Creating processes and threads\<close>

definition TOTAL_MAX_TICKETS :: int where "TOTAL_MAX_TICKETS = 100000"
definition DEFAULT_TICKETS :: int where "DEFAULT_TICKETS = 1"

text \<open>What \<^verbatim>\<open>fork\<close> does to the scheduling data of every slot of the table.\<close>

definition reset_sched :: "proc \<Rightarrow> proc" where
  "reset_sched p =
     (if p_state p = RUNNABLE \<or> p_state p = RUNNING then
        (if p_tickets p \<noteq> 0 then
           (let st = cdiv TOTAL_MAX_TICKETS (p_tickets p)
            in p\<lparr>p_stride := st, p_pass := st, p_execution_count := 0, p_execution_time := 0\<rparr>)
         else p)
      else p\<lparr>p_execution_count := 0, p_execution_time := 0, p_tickets := DEFAULT_TICKETS, p_stride := 0\<rparr>)"

definition dup_fd :: "nat \<Rightarrow> nat \<Rightarrow> nat \<Rightarrow> ('a file_st_scheme, unit) kop" where
  "dup_fd np i fd =
     kbind (kget (\<lambda>s. p_ofile (ptable s ! i) ! fd)) (\<lambda>f.
     case f of
       None \<Rightarrow> kskip
     | Some f \<Rightarrow>
         kbind (filedup f) (\<lambda>g. kmod (upd_proc np (\<lambda>p. p\<lparr>p_ofile := (p_ofile p)[fd := Some g]\<rparr>))))"

definition fork :: "('a file_st_scheme, int) kop" where
  "fork =
     kbind curproc (\<lambda>i.
     kbind allocproc (\<lambda>r.
     case r of
       None \<Rightarrow> kret (- 1)
     | Some np \<Rightarrow>
         kbind (kget (\<lambda>s. ptable s ! i)) (\<lambda>p.
         kbind (copyuvm (p_pgdir p) (p_sz p)) (\<lambda>pg.
         kbind (kmod (upd_proc np (\<lambda>q. q\<lparr>p_pgdir := pg\<rparr>))) (\<lambda>_.
         if pg = 0 then
           kbind (kget (\<lambda>s. p_kstack (ptable s ! np))) (\<lambda>k.
           kbind (kfree k) (\<lambda>_.
           kbind (kmod (upd_proc np (\<lambda>q. q\<lparr>p_kstack := 0, p_state := UNUSED\<rparr>))) (\<lambda>_.
           kret (- 1))))
         else
           kbind (kmod (upd_proc np (\<lambda>q. q\<lparr>p_sz := p_sz p, p_parent := Some i, p_tf := (p_tf p)\<lparr>tf_eax := 0\<rparr>\<rparr>))) (\<lambda>_.
           kbind (kfor [0..<NOFILE] (dup_fd np i)) (\<lambda>_.
           kbind (kbind (kderef (p_cwd p)) idup) (\<lambda>cwd.
           kbind (kmod (upd_proc np (\<lambda>q. set_name (p_name p) (q\<lparr>p_cwd := Some cwd\<rparr>)))) (\<lambda>_.
           kbind (kget (\<lambda>s. p_pid (ptable s ! np))) (\<lambda>pid.
           kbind (kmod (upd_proc np (\<lambda>q. q\<lparr>p_state := RUNNABLE\<rparr>))) (\<lambda>_.
           kbind (kmod (\<lambda>s. s\<lparr>ptable := map reset_sched (ptable s)\<rparr>)) (\<lambda>_.
           kret pid)))))))))))) "

text \<open>The thread gets a copy of the parent's frame, from its stack pointer to 16 bytes above its base pointer.\<close>

definition thread_frame :: "u32 \<Rightarrow> trapframe \<Rightarrow> trapframe" where
  "thread_frame stack tf =
     (let parent_size = tf_ebp tf + 16 - tf_esp tf
      in tf\<lparr>tf_eax := 0, tf_esp := stack - parent_size, tf_ebp := stack - 16\<rparr>)"

definition clone :: "u32 \<Rightarrow> int \<Rightarrow> ('a file_st_scheme, int) kop" where
  "clone stack sz =
     kbind (kmod (\<lambda>s. s\<lparr>numofthread := s32 (numofthread s + 1)\<rparr>)) (\<lambda>_.
     kbind allocproc (\<lambda>r.
     case r of
       None \<Rightarrow> kret (- 1)
     | Some np \<Rightarrow>
         kbind curproc (\<lambda>i.
         kbind (kget (\<lambda>s. ptable s ! i)) (\<lambda>p.
         kbind (kmod (upd_proc np (\<lambda>q. q\<lparr>p_pgdir := p_pgdir p, p_sz := p_sz p, p_parent := Some i,
           p_tf := thread_frame stack (p_tf p), p_thread_indictor := 1\<rparr>))) (\<lambda>_.
         kbind (uread (unat (tf_ebp (p_tf p) + 16 - tf_esp (p_tf p))) (tf_esp (p_tf p))) (\<lambda>frame.
         kbind (uwrite (tf_esp (thread_frame stack (p_tf p))) frame) (\<lambda>_.
         kbind (kmod (upd_proc np (\<lambda>q. q\<lparr>p_ofile :=
           map2 (\<lambda>f g. if f = None then g else f) (p_ofile p) (p_ofile q), p_cwd := p_cwd p\<rparr>))) (\<lambda>_.
         kbind (kget (\<lambda>s. p_pid (ptable s ! np))) (\<lambda>pid.
         kbind (kmod (upd_proc np (\<lambda>q. set_name (p_name p) (q\<lparr>p_state := RUNNABLE\<rparr>)))) (\<lambda>_.
         kret pid))))))))))"

section \<open>Exit and wait\<close>

definition close_fd :: "nat \<Rightarrow> nat \<Rightarrow> ('a file_st_scheme, unit) kop" where
  "close_fd i fd =
     kbind (kget (\<lambda>s. p_ofile (ptable s ! i) ! fd)) (\<lambda>f.
     case f of
       None \<Rightarrow> kskip
     | Some f \<Rightarrow>
         kseq (fileclose f) (kmod (upd_proc i (\<lambda>p. p\<lparr>p_ofile := (p_ofile p)[fd := None]\<rparr>))))"

definition wakeup_proc :: "nat option \<Rightarrow> ('a proc_st_scheme, unit) kop" where
  "wakeup_proc p = (case p of None \<Rightarrow> kskip | Some i \<Rightarrow> wakeup1 (ChProc i))"

definition reparent :: "nat \<Rightarrow> nat \<Rightarrow> ('a proc_st_scheme, unit) kop" where
  "reparent i k =
     kbind (kget (\<lambda>s. ptable s ! k)) (\<lambda>p.
     kbind (kget initproc) (\<lambda>ini.
     kwhen (p_parent p = Some i)
       (kseq (kmod (upd_proc k (\<lambda>p. p\<lparr>p_parent := ini\<rparr>)))
         (kwhen (p_state p = ZOMBIE) (wakeup_proc ini)))))"

definition exit_close :: "nat \<Rightarrow> ('a file_st_scheme, unit) kop" where
  "exit_close i =
     kbind (kfor [0..<NOFILE] (close_fd i)) (\<lambda>_.
     kbind begin_op (\<lambda>_.
     kbind (kget (\<lambda>s. p_cwd (ptable s ! i))) (\<lambda>cwd.
     kbind (kbind (kderef cwd) iput) (\<lambda>_.
     kbind end_op (\<lambda>_.
     kmod (upd_proc i (\<lambda>p. p\<lparr>p_cwd := None\<rparr>)))))))"

definition exit_table :: "nat \<Rightarrow> ('a proc_st_scheme, 'b) kop" where
  "exit_table i =
     kbind (kget (\<lambda>s. p_parent (ptable s ! i))) (\<lambda>par.
     kbind (wakeup_proc par) (\<lambda>_.
     kbind (kfor [0..<NPROC] (reparent i)) (\<lambda>_.
     kbind (kmod (upd_proc i (\<lambda>p. p\<lparr>p_state := ZOMBIE\<rparr>))) (\<lambda>_.
     sched))))"

definition exit :: "('a file_st_scheme, 'b) kop" where
  "exit =
     kbind curproc (\<lambda>i.
     kbind (kget initproc) (\<lambda>ini.
     if ini = Some i then kpanic ''init exiting''
     else
       kbind (kget numofthread) (\<lambda>nt.
       kbind (kwhen (nt = 0) (exit_close i)) (\<lambda>_.
       exit_table i))))"

text \<open>
  \<^verbatim>\<open>wait\<close>: the first zombie child in the table is reaped, a thread only by marking its slot unused.  A
  process that has to wait sleeps and starts the scan again when it runs.
\<close>

definition reap :: "nat \<Rightarrow> ('a proc_st_scheme, int) kop" where
  "reap k =
     kbind (kget (\<lambda>s. ptable s ! k)) (\<lambda>p.
     if p_thread_indictor p = 1 then
       kbind (kmod (\<lambda>s. s\<lparr>numofthread := s32 (numofthread s - 1)\<rparr>)) (\<lambda>_.
       kbind (kmod (upd_proc k (\<lambda>p. p\<lparr>p_state := UNUSED\<rparr>))) (\<lambda>_.
       kret (p_pid p)))
     else
       kbind (kfree (p_kstack p)) (\<lambda>_.
       kbind (kmod (upd_proc k (\<lambda>p. p\<lparr>p_kstack := 0\<rparr>))) (\<lambda>_.
       kbind (freevm (p_pgdir p)) (\<lambda>_.
       kbind (kmod (upd_proc k (\<lambda>p. p\<lparr>p_pid := 0, p_parent := None, p_name := (p_name p)[0 := 0],
         p_killed := False, p_state := UNUSED\<rparr>))) (\<lambda>_.
       kret (p_pid p))))))"

definition wait :: "('a proc_st_scheme, int) kop" where
  "wait =
     kbind curproc (\<lambda>i.
     kbind (kget (\<lambda>s. find_index (\<lambda>p. p_parent p = Some i \<and> p_state p = ZOMBIE) (ptable s))) (\<lambda>z.
     case z of
       Some k \<Rightarrow> reap k
     | None \<Rightarrow>
         kbind (kget (\<lambda>s. (\<exists>p \<in> set (ptable s). p_parent p = Some i) \<and> \<not> p_killed (ptable s ! i))) (\<lambda>w.
         if w then sleep (ChProc i) (Some L_ptable) else kret (- 1))))"

text \<open>The first process to run initialises the file system; \<open>first\<close> is the function's static variable.\<close>

definition forkret :: "bool \<Rightarrow> ('a file_st_scheme, bool) kop" where
  "forkret first =
     (if first then kseq (iinit ROOTDEV) (kseq (initlog ROOTDEV) (kret False)) else kret first)"

end
