(* ===== verification/Sched.thy ===== *)
theory Sched
  imports Proc Rand
begin

text \<open>
  The three schedulers of \<^verbatim>\<open>proc.c\<close>: round robin, lottery and stride.  Each iteration of a scheduler's
  endless loop chooses a process and switches to it; the process runs until it calls \<^verbatim>\<open>sched()\<close>.
\<close>

section \<open>Switching to a process and back\<close>

definition dispatch :: "nat \<Rightarrow> ('a proc_st_scheme, unit) kop" where
  "dispatch i =
     kbind (kmod (\<lambda>s. s\<lparr>cur := Some i\<rparr>)) (\<lambda>_.
     kbind (switchuvm (Some i)) (\<lambda>_.
     kmod (upd_proc i (\<lambda>p. p\<lparr>p_state := RUNNING\<rparr>))))"

definition undispatch :: "'a proc_st_scheme \<Rightarrow> 'a proc_st_scheme" where
  "undispatch s = s\<lparr>cur := None\<rparr>"

section \<open>Round robin\<close>

text \<open>One pass of \<^verbatim>\<open>scheduler\<close>'s inner loop body at slot \<open>k\<close>: whether it switches to the process of that slot.\<close>

definition rr_visit :: "nat \<Rightarrow> ('a proc_st_scheme, bool) kop" where
  "rr_visit k =
     kbind (kget (\<lambda>s. p_state (ptable s ! k))) (\<lambda>st.
     if st \<noteq> RUNNABLE then kret False else kseq (dispatch k) (kret True))"

section \<open>Lottery\<close>

definition total_tickets :: "proc list \<Rightarrow> int" where
  "total_tickets ps = foldl (\<lambda>t p. if p_state p = RUNNABLE then s32 (t + p_tickets p) else t) 0 ps"

text \<open>The walk over the table with \<open>bin\<close> the tickets passed so far and \<open>k\<close> the slot it is at.\<close>

primrec lottery_walk :: "int \<Rightarrow> int \<Rightarrow> nat \<Rightarrow> proc list \<Rightarrow> nat option" where
  "lottery_walk winner bin k [] = None"
| "lottery_walk winner bin k (p # ps) =
     (if p_state p \<noteq> RUNNABLE then lottery_walk winner bin (Suc k) ps
      else if s32 (bin + p_tickets p) < winner then lottery_walk winner (s32 (bin + p_tickets p)) (Suc k) ps
      else Some k)"

definition lottery_pick :: "int \<Rightarrow> proc list \<Rightarrow> nat option" where
  "lottery_pick winner ps = lottery_walk winner 0 0 ps"

definition lottery_iter :: "mt_st \<Rightarrow> ('a proc_st_scheme, nat option \<times> mt_st) kop" where
  "lottery_iter g =
     kbind (kget (\<lambda>s. total_tickets (ptable s))) (\<lambda>total.
     let (x, g') = genrand g in
     if s32 (total + 1) = 0 then kfault
     else
       kbind (kget (\<lambda>s. lottery_pick (cmod (sint x) (s32 (total + 1))) (ptable s))) (\<lambda>r.
       case r of
         None \<Rightarrow> kret (None, g')
       | Some k \<Rightarrow>
           kbind (kmod (upd_proc k (\<lambda>p. if p_tickets p > 1
             then p\<lparr>p_execution_count := s32 (p_execution_count p + 1)\<rparr> else p))) (\<lambda>_.
           kbind (dispatch k) (\<lambda>_.
           kret (Some k, g')))))"


section \<open>Stride\<close>





section \<open>Statistics\<close>

definition ALLOCATION_COUNT :: int where "ALLOCATION_COUNT = 100"

definition total_executions :: "proc list \<Rightarrow> int" where
  "total_executions ps =
     foldl (\<lambda>t p. if p_state p = RUNNABLE \<or> p_state p = RUNNING then s32 (t + p_execution_count p) else t) 0 ps"

definition allocate_info_line :: "proc \<Rightarrow> ('a cons_st_scheme, unit) kop" where
  "allocate_info_line p =
     kwhen (p_name p ! 0 = 112)
       (cprintf (str ''%s's with pid:%d, scheduled times=%d tickets=%d'' @ [10])
         [CStr (Some (takeWhile (\<lambda>b. b \<noteq> 0) (p_name p))), CInt (p_pid p), CInt (p_execution_count p), CInt (p_tickets p)])"

definition allocate_info :: "('a cons_st_scheme, int) kop" where
  "allocate_info =
     kbind (kget ptable) (\<lambda>ps.
     kbind (kwhen (total_executions ps = ALLOCATION_COUNT) (kfor ps allocate_info_line)) (\<lambda>_.
     kret 0))"

section \<open>Round robin is fair\<close>

lemma wp_switchuvm [simp]:
  "wp (switchuvm (Some i)) Q s \<longleftrightarrow> p_kstack (ptable s ! i) \<noteq> 0 \<and> p_pgdir (ptable s ! i) \<noteq> 0 \<and> Q () s"
  by (simp add: switchuvm_def)

lemma wp_dispatch:
  "wp (dispatch i) Q s \<longleftrightarrow> p_kstack (ptable s ! i) \<noteq> 0 \<and> p_pgdir (ptable s ! i) \<noteq> 0 \<and>
     Q () (upd_proc i (\<lambda>p. p\<lparr>p_state := RUNNING\<rparr>) (s\<lparr>cur := Some i\<rparr>))"
  by (simp add: dispatch_def)

text \<open>
  What the scheduler relies on when it switches to a process: the table keeps its size, and a process
  that was runnable and did not run itself is runnable afterwards.
\<close>

locale time_slice =
  fixes slice :: "nat \<Rightarrow> 'a proc_st_scheme \<Rightarrow> 'a proc_st_scheme \<Rightarrow> bool"
  assumes slice_length: "slice i s t \<Longrightarrow> length (ptable t) = length (ptable s)"
    and slice_runnable: "slice i s t \<Longrightarrow> j \<noteq> i \<Longrightarrow> j < length (ptable s) \<Longrightarrow>
      p_state (ptable s ! j) = RUNNABLE \<Longrightarrow> p_state (ptable t ! j) = RUNNABLE"

text \<open>
  The endless loop of \<^verbatim>\<open>scheduler\<close>: \<open>rr_run slice k s ls k' s'\<close> says that from slot \<open>k\<close> and state \<open>s\<close> the loop can
  reach slot \<open>k'\<close> and state \<open>s'\<close>; \<open>ls\<close> lists for each slot visited whether its process was switched to.
\<close>

inductive rr_run :: "(nat \<Rightarrow> 'a proc_st_scheme \<Rightarrow> 'a proc_st_scheme \<Rightarrow> bool) \<Rightarrow>
    nat \<Rightarrow> 'a proc_st_scheme \<Rightarrow> (nat \<times> bool) list \<Rightarrow> nat \<Rightarrow> 'a proc_st_scheme \<Rightarrow> bool"
  for slice where
  rr_nil: "rr_run slice k s [] k s"
| rr_skip: "k < NPROC \<Longrightarrow> rr_visit k s = Ret False t \<Longrightarrow> rr_run slice (Suc k) t ls k' s' \<Longrightarrow>
    rr_run slice k s ((k, False) # ls) k' s'"
| rr_switch: "k < NPROC \<Longrightarrow> rr_visit k s = Ret True t \<Longrightarrow> slice k t u \<Longrightarrow>
    rr_run slice (Suc k) (undispatch u) ls k' s' \<Longrightarrow> rr_run slice k s ((k, True) # ls) k' s'"
| rr_wrap: "rr_run slice 0 s ls k' s' \<Longrightarrow> rr_run slice NPROC s ls k' s'"

lemma rr_visit_False: "rr_visit k s = Ret False t \<Longrightarrow> t = s \<and> p_state (ptable s ! k) \<noteq> RUNNABLE"
  by (cases "dispatch k s") (auto simp: rr_visit_def kbind_def kget_def kret_def split: if_splits)

lemma rr_visit_True:
  "rr_visit k s = Ret True t \<Longrightarrow> t = upd_proc k (\<lambda>p. p\<lparr>p_state := RUNNING\<rparr>) (s\<lparr>cur := Some k\<rparr>)"
proof -
  assume "rr_visit k s = Ret True t"
  then have "wp (rr_visit k) (\<lambda>_ u. u = t) s"
    by (simp add: wp_def)
  moreover have "p_state (ptable s ! k) = RUNNABLE"
    using \<open>rr_visit k s = Ret True t\<close> by (auto simp: rr_visit_def kbind_def kget_def kret_def split: if_splits)
  ultimately show ?thesis
    by (simp add: rr_visit_def wp_dispatch)
qed

context time_slice
begin

lemma keeps_runnable:
  assumes "rr_visit k s = Ret True t" "slice k t u" "j \<noteq> k" "j < length (ptable s)"
    "p_state (ptable s ! j) = RUNNABLE"
  shows "length (ptable (undispatch u)) = length (ptable s) \<and> p_state (ptable (undispatch u) ! j) = RUNNABLE"
  using rr_visit_True [OF assms(1)] slice_length [OF assms(2)] slice_runnable [OF assms(2,3)] assms(3-5)
  by (simp add: undispatch_def)

text \<open>The distance, in slots, that the loop still has to go to reach slot \<open>j\<close>.\<close>

lemma reaches:
  assumes "rr_run slice k s ls k' s'"
    and "j < NPROC" "length (ptable s) = NPROC" "p_state (ptable s ! j) = RUNNABLE" "k \<le> NPROC"
    and "length ls > (if k \<le> j then j - k else NPROC - k + j)"
  shows "(j, True) \<in> set ls"
  using assms
proof (induction rule: rr_run.induct)
  case (rr_nil k s)
  then show ?case by simp
next
  case (rr_skip k s t ls k' s')
  then have t: "t = s" "k \<noteq> j"
    using rr_visit_False [of k s t] by auto
  then have "(j, True) \<in> set ls"
    using rr_skip by (intro rr_skip.IH) (auto split: if_splits)
  then show ?case by simp
next
  case (rr_switch k s t u ls k' s')
  show ?case
  proof (cases "k = j")
    case False
    then have "length (ptable (undispatch u)) = NPROC \<and> p_state (ptable (undispatch u) ! j) = RUNNABLE"
      using keeps_runnable [of k s t u j] rr_switch by simp
    then have "(j, True) \<in> set ls"
      using rr_switch False by (intro rr_switch.IH) (auto split: if_splits)
    then show ?thesis by simp
  qed simp
next
  case (rr_wrap s ls k' s')
  then show ?case
    by (auto intro!: rr_wrap.IH)
qed

end

text \<open>
  The slices of this kernel: a running process wakes or kills other processes any number of times and
  then yields, sleeps or exits.
\<close>

inductive kslice :: "nat \<Rightarrow> 'a proc_st_scheme \<Rightarrow> 'a proc_st_scheme \<Rightarrow> bool" where
  ks_yield: "cur s = Some i \<Longrightarrow> yield s = (Swtch t :: (unit, 'a proc_st_scheme) out) \<Longrightarrow> kslice i s t"
| ks_sleep: "cur s = Some i \<Longrightarrow> sleep ch lk s = (Swtch t :: (unit, 'a proc_st_scheme) out) \<Longrightarrow> kslice i s t"
| ks_exit: "cur s = Some i \<Longrightarrow> exit_table i s = (Swtch t :: (unit, 'a proc_st_scheme) out) \<Longrightarrow> kslice i s t"
| ks_wakeup: "wakeup ch s = Ret () t \<Longrightarrow> kslice i t u \<Longrightarrow> kslice i s u"
| ks_kill: "kill pid s = Ret r t \<Longrightarrow> kslice i t u \<Longrightarrow> kslice i s u"

text \<open>The table after a step that leaves runnable processes other than \<open>i\<close> runnable.\<close>

definition others_run :: "nat \<Rightarrow> proc list \<Rightarrow> proc list \<Rightarrow> bool" where
  "others_run i ps qs \<longleftrightarrow> length qs = length ps \<and>
     (\<forall>j < length ps. j \<noteq> i \<longrightarrow> p_state (ps ! j) = RUNNABLE \<longrightarrow> p_state (qs ! j) = RUNNABLE)"

lemma others_run_refl: "others_run i ps ps"
  by (simp add: others_run_def)

lemma others_run_trans: "others_run i ps qs \<Longrightarrow> others_run i qs rs \<Longrightarrow> others_run i ps rs"
  by (simp add: others_run_def)

lemma others_run_self: "others_run i ps (ps[i := p])"
  by (simp add: others_run_def)

lemma others_run_parent: "others_run i ps (ps[k := (ps ! k)\<lparr>p_parent := x\<rparr>])"
  by (auto simp: others_run_def nth_list_update_if)

lemma others_run_wake:
  "others_run i ps (map (\<lambda>p. if p_state p = SLEEPING \<and> p_chan p = ch then p\<lparr>p_state := RUNNABLE\<rparr> else p) ps)"
  by (auto simp: others_run_def)

lemma wp_wakeup_proc: "wp (wakeup_proc w) (\<lambda>_ t. others_run i (ptable s) (ptable t) \<and> cur t = cur s) s"
  by (cases w) (simp_all add: wakeup_proc_def others_run_refl others_run_wake)

lemma wp_reparent: "wp (reparent i k) (\<lambda>_ t. others_run i (ptable s) (ptable t) \<and> cur t = cur s) s"
proof -
  have "wp (wakeup_proc w) (\<lambda>_ t. others_run i (ptable s) (ptable t) \<and> cur t = cur s)
      (upd_proc k (\<lambda>p. p\<lparr>p_parent := x\<rparr>) s)" for w x
    by (rule wp_mono [OF wp_wakeup_proc [of _ i]])
      (auto simp: ptable_upd_proc intro: others_run_trans [OF others_run_parent])
  then show ?thesis
    by (simp add: reparent_def others_run_refl ptable_upd_proc others_run_parent)
qed

lemma wp_reparents:
  fixes s :: "'a proc_st_scheme"
  shows "wp (kfor ks (reparent i)) (\<lambda>_ t. others_run i (ptable s) (ptable t) \<and> cur t = cur s) s"
proof (rule wp_kfor [where I = "\<lambda>_ t. others_run i (ptable s) (ptable t) \<and> cur t = cur s"])
  fix n and t :: "'a proc_st_scheme"
  assume "others_run i (ptable s) (ptable t) \<and> cur t = cur s"
  then show "wp (reparent i (ks ! n)) (\<lambda>_ t. others_run i (ptable s) (ptable t) \<and> cur t = cur s) t"
    by (intro wp_mono [OF wp_reparent [of i "ks ! n" t]]) (auto intro: others_run_trans)
qed (simp_all add: others_run_refl)

lemma exit_table_others:
  assumes "exit_table i s = (Swtch t :: (unit, 'a proc_st_scheme) out)"
  shows "others_run i (ptable s) (ptable t)"
proof -
  obtain u where u: "wakeup_proc (p_parent (ptable s ! i)) s = Ret () u" "others_run i (ptable s) (ptable u)"
    using wp_wakeup_proc [of "p_parent (ptable s ! i)" i s] by (auto simp: wp_iff_Ret)
  obtain v where v: "kfor [0..<NPROC] (reparent i) u = Ret () v" "others_run i (ptable u) (ptable v)"
    using wp_reparents [of "[0..<NPROC]" i u] by (auto simp: wp_iff_Ret)
  have "t = upd_proc i (\<lambda>p. p\<lparr>p_state := ZOMBIE\<rparr>) v"
    using assms by (auto simp: exit_table_def kbind_def kget_def u v kmod_def sched_def split: option.splits if_splits)
  then show ?thesis
    using u(2) v(2) by (metis others_run_trans others_run_self ptable_upd_proc)
qed

lemma kslice_others: "kslice i s t \<Longrightarrow> others_run i (ptable s) (ptable t)"
proof (induction rule: kslice.induct)
  case (ks_yield s i t)
  then show ?case
    by (auto simp: yield_def curproc_def myproc_def kget_def kderef_def kret_def kbind_def kmod_def sched_def
        ptable_upd_proc others_run_self split: if_splits)
next
  case (ks_sleep s i ch lk t)
  then show ?case
    by (auto simp: sleep_def myproc_def kget_def kbind_def kmod_def kpanic_def sched_def ptable_upd_proc
        others_run_self split: if_splits option.splits)
next
  case (ks_exit s i t)
  then show ?case using exit_table_others by blast
next
  case (ks_wakeup ch s t i u)
  then have "others_run i (ptable s) (ptable t)"
    by (auto simp: wakeup_def wakeup1_def kmod_def others_run_wake)
  then show ?case
    using ks_wakeup.IH others_run_trans by blast
next
  case (ks_kill pid s r t i u)
  then have "others_run i (ptable s) (ptable t)"
    by (auto simp: kill_def ptable_upd_proc others_run_def Let_def nth_list_update_if split: option.splits)
  then show ?case
    using ks_kill.IH others_run_trans by blast
qed

interpretation ks: time_slice kslice
  by unfold_locales (use kslice_others in \<open>auto simp: others_run_def\<close>)





section \<open>The lottery is proportional\<close>

definition ticket_sum :: "proc list \<Rightarrow> int" where
  "ticket_sum ps = sum_list (map (\<lambda>p. if p_state p = RUNNABLE then p_tickets p else 0) ps)"

definition tickets_ok :: "proc list \<Rightarrow> bool" where
  "tickets_ok ps \<longleftrightarrow> (\<forall>p \<in> set ps. 0 \<le> p_tickets p) \<and> ticket_sum ps < 2 ^ 31 - 1"

lemma ticket_sum_Nil [simp]: "ticket_sum [] = 0"
  by (simp add: ticket_sum_def)

lemma ticket_sum_Cons: "ticket_sum (p # ps) = (if p_state p = RUNNABLE then p_tickets p else 0) + ticket_sum ps"
  by (simp add: ticket_sum_def)

lemma ticket_sum_nonneg: "\<forall>p \<in> set ps. 0 \<le> p_tickets p \<Longrightarrow> 0 \<le> ticket_sum ps"
  by (induction ps) (auto simp: ticket_sum_def)

lemma total_tickets_from:
  "\<forall>p \<in> set ps. 0 \<le> p_tickets p \<Longrightarrow> 0 \<le> t \<Longrightarrow> t + ticket_sum ps < 2 ^ 31 \<Longrightarrow>
    foldl (\<lambda>t p. if p_state p = RUNNABLE then s32 (t + p_tickets p) else t) t ps = t + ticket_sum ps"
proof (induction ps arbitrary: t)
  case (Cons p ps)
  then have "0 \<le> ticket_sum ps"
    by (simp add: ticket_sum_nonneg)
  then show ?case
    using Cons by (auto simp: ticket_sum_Cons s32_id)
qed (simp add: ticket_sum_def)

lemma total_tickets_sum: "tickets_ok ps \<Longrightarrow> total_tickets ps = ticket_sum ps"
  using total_tickets_from [of ps 0] by (simp add: tickets_ok_def total_tickets_def)

lemma ticket_sum_idle: "i \<le> length ps \<Longrightarrow> \<forall>j < i. p_state (ps ! j) \<noteq> RUNNABLE \<Longrightarrow> ticket_sum (take i ps) = 0"
proof (induction ps arbitrary: i)
  case (Cons p ps)
  then show ?case
    by (cases i) (auto simp: ticket_sum_Cons All_less_Suc2)
qed simp

lemma lottery_walk_ge: "lottery_walk w b k ps = Some i \<Longrightarrow> k \<le> i"
  by (induction ps arbitrary: b k) (auto split: if_splits dest: Suc_leD)

lemma lottery_walk_later [simp]: "lottery_walk w b (Suc k) ps \<noteq> Some k"
  by (auto dest: lottery_walk_ge)

lemma lottery_walk_Some:
  "\<forall>p \<in> set ps. 0 \<le> p_tickets p \<Longrightarrow> 0 \<le> b \<Longrightarrow> b + ticket_sum ps < 2 ^ 31 \<Longrightarrow>
    lottery_walk w b k ps = Some (k + i) \<longleftrightarrow>
    i < length ps \<and> p_state (ps ! i) = RUNNABLE \<and> w \<le> b + ticket_sum (take (Suc i) ps) \<and>
    (b + ticket_sum (take i ps) < w \<or> (\<forall>j < i. p_state (ps ! j) \<noteq> RUNNABLE))"
proof (induction ps arbitrary: b k i)
  case (Cons p ps)
  have nn: "0 \<le> ticket_sum ps" "0 \<le> ticket_sum (take n ps)" for n
    using Cons.prems(1) by (auto intro!: ticket_sum_nonneg dest: in_set_takeD)
  have r: "s32 (b + p_tickets p) = b + p_tickets p" if "p_state p = RUNNABLE"
    using Cons.prems nn that by (intro s32_id) (auto simp: ticket_sum_Cons)
  consider "p_state p \<noteq> RUNNABLE" | "p_state p = RUNNABLE" "b + p_tickets p < w"
    | "p_state p = RUNNABLE" "w \<le> b + p_tickets p"
    by linarith
  then show ?case
  proof cases
    case 1
    show ?thesis
    proof (cases i)
      case (Suc n)
      then show ?thesis
        using Cons.IH [of b "Suc k" n] Cons.prems 1 by (simp add: ticket_sum_Cons All_less_Suc2)
    qed (use 1 in simp)
  next
    case 2
    show ?thesis
    proof (cases i)
      case (Suc n)
      have "b + p_tickets p + ticket_sum (take n ps) < w" if "n < length ps" "\<forall>j < n. p_state (ps ! j) \<noteq> RUNNABLE"
        using ticket_sum_idle [of n ps] that 2 by simp
      then show ?thesis
        using Cons.IH [of "b + p_tickets p" "Suc k" n] Cons.prems 2 Suc r
        by (auto simp: ticket_sum_Cons All_less_Suc2 add.assoc)
    qed (use 2 r in \<open>simp add: ticket_sum_Cons ticket_sum_def\<close>)
  next
    case 3
    then show ?thesis
      using nn(2) [of "i - 1"] r
      by (cases i) (auto simp: ticket_sum_Cons All_less_Suc2)
  qed
qed simp

lemma ticket_sum_take_Suc:
  "i < length ps \<Longrightarrow> p_state (ps ! i) = RUNNABLE \<Longrightarrow> ticket_sum (take (Suc i) ps) = ticket_sum (take i ps) + p_tickets (ps ! i)"
  by (simp add: ticket_sum_def take_Suc_conv_app_nth)

lemma ticket_sum_append: "ticket_sum (ps @ qs) = ticket_sum ps + ticket_sum qs"
  by (simp add: ticket_sum_def)

lemma ticket_sum_take_le: "\<forall>p \<in> set ps. 0 \<le> p_tickets p \<Longrightarrow> ticket_sum (take n ps) \<le> ticket_sum ps"
proof -
  assume a: "\<forall>p \<in> set ps. 0 \<le> p_tickets p"
  have "ticket_sum ps = ticket_sum (take n ps) + ticket_sum (drop n ps)"
    using ticket_sum_append [of "take n ps" "drop n ps"] by simp
  moreover have "0 \<le> ticket_sum (drop n ps)"
    using a by (auto intro!: ticket_sum_nonneg dest: in_set_dropD)
  ultimately show ?thesis by simp
qed

text \<open>C20: Among the numbers \<open>0, ..., T\<close> that the lottery draws from when the runnable processes hold \<open>T\<close>
  tickets, exactly as many select a runnable process as it holds tickets, and one more when it is the
  first runnable process of the table, because the range includes both ends.\<close>

theorem lottery_distribution:
  assumes "tickets_ok ps" "i < length ps" "p_state (ps ! i) = RUNNABLE"
  shows "card {w. 0 \<le> w \<and> w \<le> total_tickets ps \<and> lottery_pick w ps = Some i} =
    nat (p_tickets (ps ! i)) + (if \<forall>j < i. p_state (ps ! j) \<noteq> RUNNABLE then 1 else 0)"
proof -
  let ?a = "ticket_sum (take i ps)" and ?t = "p_tickets (ps ! i)"
  have nn: "\<forall>p \<in> set ps. 0 \<le> p_tickets p" and T: "ticket_sum ps < 2 ^ 31 - 1"
    using assms(1) by (auto simp: tickets_ok_def)
  have a: "0 \<le> ?a" "0 \<le> ?t" "?a + ?t \<le> ticket_sum ps"
    using nn assms(2) ticket_sum_take_le [OF nn, of "Suc i"] ticket_sum_take_Suc [OF assms(2,3)]
    by (auto intro!: ticket_sum_nonneg dest: in_set_takeD)
  have w: "lottery_pick w ps = Some i \<longleftrightarrow> w \<le> ?a + ?t \<and> (?a < w \<or> (\<forall>j < i. p_state (ps ! j) \<noteq> RUNNABLE))" for w
    using lottery_walk_Some [of ps 0 w 0 i] nn T assms(2,3) ticket_sum_take_Suc [OF assms(2,3)]
    by (simp add: lottery_pick_def)
  have s: "{w. 0 \<le> w \<and> w \<le> total_tickets ps \<and> lottery_pick w ps = Some i} =
      (if \<forall>j < i. p_state (ps ! j) \<noteq> RUNNABLE then {0..?a + ?t} else {?a<..?a + ?t})"
    unfolding w total_tickets_sum [OF assms(1)] using a by auto
  show ?thesis
    using a ticket_sum_idle [of i ps] assms(2) by (auto simp: s nat_add_distrib)
qed

definition runner :: "int \<Rightarrow> proc" where
  "runner t = zero_proc\<lparr>p_state := RUNNABLE, p_tickets := t\<rparr>"

theorem lottery_distribution_witness:
  "tickets_ok [runner 3, zero_proc, runner 2] \<and> p_state ([runner 3, zero_proc, runner 2] ! 2) = RUNNABLE \<and>
   card {w. 0 \<le> w \<and> w \<le> total_tickets [runner 3, zero_proc, runner 2] \<and>
     lottery_pick w [runner 3, zero_proc, runner 2] = Some 2} = 2"
proof -
  let ?ps = "[runner 3, zero_proc, runner 2]"
  have ok: "tickets_ok ?ps" "p_state (?ps ! 2) = RUNNABLE" "p_tickets (?ps ! 2) = 2" "p_state (?ps ! 0) = RUNNABLE"
    by (simp_all add: tickets_ok_def ticket_sum_def runner_def zero_proc_def)
  then have "\<not> (\<forall>j < 2. p_state (?ps ! j) \<noteq> RUNNABLE)"
    by (auto intro!: exI [of _ 0])
  then show ?thesis
    using lottery_distribution [OF ok(1), of 2] ok by (simp only: if_False) simp
qed

section \<open>Stride scheduling is proportional\<close>

























end
