(* ===== verification/Syscall.thy ===== *)
theory Syscall
  imports Sched
begin

text \<open>
  System call arguments, \<^verbatim>\<open>syscall.c\<close>, and the process system calls of \<^verbatim>\<open>sysproc.c\<close>.  An argument routine that
  fails returns \<open>None\<close>; a string argument is returned as the bytes before its NUL.
\<close>

section \<open>Arguments\<close>

definition fetchint :: "u32 \<Rightarrow> ('a proc_st_scheme, int option) kop" where
  "fetchint addr =
     kbind curproc (\<lambda>i.
     kbind (kget (\<lambda>s. p_sz (ptable s ! i))) (\<lambda>sz.
     if addr \<ge> sz \<or> addr + 4 > sz then kret None
     else kbind (uread 4 addr) (\<lambda>bs. kret (Some (s32 (int (of_le bs)))))))"

primrec fetchstr_loop :: "nat \<Rightarrow> u32 \<Rightarrow> ('a proc_st_scheme, bytes option) kop" where
  "fetchstr_loop 0 va = kret None"
| "fetchstr_loop (Suc n) va =
     kbind (uread 1 va) (\<lambda>bs.
     if hd bs = 0 then kret (Some [])
     else kbind (fetchstr_loop n (va + 1)) (\<lambda>r. kret (map_option ((#) (hd bs)) r)))"

definition fetchstr :: "u32 \<Rightarrow> ('a proc_st_scheme, bytes option) kop" where
  "fetchstr addr =
     kbind curproc (\<lambda>i.
     kbind (kget (\<lambda>s. p_sz (ptable s ! i))) (\<lambda>sz.
     if addr \<ge> sz then kret None else fetchstr_loop (unat (sz - addr)) addr))"

definition argint :: "nat \<Rightarrow> ('a proc_st_scheme, int option) kop" where
  "argint n =
     kbind curproc (\<lambda>i.
     kbind (kget (\<lambda>s. tf_esp (p_tf (ptable s ! i)))) (\<lambda>esp.
     fetchint (esp + 4 + 4 * of_nat n)))"

definition argptr :: "nat \<Rightarrow> int \<Rightarrow> ('a proc_st_scheme, u32 option) kop" where
  "argptr n len =
     kbind curproc (\<lambda>j.
     kbind (argint n) (\<lambda>r.
     case r of
       None \<Rightarrow> kret None
     | Some i \<Rightarrow>
         kbind (kget (\<lambda>s. p_sz (ptable s ! j))) (\<lambda>sz.
         let a = of_int i :: u32 in
         if len < 0 \<or> a \<ge> sz \<or> a + of_int len > sz then kret None else kret (Some a))))"

definition argstr :: "nat \<Rightarrow> ('a proc_st_scheme, bytes option) kop" where
  "argstr n =
     kbind (argint n) (\<lambda>r.
     case r of None \<Rightarrow> kret None | Some addr \<Rightarrow> fetchstr (of_int addr))"

text \<open>The early return of -1 when an argument is bad.\<close>

definition arg_or_fail :: "('s, 'x option) kop \<Rightarrow> ('x \<Rightarrow> ('s, int) kop) \<Rightarrow> ('s, int) kop" where
  "arg_or_fail m f = kbind m (\<lambda>r. case r of None \<Rightarrow> kret (- 1) | Some x \<Rightarrow> f x)"

section \<open>Process system calls\<close>

definition sys_fork :: "('a file_st_scheme, int) kop" where
  "sys_fork = fork"

definition sys_exit :: "('a file_st_scheme, int) kop" where
  "sys_exit = exit"

definition sys_wait :: "('a proc_st_scheme, int) kop" where
  "sys_wait = wait"

definition sys_kill :: "('a proc_st_scheme, int) kop" where
  "sys_kill = arg_or_fail (argint 0) kill"

definition sys_getpid :: "('a proc_st_scheme, int) kop" where
  "sys_getpid = kbind curproc (\<lambda>i. kget (\<lambda>s. p_pid (ptable s ! i)))"

definition sys_sbrk :: "('a proc_st_scheme, int) kop" where
  "sys_sbrk =
     arg_or_fail (argint 0) (\<lambda>n.
     kbind curproc (\<lambda>i.
     kbind (kget (\<lambda>s. sint (p_sz (ptable s ! i)))) (\<lambda>addr.
     kbind (growproc n) (\<lambda>r.
     kret (if r < 0 then - 1 else addr)))))"

text \<open>
  The loop of \<^verbatim>\<open>sys_sleep\<close>: a sleeper continues here with the same start.  The comparison is unsigned, so a
  negative \<open>n\<close> stands for a very long time.
\<close>

definition sleep_ticks :: "nat \<Rightarrow> int \<Rightarrow> ('a proc_st_scheme, int) kop" where
  "sleep_ticks ticks0 n =
     kbind (kget (\<lambda>s. (int (ticks s) - int ticks0) mod 2 ^ 32 < n mod 2 ^ 32)) (\<lambda>early.
     if early then
       kbind curproc (\<lambda>i.
       kbind (kget (\<lambda>s. p_killed (ptable s ! i))) (\<lambda>killed.
       if killed then kret (- 1) else sleep ChTicks (Some L_tickslock)))
     else kret 0)"

definition sys_sleep :: "('a proc_st_scheme, int) kop" where
  "sys_sleep = arg_or_fail (argint 0) (\<lambda>n. kbind (kget ticks) (\<lambda>t0. sleep_ticks t0 n))"

definition sys_uptime :: "('a proc_st_scheme, int) kop" where
  "sys_uptime = kget (\<lambda>s. s32 (int (ticks s)))"

text \<open>
  The page count of \<^verbatim>\<open>sys_info(3)\<close>.  \<^verbatim>\<open>*pte\<close> is read without a test of \<^verbatim>\<open>pte\<close>; a null pointer is an access to user
  address 0.
\<close>

definition page_present :: "u32 \<Rightarrow> u32 \<Rightarrow> ('a proc_st_scheme, bool) kop" where
  "page_present pgdir va =
     kbind (walkpgdir pgdir va False) (\<lambda>pte.
     kbind (if pte = 0 then kbind (uread 4 0) (\<lambda>bs. kret (of_nat (of_le bs))) else rd32 pte) (\<lambda>e.
     kret (e AND PTE_P \<noteq> 0)))"

primrec count_pages :: "u32 \<Rightarrow> u32 list \<Rightarrow> ('a proc_st_scheme, int) kop" where
  "count_pages pgdir [] = kret 0"
| "count_pages pgdir (va # vas) =
     kbind (page_present pgdir va) (\<lambda>b.
     kbind (count_pages pgdir vas) (\<lambda>n.
     kret (if b then n + 1 else n)))"

text \<open>The addresses \<^verbatim>\<open>i = 0, PGSIZE, ... < sz\<close>.\<close>

definition page_addrs :: "u32 \<Rightarrow> u32 list" where
  "page_addrs sz = map (\<lambda>k. of_nat k * PGSIZE) [0..<(unat sz + 4095) div 4096]"

text \<open>\<open>junk\<close> is the initial value of the local variable that \<^verbatim>\<open>argint\<close> leaves alone when it fails.\<close>

definition sys_info :: "int \<Rightarrow> ('a proc_st_scheme, int) kop" where
  "sys_info junk =
     kbind (argint 0) (\<lambda>r.
     let n = (case r of None \<Rightarrow> junk | Some n \<Rightarrow> n) in
     if n = 1 then running_processes
     else if n = 2 then kbind curproc (\<lambda>i. kget (\<lambda>s. p_syscall_count (ptable s ! i)))
     else if n = 3 then
       kbind curproc (\<lambda>i.
       kbind (kget (\<lambda>s. ptable s ! i)) (\<lambda>p.
       count_pages (p_pgdir p) (page_addrs (p_sz p))))
     else kret (- 1))"

definition sys_tickets :: "('a cons_st_scheme, int) kop" where
  "sys_tickets =
     arg_or_fail (argint 0) (\<lambda>n.
     kbind curproc (\<lambda>i.
     kbind (kmod (upd_proc i (\<lambda>p. p\<lparr>p_tickets := n\<rparr>))) (\<lambda>_.
     kbind (kget (\<lambda>s. ptable s ! i)) (\<lambda>p.
     kbind (cprintf (str ''proc:%d has been gaving %d tickets with name %s...'' @ [10])
       [CInt (p_pid p), CInt (p_tickets p), CStr (Some (takeWhile (\<lambda>b. b \<noteq> 0) (p_name p)))]) (\<lambda>_.
     kret 0)))))"

definition sys_clone :: "('a file_st_scheme, int) kop" where
  "sys_clone =
     arg_or_fail (argptr 0 4) (\<lambda>stack.
     arg_or_fail (argint 1) (\<lambda>sz. clone stack sz))"

section \<open>Arguments lie inside the process\<close>

lemma kbind_RetE:
  assumes "kbind m f s = Ret b u" obtains a t where "m s = Ret a t" "f a t = Ret b u"
  using assms by (auto simp: kbind_Ret)




declare uread.simps [simp del]











end
