(* ===== verification/Exec.thy ===== *)
theory Exec
  imports Syscall
begin

text \<open>
  Program loading: \<^verbatim>\<open>loaduvm\<close> of \<^verbatim>\<open>vm.c\<close> and \<^verbatim>\<open>exec\<close> of \<^verbatim>\<open>exec.c\<close>, with the ELF headers of \<^verbatim>\<open>elf.h\<close>.
\<close>

section \<open>ELF headers\<close>

definition ELF_MAGIC :: nat where "ELF_MAGIC = 0x464C457F"
definition ELF_PROG_LOAD :: nat where "ELF_PROG_LOAD = 1"
definition MAXARG :: nat where "MAXARG = 32"

record elfhdr =
  elf_magic :: nat
  elf_entry :: nat
  elf_phoff :: nat
  elf_phnum :: nat

definition elfhdr_of :: "bytes \<Rightarrow> elfhdr" where
  "elfhdr_of bs = \<lparr>elf_magic = get32 bs 0, elf_entry = get32 bs 24, elf_phoff = get32 bs 28, elf_phnum = get16 bs 44\<rparr>"

record proghdr =
  ph_type :: nat
  ph_off :: nat
  ph_vaddr :: nat
  ph_filesz :: nat
  ph_memsz :: nat

definition proghdr_of :: "bytes \<Rightarrow> proghdr" where
  "proghdr_of bs = \<lparr>ph_type = get32 bs 0, ph_off = get32 bs 4, ph_vaddr = get32 bs 8,
     ph_filesz = get32 bs 16, ph_memsz = get32 bs 20\<rparr>"

section \<open>Loading a segment\<close>

text \<open>The offsets \<^verbatim>\<open>i = 0, PGSIZE, ... < sz\<close> of the loop; the copy goes to the kernel address of the page.\<close>

primrec loaduvm_loop :: "u32 \<Rightarrow> u32 \<Rightarrow> nat \<Rightarrow> nat \<Rightarrow> nat \<Rightarrow> nat list \<Rightarrow> ('a cons_st_scheme, int) kop" where
  "loaduvm_loop pgdir addr ip off sz [] = kret 0"
| "loaduvm_loop pgdir addr ip off sz (i # is) =
     kbind (walkpgdir pgdir (addr + of_nat i) False) (\<lambda>pte.
     if pte = 0 then kpanic ''loaduvm: address should exist''
     else
       kbind (rd32 pte) (\<lambda>e.
       let n = min (sz - i) 4096 in
       kbind (readi ip (w32 (off + i)) n) (\<lambda>r.
       case r of
         None \<Rightarrow> kret (- 1)
       | Some bs \<Rightarrow>
           kbind (kmod (\<lambda>s. s\<lparr>mem := store_bytes (mem s) (P2V (PTE_ADDR e)) bs\<rparr>)) (\<lambda>_.
           if length bs \<noteq> n then kret (- 1) else loaduvm_loop pgdir addr ip off sz is))))"

definition loaduvm :: "u32 \<Rightarrow> u32 \<Rightarrow> nat \<Rightarrow> nat \<Rightarrow> nat \<Rightarrow> ('a cons_st_scheme, int) kop" where
  "loaduvm pgdir addr ip off sz =
     (if addr mod PGSIZE \<noteq> 0 then kpanic ''loaduvm: addr must be page aligned''
      else loaduvm_loop pgdir addr ip off sz (map ((*) 4096) [0..<(sz + 4095) div 4096]))"

section \<open>exec\<close>

text \<open>The loop over the program headers; \<open>None\<close> is a jump to \<^verbatim>\<open>bad\<close>.\<close>

primrec load_segments :: "u32 \<Rightarrow> nat \<Rightarrow> nat \<Rightarrow> u32 \<Rightarrow> nat \<Rightarrow> ('a cons_st_scheme, u32 option) kop" where
  "load_segments pgdir ip off sz 0 = kret (Some sz)"
| "load_segments pgdir ip off sz (Suc n) =
     kbind (readi ip off 32) (\<lambda>r.
     case r of
       None \<Rightarrow> kret None
     | Some bs \<Rightarrow>
         (let ph = proghdr_of bs in
          if length bs \<noteq> 32 then kret None
          else if ph_type ph \<noteq> ELF_PROG_LOAD then load_segments pgdir ip (w32 (off + 32)) sz n
          else if ph_memsz ph < ph_filesz ph then kret None
          else if w32 (ph_vaddr ph + ph_memsz ph) < ph_vaddr ph then kret None
          else
            kbind (allocuvm pgdir sz (of_nat (ph_vaddr ph + ph_memsz ph))) (\<lambda>sz'.
            if sz' = 0 then kret None
            else if ph_vaddr ph mod 4096 \<noteq> 0 then kret None
            else
              kbind (loaduvm pgdir (of_nat (ph_vaddr ph)) ip (ph_off ph) (ph_filesz ph)) (\<lambda>r.
              if r < 0 then kret None else load_segments pgdir ip (w32 (off + 32)) sz' n))))"

text \<open>The header check and the loading of the image: page directory (0 if none), size and entry.\<close>

definition load_image :: "nat \<Rightarrow> ('a cons_st_scheme, u32 \<times> (u32 \<times> u32) option) kop" where
  "load_image ip =
     kbind (readi ip 0 52) (\<lambda>r.
     case r of
       None \<Rightarrow> kret (0, None)
     | Some bs \<Rightarrow>
         (let elf = elfhdr_of bs in
          if length bs \<noteq> 52 then kret (0, None)
          else if elf_magic elf \<noteq> ELF_MAGIC then kret (0, None)
          else
            kbind setupkvm (\<lambda>pgdir.
            if pgdir = 0 then kret (0, None)
            else
              kbind (load_segments pgdir ip (elf_phoff elf) 0 (elf_phnum elf)) (\<lambda>r.
              kret (pgdir, map_option (\<lambda>sz. (sz, of_nat (elf_entry elf))) r)))))"

text \<open>Pushing the argument strings: the stack pointer and the addresses of the strings.\<close>

primrec push_args :: "u32 \<Rightarrow> nat \<Rightarrow> u32 \<Rightarrow> bytes list \<Rightarrow> ('a kmem_st_scheme, (u32 \<times> u32 list) option) kop" where
  "push_args pgdir argc sp [] = kret (Some (sp, []))"
| "push_args pgdir argc sp (a # as) =
     (if argc \<ge> MAXARG then kret None
      else
        (let sp' = (sp - of_nat (length a + 1)) AND NOT 3 in
         kbind (copyout pgdir sp' (a @ [0])) (\<lambda>r.
         if r < 0 then kret None
         else
           kbind (push_args pgdir (Suc argc) sp' as) (\<lambda>q.
           kret (map_option (\<lambda>(sp, us). (sp, sp' # us)) q)))))"

definition ustack :: "u32 \<Rightarrow> u32 list \<Rightarrow> u32 list" where
  "ustack sp us = [0xffffffff, of_nat (length us), sp - of_nat ((length us + 1) * 4)] @ us @ [0]"

text \<open>The stack of the new image: its size and stack pointer, or \<open>None\<close> for \<^verbatim>\<open>bad\<close>.\<close>

definition build_stack :: "u32 \<Rightarrow> u32 \<Rightarrow> bytes list \<Rightarrow> ('a kmem_st_scheme, (u32 \<times> u32) option) kop" where
  "build_stack pgdir sz argv =
     kbind (allocuvm pgdir (PGROUNDUP sz) (PGROUNDUP sz + 2 * PGSIZE)) (\<lambda>sz.
     if sz = 0 then kret None
     else
       kbind (clearpteu pgdir (sz - 2 * PGSIZE)) (\<lambda>_.
       kbind (push_args pgdir 0 sz argv) (\<lambda>r.
       case r of
         None \<Rightarrow> kret None
       | Some (sp, us) \<Rightarrow>
           (let sp' = sp - of_nat ((3 + length us + 1) * 4) in
            kbind (copyout pgdir sp' (concat (map (\<lambda>w. le_bytes 4 (unat w)) (ustack sp us)))) (\<lambda>r.
            kret (if r < 0 then None else Some (sz, sp')))))))"

text \<open>The path after its last slash.\<close>

definition last_elem :: "bytes \<Rightarrow> bytes" where
  "last_elem path = rev (takeWhile (\<lambda>c. c \<noteq> SLASH) (rev path))"

definition exec :: "bytes \<Rightarrow> bytes list \<Rightarrow> ('a file_st_scheme, int) kop" where
  "exec path argv =
     kbind curproc (\<lambda>i.
     kbind begin_op (\<lambda>_.
     kbind (namei path) (\<lambda>r.
     case r of
       None \<Rightarrow> kseq end_op (kseq (cprintf (str ''exec: fail'' @ [10]) []) (kret (- 1)))
     | Some ip \<Rightarrow>
         kbind (ilock (Some ip)) (\<lambda>_.
         kbind (load_image ip) (\<lambda>(pgdir, img).
         case img of
           None \<Rightarrow>
             kbind (kwhen (pgdir \<noteq> 0) (freevm pgdir)) (\<lambda>_.
             kbind (iunlockput ip) (\<lambda>_.
             kbind end_op (\<lambda>_.
             kret (- 1))))
         | Some (sz, entry) \<Rightarrow>
             kbind (iunlockput ip) (\<lambda>_.
             kbind end_op (\<lambda>_.
             kbind (build_stack pgdir sz argv) (\<lambda>r.
             case r of
               None \<Rightarrow> kseq (freevm pgdir) (kret (- 1))
             | Some (sz, sp) \<Rightarrow>
                 kbind (kget (\<lambda>s. p_pgdir (ptable s ! i))) (\<lambda>oldpgdir.
                 kbind (kmod (upd_proc i (\<lambda>p. set_name (last_elem path) (p\<lparr>p_pgdir := pgdir, p_sz := sz,
                   p_tf := (p_tf p)\<lparr>tf_eip := entry, tf_esp := sp\<rparr>\<rparr>)))) (\<lambda>_.
                 kbind (switchuvm (Some i)) (\<lambda>_.
                 kbind (freevm oldpgdir) (\<lambda>_.
                 kret 0))))))))))))"

end
