(* ===== verification/Sysfile.thy ===== *)
theory Sysfile
  imports Exec
begin

text \<open>
  The file system calls of \<^verbatim>\<open>sysfile.c\<close>.  The buffers that calls share with user space are read before and
  written after the operation they belong to.  A local \<^verbatim>\<open>name\<close> buffer is uninitialised in the code; only
  the bytes up to the NUL that \<^verbatim>\<open>skipelem\<close> stores are ever looked at.
\<close>

section \<open>File descriptors\<close>

definition O_RDONLY :: int where "O_RDONLY = 0"
definition O_WRONLY :: int where "O_WRONLY = 1"
definition O_RDWR :: int where "O_RDWR = 2"
definition O_CREATE :: int where "O_CREATE = 0x200"

definition argfd :: "nat \<Rightarrow> ('a file_st_scheme, (nat \<times> nat) option) kop" where
  "argfd n =
     kbind (argint n) (\<lambda>r.
     case r of
       None \<Rightarrow> kret None
     | Some fd \<Rightarrow>
         if fd < 0 \<or> fd \<ge> int NOFILE then kret None
         else
           kbind curproc (\<lambda>i.
           kbind (kget (\<lambda>s. p_ofile (ptable s ! i) ! nat fd)) (\<lambda>f.
           kret (map_option (\<lambda>f. (nat fd, f)) f))))"

definition fdalloc :: "nat \<Rightarrow> ('a file_st_scheme, int) kop" where
  "fdalloc f =
     kbind curproc (\<lambda>i.
     kbind (kget (\<lambda>s. find_index (\<lambda>x. x = None) (p_ofile (ptable s ! i)))) (\<lambda>r.
     case r of
       None \<Rightarrow> kret (- 1)
     | Some fd \<Rightarrow>
         kseq (kmod (upd_proc i (\<lambda>p. p\<lparr>p_ofile := (p_ofile p)[fd := Some f]\<rparr>))) (kret (int fd))))"

definition sys_dup :: "('a file_st_scheme, int) kop" where
  "sys_dup =
     arg_or_fail (argfd 0) (\<lambda>(_, f).
     kbind (fdalloc f) (\<lambda>fd.
     if fd < 0 then kret (- 1) else kseq (filedup f) (kret fd)))"

definition sys_read :: "('a file_st_scheme, int) kop" where
  "sys_read =
     arg_or_fail (argfd 0) (\<lambda>(_, f).
     arg_or_fail (argint 2) (\<lambda>n.
     arg_or_fail (argptr 1 n) (\<lambda>p.
     kbind (fileread f n) (\<lambda>r.
     case r of
       None \<Rightarrow> kret (- 1)
     | Some bs \<Rightarrow> kseq (uwrite p bs) (kret (int (length bs)))))))"

definition sys_write :: "('a file_st_scheme, int) kop" where
  "sys_write =
     arg_or_fail (argfd 0) (\<lambda>(_, f).
     arg_or_fail (argint 2) (\<lambda>n.
     arg_or_fail (argptr 1 n) (\<lambda>p.
     kbind (uread (nat n) p) (\<lambda>bs. filewrite f bs))))"

definition sys_close :: "('a file_st_scheme, int) kop" where
  "sys_close =
     arg_or_fail (argfd 0) (\<lambda>(fd, f).
     kbind curproc (\<lambda>i.
     kbind (kmod (upd_proc i (\<lambda>p. p\<lparr>p_ofile := (p_ofile p)[fd := None]\<rparr>))) (\<lambda>_.
     kseq (fileclose f) (kret 0))))"

text \<open>The fields of a \<^verbatim>\<open>struct stat\<close> of 20 bytes, stored one by one.\<close>

definition put_stat :: "u32 \<Rightarrow> stat \<Rightarrow> ('a proc_st_scheme, unit) kop" where
  "put_stat a st =
     kseq (uwrite a (le_bytes 2 (nat (st_type st mod 65536))))
    (kseq (uwrite (a + 4) (le_bytes 4 (st_dev st)))
    (kseq (uwrite (a + 8) (le_bytes 4 (st_ino st)))
    (kseq (uwrite (a + 12) (le_bytes 2 (nat (st_nlink st mod 65536))))
          (uwrite (a + 16) (le_bytes 4 (st_size st))))))"

definition sys_fstat :: "('a file_st_scheme, int) kop" where
  "sys_fstat =
     arg_or_fail (argfd 0) (\<lambda>(_, f).
     arg_or_fail (argptr 1 20) (\<lambda>p.
     kbind (filestat f) (\<lambda>r.
     case r of None \<Rightarrow> kret (- 1) | Some st \<Rightarrow> kseq (put_stat p st) (kret 0))))"

section \<open>Links\<close>

definition no_name :: bytes where
  "no_name = replicate DIRSIZ 0"

definition add_nlink :: "nat \<Rightarrow> int \<Rightarrow> ('a fs_st_scheme, unit) kop" where
  "add_nlink ip d = kseq (kmod (upd_inode ip (\<lambda>x. x\<lparr>i_nlink := s16 (i_nlink x + d)\<rparr>))) (iupdate ip)"

definition link_bad :: "nat \<Rightarrow> ('a fs_st_scheme, int) kop" where
  "link_bad ip =
     kseq (ilock (Some ip)) (kseq (add_nlink ip (- 1)) (kseq (iunlockput ip) (kseq end_op (kret (- 1)))))"

definition sys_link :: "('a file_st_scheme, int) kop" where
  "sys_link =
     arg_or_fail (argstr 0) (\<lambda>old.
     arg_or_fail (argstr 1) (\<lambda>new.
     kbind begin_op (\<lambda>_.
     kbind (namei old) (\<lambda>r.
     case r of
       None \<Rightarrow> kseq end_op (kret (- 1))
     | Some ip \<Rightarrow>
         kbind (ilock (Some ip)) (\<lambda>_.
         kbind (ino ip) (\<lambda>x.
         if i_type x = T_DIR then kseq (iunlockput ip) (kseq end_op (kret (- 1)))
         else
           kbind (add_nlink ip 1) (\<lambda>_.
           kbind (iunlock (Some ip)) (\<lambda>_.
           kbind (nameiparent new no_name) (\<lambda>r.
           case r of
             None \<Rightarrow> link_bad ip
           | Some (dp, name) \<Rightarrow>
               kbind (ilock (Some dp)) (\<lambda>_.
               kbind (ino dp) (\<lambda>d.
               kbind (ino ip) (\<lambda>x.
               kbind (if i_dev d \<noteq> i_dev x then kret (- 1) else dirlink dp name (i_inum x)) (\<lambda>r.
               if r < 0 then kseq (iunlockput dp) (link_bad ip)
               else kseq (iunlockput dp) (kseq (iput ip) (kseq end_op (kret 0))))))))))))))))"

primrec isdirempty_loop :: "nat \<Rightarrow> nat list \<Rightarrow> ('a cons_st_scheme, bool) kop" where
  "isdirempty_loop dp [] = kret True"
| "isdirempty_loop dp (off # offs) =
     kbind (readi dp off 16) (\<lambda>r.
     case r of
       None \<Rightarrow> kpanic ''isdirempty: readi''
     | Some bs \<Rightarrow>
         if length bs \<noteq> 16 then kpanic ''isdirempty: readi''
         else if de_inum (dirent_of bs) \<noteq> 0 then kret False
         else isdirempty_loop dp offs)"

definition isdirempty :: "nat \<Rightarrow> ('a cons_st_scheme, bool) kop" where
  "isdirempty dp = kbind (ino dp) (\<lambda>x. isdirempty_loop dp (drop 2 (dir_offsets (i_size x))))"

definition DOT :: bytes where "DOT = [46]"
definition DOTDOT :: bytes where "DOTDOT = [46, 46]"

definition unlink_bad :: "nat \<Rightarrow> ('a fs_st_scheme, int) kop" where
  "unlink_bad dp = kseq (iunlockput dp) (kseq end_op (kret (- 1)))"

definition sys_unlink :: "('a file_st_scheme, int) kop" where
  "sys_unlink =
     arg_or_fail (argstr 0) (\<lambda>path.
     kbind begin_op (\<lambda>_.
     kbind (nameiparent path no_name) (\<lambda>r.
     case r of
       None \<Rightarrow> kseq end_op (kret (- 1))
     | Some (dp, name) \<Rightarrow>
         kbind (ilock (Some dp)) (\<lambda>_.
         if namecmp name DOT = 0 \<or> namecmp name DOTDOT = 0 then unlink_bad dp
         else
           kbind (dirlookup dp name) (\<lambda>r.
           case r of
             None \<Rightarrow> unlink_bad dp
           | Some (ip, off) \<Rightarrow>
               kbind (ilock (Some ip)) (\<lambda>_.
               kbind (ino ip) (\<lambda>x.
               if i_nlink x < 1 then kpanic ''unlink: nlink < 1''
               else
                 kbind (if i_type x = T_DIR then isdirempty ip else kret True) (\<lambda>e.
                 if \<not> e then kseq (iunlockput ip) (unlink_bad dp)
                 else
                   kbind (writei dp (replicate 16 0) off) (\<lambda>n.
                   if n \<noteq> 16 then kpanic ''unlink: writei''
                   else
                     kbind (kwhen (i_type x = T_DIR) (add_nlink dp (- 1))) (\<lambda>_.
                     kbind (iunlockput dp) (\<lambda>_.
                     kbind (add_nlink ip (- 1)) (\<lambda>_.
                     kbind (iunlockput ip) (\<lambda>_.
                     kbind end_op (\<lambda>_.
                     kret 0)))))))))))))) "

section \<open>Creating and opening\<close>

definition create_dots :: "nat \<Rightarrow> nat \<Rightarrow> ('a cons_st_scheme, unit) kop" where
  "create_dots ip dp =
     kbind (add_nlink dp 1) (\<lambda>_.
     kbind (ino ip) (\<lambda>x.
     kbind (ino dp) (\<lambda>d.
     kbind (dirlink ip DOT (i_inum x)) (\<lambda>r.
     if r < 0 then kpanic ''create dots''
     else
       kbind (dirlink ip DOTDOT (i_inum d)) (\<lambda>r.
       if r < 0 then kpanic ''create dots'' else kskip)))))"

definition create :: "bytes \<Rightarrow> int \<Rightarrow> int \<Rightarrow> int \<Rightarrow> ('a cons_st_scheme, nat option) kop" where
  "create path type major minor =
     kbind (nameiparent path no_name) (\<lambda>r.
     case r of
       None \<Rightarrow> kret None
     | Some (dp, name) \<Rightarrow>
         kbind (ilock (Some dp)) (\<lambda>_.
         kbind (dirlookup dp name) (\<lambda>r.
         case r of
           Some (ip, _) \<Rightarrow>
             kbind (iunlockput dp) (\<lambda>_.
             kbind (ilock (Some ip)) (\<lambda>_.
             kbind (ino ip) (\<lambda>x.
             if type = T_FILE \<and> i_type x = T_FILE then kret (Some ip)
             else kseq (iunlockput ip) (kret None))))
         | None \<Rightarrow>
             kbind (ino dp) (\<lambda>d.
             kbind (ialloc (i_dev d) type) (\<lambda>ip.
             kbind (ilock (Some ip)) (\<lambda>_.
             kbind (kmod (upd_inode ip (\<lambda>x. x\<lparr>i_major := s16 major, i_minor := s16 minor, i_nlink := 1\<rparr>))) (\<lambda>_.
             kbind (iupdate ip) (\<lambda>_.
             kbind (kwhen (type = T_DIR) (create_dots ip dp)) (\<lambda>_.
             kbind (ino ip) (\<lambda>x.
             kbind (dirlink dp name (i_inum x)) (\<lambda>r.
             if r < 0 then kpanic ''create: dirlink''
             else kseq (iunlockput dp) (kret (Some ip)))))))))))))"

text \<open>The inode that \<^verbatim>\<open>sys_open\<close> opens, locked, or \<open>None\<close> after the failure has been cleaned up.\<close>

definition open_inode :: "bytes \<Rightarrow> int \<Rightarrow> ('a cons_st_scheme, nat option) kop" where
  "open_inode path omode =
     (if and omode O_CREATE \<noteq> 0 then
        kbind (create path T_FILE 0 0) (\<lambda>r.
        case r of None \<Rightarrow> kseq end_op (kret None) | Some ip \<Rightarrow> kret (Some ip))
      else
        kbind (namei path) (\<lambda>r.
        case r of
          None \<Rightarrow> kseq end_op (kret None)
        | Some ip \<Rightarrow>
            kbind (ilock (Some ip)) (\<lambda>_.
            kbind (ino ip) (\<lambda>x.
            if i_type x = T_DIR \<and> omode \<noteq> O_RDONLY then
              kseq (iunlockput ip) (kseq end_op (kret None))
            else kret (Some ip)))))"

definition open_bad :: "nat option \<Rightarrow> nat \<Rightarrow> ('a file_st_scheme, int) kop" where
  "open_bad f ip = kseq (close_opt f) (kseq (iunlockput ip) (kseq end_op (kret (- 1))))"

definition open_file :: "nat \<Rightarrow> int \<Rightarrow> kfile \<Rightarrow> kfile" where
  "open_file ip omode x =
     x\<lparr>f_type := FD_INODE, f_ip := ip, f_off := 0, f_readable := (and omode O_WRONLY = 0),
       f_writable := (and omode O_WRONLY \<noteq> 0 \<or> and omode O_RDWR \<noteq> 0)\<rparr>"

definition sys_open :: "('a file_st_scheme, int) kop" where
  "sys_open =
     arg_or_fail (argstr 0) (\<lambda>path.
     arg_or_fail (argint 1) (\<lambda>omode.
     kbind begin_op (\<lambda>_.
     kbind (open_inode path omode) (\<lambda>r.
     case r of
       None \<Rightarrow> kret (- 1)
     | Some ip \<Rightarrow>
         kbind filealloc (\<lambda>f.
         case f of
           None \<Rightarrow> open_bad None ip
         | Some f \<Rightarrow>
             kbind (fdalloc f) (\<lambda>fd.
             if fd < 0 then open_bad (Some f) ip
             else
               kbind (iunlock (Some ip)) (\<lambda>_.
               kbind end_op (\<lambda>_.
               kbind (kmod (upd_file f (open_file ip omode))) (\<lambda>_.
               kret fd)))))))))"

text \<open>The shared end of \<^verbatim>\<open>sys_mkdir\<close> and \<^verbatim>\<open>sys_mknod\<close>.\<close>

definition created :: "nat option \<Rightarrow> ('a fs_st_scheme, int) kop" where
  "created r = (case r of
     None \<Rightarrow> kseq end_op (kret (- 1))
   | Some ip \<Rightarrow> kseq (iunlockput ip) (kseq end_op (kret 0)))"

definition sys_mkdir :: "('a file_st_scheme, int) kop" where
  "sys_mkdir =
     kbind begin_op (\<lambda>_.
     kbind (argstr 0) (\<lambda>p.
     case p of
       None \<Rightarrow> created None
     | Some path \<Rightarrow> kbind (create path T_DIR 0 0) created))"

definition sys_mknod :: "('a file_st_scheme, int) kop" where
  "sys_mknod =
     kbind begin_op (\<lambda>_.
     kbind (argstr 0) (\<lambda>p.
     case p of
       None \<Rightarrow> created None
     | Some path \<Rightarrow>
         kbind (argint 1) (\<lambda>major.
         case major of
           None \<Rightarrow> created None
         | Some major \<Rightarrow>
             kbind (argint 2) (\<lambda>minor.
             case minor of
               None \<Rightarrow> created None
             | Some minor \<Rightarrow> kbind (create path T_DEV major minor) created))))"

definition sys_chdir :: "('a file_st_scheme, int) kop" where
  "sys_chdir =
     kbind curproc (\<lambda>i.
     kbind begin_op (\<lambda>_.
     kbind (argstr 0) (\<lambda>p.
     kbind (case p of None \<Rightarrow> kret None | Some path \<Rightarrow> namei path) (\<lambda>r.
     case r of
       None \<Rightarrow> kseq end_op (kret (- 1))
     | Some ip \<Rightarrow>
         kbind (ilock (Some ip)) (\<lambda>_.
         kbind (ino ip) (\<lambda>x.
         if i_type x \<noteq> T_DIR then kseq (iunlockput ip) (kseq end_op (kret (- 1)))
         else
           kbind (iunlock (Some ip)) (\<lambda>_.
           kbind (kget (\<lambda>s. p_cwd (ptable s ! i))) (\<lambda>cwd.
           kbind (kbind (kderef cwd) iput) (\<lambda>_.
           kbind end_op (\<lambda>_.
           kbind (kmod (upd_proc i (\<lambda>p. p\<lparr>p_cwd := Some ip\<rparr>))) (\<lambda>_.
           kret 0)))))))))))"

section \<open>exec and pipe\<close>

text \<open>The arguments at \<open>uargv\<close>, \<open>None\<close> when there are more than \<open>MAXARG - 1\<close> or one is bad.\<close>

primrec fetch_argv :: "nat \<Rightarrow> u32 \<Rightarrow> ('a proc_st_scheme, bytes list option) kop" where
  "fetch_argv 0 uargv = kret None"
| "fetch_argv (Suc n) uargv =
     kbind (fetchint uargv) (\<lambda>r.
     case r of
       None \<Rightarrow> kret None
     | Some uarg \<Rightarrow>
         if uarg = 0 then kret (Some [])
         else
           kbind (fetchstr (of_int uarg)) (\<lambda>r.
           case r of
             None \<Rightarrow> kret None
           | Some a \<Rightarrow>
               kbind (fetch_argv n (uargv + 4)) (\<lambda>q. kret (map_option ((#) a) q))))"

definition sys_exec :: "('a file_st_scheme, int) kop" where
  "sys_exec =
     arg_or_fail (argstr 0) (\<lambda>path.
     arg_or_fail (argint 1) (\<lambda>uargv.
     arg_or_fail (fetch_argv MAXARG (of_int uargv)) (\<lambda>argv.
     exec path argv)))"

definition sys_pipe :: "('a file_st_scheme, int) kop" where
  "sys_pipe =
     arg_or_fail (argptr 0 8) (\<lambda>fd.
     arg_or_fail pipealloc (\<lambda>(rf, wf).
     kbind (fdalloc rf) (\<lambda>fd0.
     kbind (if fd0 < 0 then kret (- 1) else fdalloc wf) (\<lambda>fd1.
     if fd0 < 0 \<or> fd1 < 0 then
       kbind curproc (\<lambda>i.
       kbind (kwhen (fd0 \<ge> 0) (kmod (upd_proc i (\<lambda>p. p\<lparr>p_ofile := (p_ofile p)[nat fd0 := None]\<rparr>)))) (\<lambda>_.
       kbind (fileclose rf) (\<lambda>_.
       kbind (fileclose wf) (\<lambda>_.
       kret (- 1)))))
     else
       kbind (uwrite fd (le_bytes 4 (nat fd0))) (\<lambda>_.
       kbind (uwrite (fd + 4) (le_bytes 4 (nat fd1))) (\<lambda>_.
       kret 0))))))"

end
