(* ===== verification/Trap.thy ===== *)
theory Trap
  imports Sysfile Segs
begin

text \<open>
  The system call dispatcher of \<^verbatim>\<open>syscall.c\<close> and the trap handler of \<^verbatim>\<open>trap.c\<close>.  Acknowledging an interrupt to the
  local APIC is left out.
\<close>

section \<open>System calls\<close>

text \<open>The table \<^verbatim>\<open>syscalls[]\<close>, by number; \<open>junk\<close> is what \<^verbatim>\<open>sys_info\<close> finds in its local variable.\<close>

definition syscalls :: "int \<Rightarrow> (('a file_st_scheme, int) kop) list" where
  "syscalls junk =
    [sys_fork, sys_exit, sys_wait, sys_pipe, sys_read, sys_kill, sys_exec, sys_fstat, sys_chdir, sys_dup,
     sys_getpid, sys_sbrk, sys_sleep, sys_uptime, sys_open, sys_write, sys_mknod, sys_unlink, sys_link,
     sys_mkdir, sys_close, sys_info junk, sys_tickets, sys_clone]"

definition set_eax :: "nat \<Rightarrow> int \<Rightarrow> ('a proc_st_scheme, unit) kop" where
  "set_eax i v = kmod (upd_proc i (\<lambda>p. p\<lparr>p_tf := (p_tf p)\<lparr>tf_eax := of_int v\<rparr>\<rparr>))"

definition syscall :: "int \<Rightarrow> ('a file_st_scheme, unit) kop" where
  "syscall junk =
     kbind curproc (\<lambda>i.
     kbind (kget (\<lambda>s. sint (tf_eax (p_tf (ptable s ! i))))) (\<lambda>num.
     if 0 < num \<and> num \<le> 24 then
       kbind (syscalls junk ! nat (num - 1)) (\<lambda>r.
       kbind (set_eax i r) (\<lambda>_.
       kmod (upd_proc i (\<lambda>p. p\<lparr>p_syscall_count := s32 (p_syscall_count p + 1)\<rparr>))))
     else
       kbind (kget (\<lambda>s. ptable s ! i)) (\<lambda>p.
       kbind (cprintf (str ''%d %s: unknown sys call %d'' @ [10])
         [CInt (p_pid p), CStr (Some (takeWhile (\<lambda>b. b \<noteq> 0) (p_name p))), CInt num]) (\<lambda>_.
       set_eax i (- 1)))))"

section \<open>Traps\<close>

definition T_IRQ0 :: nat where "T_IRQ0 = 32"
definition IRQ_TIMER :: nat where "IRQ_TIMER = 0"
definition IRQ_KBD :: nat where "IRQ_KBD = 1"
definition IRQ_COM1 :: nat where "IRQ_COM1 = 4"
definition IRQ_IDE :: nat where "IRQ_IDE = 14"
definition IRQ_SPURIOUS :: nat where "IRQ_SPURIOUS = 31"

text \<open>The interrupt handler of the memory disk does nothing.\<close>

definition ideintr :: "('a proc_st_scheme, unit) kop" where
  "ideintr = kskip"

definition exit_if_killed :: "('a file_st_scheme, unit) kop" where
  "exit_if_killed =
     kbind curproc (\<lambda>i.
     kbind (kget (\<lambda>s. p_killed (ptable s ! i))) (\<lambda>k.
     if k then exit else kskip))"

text \<open>The check before returning to user space, with the privilege level of the interrupted code.\<close>

definition exit_user :: "trapframe \<Rightarrow> ('a file_st_scheme, unit) kop" where
  "exit_user tf =
     kbind myproc (\<lambda>p.
     case p of
       None \<Rightarrow> kskip
     | Some i \<Rightarrow>
         kbind (kget (\<lambda>s. p_killed (ptable s ! i))) (\<lambda>k.
         if k \<and> tf_cs tf AND 3 = 3 then exit else kskip))"

text \<open>What a device has delivered when it interrupts, the CPU number and the fault address register.\<close>

record trap_in =
  in_kbd :: "u32 list"
  in_uart :: "u8 list"
  in_cpu :: nat
  in_cr2 :: u32

definition timer_tick :: "nat \<Rightarrow> ('a proc_st_scheme, unit) kop" where
  "timer_tick cpu = kwhen (cpu = 0) (kseq (kmod (\<lambda>s. s\<lparr>ticks := w32 (ticks s + 1)\<rparr>)) (wakeup ChTicks))"

definition fault_trap :: "trap_in \<Rightarrow> trapframe \<Rightarrow> ('a cons_st_scheme, unit) kop" where
  "fault_trap d tf =
     kbind myproc (\<lambda>p.
     case p of
       None \<Rightarrow> kpanic ''trap''
     | Some i \<Rightarrow>
         if tf_cs tf AND 3 = 0 then kpanic ''trap''
         else
           kbind (kget (\<lambda>s. ptable s ! i)) (\<lambda>p.
           kbind (cprintf (str ''pid %d %s: trap %d err %d on cpu %d eip 0x%x addr 0x%x--kill proc'' @ [10])
             [CInt (p_pid p), CStr (Some (takeWhile (\<lambda>b. b \<noteq> 0) (p_name p))), CInt (uint (tf_trapno tf)),
              CInt (uint (tf_err tf)), CInt (int (in_cpu d)), CInt (uint (tf_eip tf)), CInt (uint (in_cr2 d))]) (\<lambda>_.
           kmod (upd_proc i (\<lambda>p. p\<lparr>p_killed := True\<rparr>)))))"

definition trap_switch :: "trap_in \<Rightarrow> trapframe \<Rightarrow> ('a cons_st_scheme, unit) kop" where
  "trap_switch d tf =
     (let n = unat (tf_trapno tf) in
      if n = T_IRQ0 + IRQ_TIMER then timer_tick (in_cpu d)
      else if n = T_IRQ0 + IRQ_IDE then ideintr
      else if n = T_IRQ0 + IRQ_IDE + 1 then kskip
      else if n = T_IRQ0 + IRQ_KBD then kbdintr (in_kbd d)
      else if n = T_IRQ0 + IRQ_COM1 then uartintr (in_uart d)
      else if n = T_IRQ0 + 7 \<or> n = T_IRQ0 + IRQ_SPURIOUS then
        cprintf (str ''cpu%d: spurious interrupt at %x:%x'' @ [10])
          [CInt (int (in_cpu d)), CInt (uint (tf_cs tf)), CInt (uint (tf_eip tf))]
      else fault_trap d tf)"

text \<open>A process that yields continues with \<^verbatim>\<open>exit_user tf\<close> when it runs again.\<close>

definition trap :: "int \<Rightarrow> trap_in \<Rightarrow> trapframe \<Rightarrow> ('a file_st_scheme, unit) kop" where
  "trap junk d tf =
     (if unat (tf_trapno tf) = T_SYSCALL then
        kbind exit_if_killed (\<lambda>_.
        kbind curproc (\<lambda>i.
        kbind (kmod (upd_proc i (\<lambda>p. p\<lparr>p_tf := tf\<rparr>))) (\<lambda>_.
        kbind (syscall junk) (\<lambda>_.
        exit_if_killed))))
      else
        kbind (trap_switch d tf) (\<lambda>_.
        kbind (exit_user tf) (\<lambda>_.
        kbind myproc (\<lambda>p.
        kbind (case p of
                 None \<Rightarrow> kskip
               | Some i \<Rightarrow>
                   kbind (kget (\<lambda>s. p_state (ptable s ! i))) (\<lambda>st.
                   if st = RUNNING \<and> unat (tf_trapno tf) = T_IRQ0 + IRQ_TIMER then yield else kskip)) (\<lambda>_.
        exit_user tf)))))"

end
