(* ===== verification/Vm_Term.thy ===== *)
theory Vm_Term
  imports Vm
begin

text \<open>
  The loops of \<^verbatim>\<open>vm.c\<close> end.  \<open>hangfree m\<close> says that operation \<open>m\<close> never runs for ever; it may still panic.
\<close>

definition hangfree :: "('s, 'a) kop \<Rightarrow> bool" where
  "hangfree m \<longleftrightarrow> (\<forall>s. m s \<noteq> Hang)"

lemma hangfreeD: "hangfree m \<Longrightarrow> m s \<noteq> Hang"
  by (simp add: hangfree_def)

named_theorems hf \<open>operations that do not hang\<close>

lemma hangfree_kbind [hf]: "hangfree m \<Longrightarrow> (\<And>a. hangfree (f a)) \<Longrightarrow> hangfree (kbind m f)"
  unfolding hangfree_def
proof
  fix s assume "\<forall>s. m s \<noteq> Hang" "\<And>a. \<forall>s. f a s \<noteq> Hang"
  then show "kbind m f s \<noteq> Hang"
    by (cases "m s") auto
qed

lemma hangfree_base [hf]:
  "hangfree (kret a)" "hangfree kskip" "hangfree (kget g)" "hangfree (kmod h)" "hangfree (kpanic e)" "hangfree kfault"
  "hangfree kalloc" "hangfree (kfree v)" "hangfree (rd32 a')" "hangfree (wr32 a' w)" "hangfree (memset_page a')"
  by (simp_all add: hangfree_def kret_def kskip_def kget_def kmod_def kpanic_def kfault_def kalloc_def kfree_def
      rd32_def wr32_def memset_page_def Let_def)

lemma hangfree_if [hf]: "(b \<Longrightarrow> hangfree m) \<Longrightarrow> (\<not> b \<Longrightarrow> hangfree n) \<Longrightarrow> hangfree (if b then m else n)"
  by simp

lemma hangfree_kwhen [hf]: "hangfree m \<Longrightarrow> hangfree (kwhen b m)"
  by (simp add: kwhen_def hf)

lemma hangfree_kfor [hf]: "(\<And>x. hangfree (f x)) \<Longrightarrow> hangfree (kfor xs f)"
  by (induction xs) (auto intro!: hf)

lemma hangfree_walkpgdir [hf]: "hangfree (walkpgdir pgdir va alloc)"
  by (auto simp: walkpgdir_def Let_def intro!: hf)

lemma hangfree_map_one [hf]: "hangfree (map_one pgdir a pa perm)"
  by (auto simp: map_one_def intro!: hf)

lemma hangfree_mappages_loop [hf]: "hangfree (mappages_loop n pgdir a pa perm)"
  by (induction n arbitrary: a pa) (auto intro!: hf)

lemma hangfree_mappages [hf]: "hangfree (mappages pgdir va sz pa perm)"
  by (simp add: mappages_def Let_def hf)

section \<open>Addresses move up\<close>

lemma unat_PDX: "unat (PDX a) = unat a div 2 ^ 22"
proof -
  have "PDX a = drop_bit 22 a"
    unfolding PDX_def
  proof (rule bit_word_eqI)
    fix n assume n: "n < LENGTH(32)"
    then have "bit (0x3FF :: u32) n \<longleftrightarrow> n < 10"
      using mask_eq_exp_minus_1 [of 10, where ?'a = u32] bit_mask_iff [of 10 n, where ?'a = u32] by simp
    moreover have "bit a (22 + n) \<Longrightarrow> n < 10"
      using bit_imp_le_length [of a "22 + n"] by simp
    ultimately show "bit (drop_bit 22 a AND 0x3FF) n = bit (drop_bit 22 a) n"
      by (auto simp: bit_and_iff bit_drop_bit_eq)
  qed
  then show ?thesis
    by (simp add: drop_bit_eq_div unat_div)
qed

lemma unat_PGADDR: "unat (PGADDR w 0 0) = unat w * 2 ^ 22 mod 2 ^ 32"
  by (simp add: PGADDR_def unsigned_push_bit_eq push_bit_eq_mult take_bit_eq_mod unat_word_ariths)

lemma next_table:
  assumes "unat a < 2 ^ 31" "4096 dvd unat a"
  shows "unat (PGADDR (PDX a + 1) 0 0 - PGSIZE + PGSIZE) \<ge> unat a + 4096"
proof -
  let ?d = "unat a div 2 ^ 22"
  have d: "?d < 2 ^ 9"
    using assms(1) by (simp add: less_mult_imp_div_less)
  have "unat (PDX a + 1) = ?d + 1"
    using d by (simp add: unat_word_ariths unat_PDX)
  then have x: "unat (PGADDR (PDX a + 1) 0 0) = (unat a div 4194304 + 1) * 4194304"
    using d unat_PGADDR [of "PDX a + 1"] by simp
  have "4096 dvd unat a mod 4194304"
    using assms(2) by (simp add: dvd_mod)
  then obtain k where "unat a mod 4194304 = 4096 * k" ..
  moreover have "unat a mod 4194304 < 4194304"
    by simp
  ultimately have y: "unat a mod 4194304 + 4096 \<le> 4194304"
    by simp
  have z: "unat a = unat a div 4194304 * 4194304 + unat a mod 4194304"
    by (rule div_mult_mod_eq [symmetric])
  have "PGADDR (PDX a + 1) 0 0 - PGSIZE + PGSIZE = PGADDR (PDX a + 1) 0 0"
    by simp
  moreover define q r where "q = unat a div 4194304" and "r = unat a mod 4194304"
  ultimately show ?thesis
    using x y z unfolding q_def [symmetric] r_def [symmetric] by simp
qed

lemma next_page: "unat a < 2 ^ 31 \<Longrightarrow> unat (a + PGSIZE) = unat a + 4096"
  by (simp add: PGSIZE_def unat_word_ariths)

section \<open>The loops end\<close>

lemma deallocuvm_loop_ends:
  "unat oldsz \<le> 2 ^ 31 \<Longrightarrow> 4096 dvd unat a \<Longrightarrow> unat oldsz \<le> unat a + 4096 * f \<Longrightarrow>
    hangfree (deallocuvm_loop (Suc f) pgdir a oldsz :: ('a kmem_st_scheme, unit) kop)"
proof (induction f arbitrary: a)
  case 0
  then show ?case
    by (simp add: hf word_less_nat_alt)
next
  case (Suc f)
  show ?case
  proof (cases "a < oldsz")
    case True
    then have a: "unat a < 2 ^ 31"
      using Suc.prems(1) by (simp add: word_less_nat_alt)
    have "hangfree (deallocuvm_loop (Suc f) pgdir (a + PGSIZE) oldsz :: ('a kmem_st_scheme, unit) kop)"
      using Suc.prems by (intro Suc.IH) (simp_all add: next_page [OF a])
    moreover have "hangfree (deallocuvm_loop (Suc f) pgdir (PGADDR (PDX a + 1) 0 0 - PGSIZE + PGSIZE) oldsz :: ('a kmem_st_scheme, unit) kop)"
      using Suc.prems next_table [OF a Suc.prems(2)] a
      by (intro Suc.IH) (simp_all add: unat_PGADDR dvd_mod)
    ultimately show ?thesis
      by (subst deallocuvm_loop.simps) (auto intro!: hf simp del: deallocuvm_loop.simps)
  qed (simp add: hf)
qed

lemma aligned_dvd: "4096 dvd unat (PGROUNDUP a)"
  by (simp add: PGROUNDUP_eq unat_PGROUNDDOWN dvd_minus_mod)

lemma hangfree_deallocuvm: "unat oldsz \<le> 2 ^ 31 \<Longrightarrow> hangfree (deallocuvm pgdir oldsz newsz)"
  using deallocuvm_loop_ends [of oldsz "PGROUNDUP newsz" "2 ^ 20" pgdir] aligned_dvd [of newsz]
  by (auto simp: deallocuvm_def intro!: hf simp del: deallocuvm_loop.simps)

lemma hangfree_freevm [hf]: "hangfree (freevm pgdir)"
  by (auto simp: freevm_def KERNBASE_def intro!: hf hangfree_deallocuvm)

lemma hangfree_setupkvm_loop [hf]: "hangfree (setupkvm_loop pgdir ks)"
  by (induction ks) (auto intro!: hf)

lemma hangfree_setupkvm [hf]: "hangfree setupkvm"
  by (auto simp: setupkvm_def intro!: hf)

lemma allocuvm_loop_ends:
  "unat newsz < 2 ^ 31 \<Longrightarrow> unat newsz \<le> unat a + 4096 * f \<Longrightarrow>
    hangfree (allocuvm_loop (Suc f) pgdir a oldsz newsz :: ('a kmem_st_scheme, u32) kop)"
proof (induction f arbitrary: a)
  case 0
  then show ?case
    by (simp add: hf word_less_nat_alt)
next
  case (Suc f)
  show ?case
  proof (cases "a < newsz")
    case True
    then have a: "unat a < 2 ^ 31"
      using Suc.prems(1) by (simp add: word_less_nat_alt)
    have "hangfree (allocuvm_loop (Suc f) pgdir (a + PGSIZE) oldsz newsz :: ('a kmem_st_scheme, u32) kop)"
      using Suc.prems by (intro Suc.IH) (simp_all add: next_page [OF a])
    then show ?thesis
      using Suc.prems(1)
      by (subst allocuvm_loop.simps) (auto intro!: hf hangfree_deallocuvm simp del: allocuvm_loop.simps)
  qed (simp add: hf)
qed

lemma hangfree_allocuvm: "hangfree (allocuvm pgdir oldsz newsz)"
  using allocuvm_loop_ends [of newsz "PGROUNDUP oldsz" "2 ^ 20" pgdir oldsz]
  by (auto simp: allocuvm_def KERNBASE_def word_le_nat_alt intro!: hf simp del: allocuvm_loop.simps)

lemma copyuvm_loop_ends:
  "unat sz \<le> 2 ^ 31 \<Longrightarrow> unat sz \<le> unat i + 4096 * f \<Longrightarrow> hangfree (copyuvm_loop (Suc f) pgdir d i sz :: ('a kmem_st_scheme, u32) kop)"
proof (induction f arbitrary: i)
  case 0
  then show ?case
    by (simp add: hf word_less_nat_alt)
next
  case (Suc f)
  show ?case
  proof (cases "i < sz")
    case True
    then have i: "unat i < 2 ^ 31"
      using Suc.prems(1) by (simp add: word_less_nat_alt)
    have "hangfree (copyuvm_loop (Suc f) pgdir d (i + PGSIZE) sz :: ('a kmem_st_scheme, u32) kop)"
      using Suc.prems by (intro Suc.IH) (simp_all add: next_page [OF i])
    then show ?thesis
      by (subst copyuvm_loop.simps) (auto intro!: hf simp del: copyuvm_loop.simps)
  qed (simp add: hf)
qed

text \<open>C13: The memory management loops end for every process size the kernel allows: \<^verbatim>\<open>deallocuvm\<close> and \<^verbatim>\<open>copyuvm\<close>
  for sizes up to \<open>KERNBASE\<close>, and \<^verbatim>\<open>allocuvm\<close>, \<^verbatim>\<open>setupkvm\<close> and \<^verbatim>\<open>freevm\<close> always, from any state of memory, also
  when a page table is missing and \<^verbatim>\<open>deallocuvm\<close> skips to the next one.\<close>

theorem vm_loops_end:
  fixes s :: "'a kmem_st_scheme"
  assumes "sz \<le> KERNBASE"
  shows "deallocuvm pgdir sz newsz s \<noteq> Hang \<and> copyuvm pgdir sz s \<noteq> Hang \<and> allocuvm pgdir oldsz newsz s \<noteq> Hang \<and>
    setupkvm s \<noteq> Hang \<and> freevm pgdir s \<noteq> Hang"
proof -
  have sz: "unat sz \<le> 2 ^ 31"
    using assms by (simp add: KERNBASE_def word_le_nat_alt)
  have c: "hangfree (copyuvm pgdir sz :: ('a kmem_st_scheme, u32) kop)"
    using copyuvm_loop_ends [of sz 0 "2 ^ 20" pgdir] sz
    by (auto simp: copyuvm_def intro!: hf simp del: copyuvm_loop.simps)
  show ?thesis
    by (auto intro!: hangfreeD hf c hangfree_deallocuvm [OF sz] hangfree_allocuvm)
qed

definition no_pages :: kmem_st where
  "no_pages = \<lparr>mem = \<lambda>_. 0, kern_end = 0, kern_data = 0, use_lock = False, freelist = 0\<rparr>"

theorem vm_loops_end_witness:
  "(8192 :: u32) \<le> KERNBASE \<and> deallocuvm 0x80400000 8192 0 no_pages \<noteq> Hang"
  using vm_loops_end [of 8192 "0x80400000" 0 no_pages 0] by (simp add: KERNBASE_def)

end
