(* ===== verification/Vm_User.thy ===== *)
theory Vm_User
  imports Vm
begin

text \<open>
  User memory through page tables: what \<^verbatim>\<open>copyout\<close> does to an address space.  \<open>aspace m pgdir\<close> is the
  well-formedness that the kernel's address spaces have: the frames that user code can reach hold
  neither the page directory nor a page table, and each is mapped at one place only.
\<close>

section \<open>Pages and frames\<close>

definition table_of :: "memory \<Rightarrow> u32 \<Rightarrow> u32 \<Rightarrow> u32 option" where
  "table_of m pgdir va =
     (let e = load32 m (pgdir + 4 * PDX va) in if e AND PTE_P = 0 then None else Some (P2V (PTE_ADDR e)))"

definition frame_of :: "memory \<Rightarrow> u32 \<Rightarrow> u32 \<Rightarrow> u32 option" where
  "frame_of m pgdir va =
     (case table_of m pgdir va of
        None \<Rightarrow> None
      | Some t \<Rightarrow>
          (let q = load32 m (t + 4 * PTX va) in
           if q AND PTE_P = 0 \<or> q AND PTE_U = 0 then None else Some (P2V (PTE_ADDR q))))"

definition aspace :: "memory \<Rightarrow> u32 \<Rightarrow> bool" where
  "aspace m pgdir \<longleftrightarrow> pgdir mod PGSIZE = 0 \<and> (\<forall>v. table_of m pgdir v \<noteq> Some 0) \<and>
     (\<forall>v w f. frame_of m pgdir v = Some f \<longrightarrow> f \<noteq> 0 \<and> f \<noteq> pgdir \<and> table_of m pgdir w \<noteq> Some f \<and>
       (frame_of m pgdir w = Some f \<longrightarrow> PGROUNDDOWN v = PGROUNDDOWN w))"

lemma translate_frame: "translate m pgdir va = map_option (\<lambda>f. f + (va AND 0xFFF)) (frame_of m pgdir va)"
  by (simp add: translate_def frame_of_def table_of_def Let_def)

lemma page_base:
  assumes "b mod PGSIZE = 0" "unat x < 4096"
  shows "PGROUNDDOWN (b + x) = b" "unat (b + x) = unat b + unat x"
proof -
  have "4096 dvd unat b"
    using assms(1) unfolding aligned_unat by (rule mod_0_imp_dvd)
  then obtain k where k: "unat b = 4096 * k" by (elim dvdE)
  have d: "unat b < 2 ^ 32"
    by (rule unat_u32_bound)
  have "unat b + unat x < 2 ^ 32"
    using d assms(2) unfolding k by simp
  then show s: "unat (b + x) = unat b + unat x"
    by (simp add: unat_word_ariths)
  then have "unat (PGROUNDDOWN (b + x)) = unat b"
    using assms(2) by (simp add: unat_PGROUNDDOWN k)
  then show "PGROUNDDOWN (b + x) = b"
    by (simp add: word_unat_eq_iff)
qed

lemma low_bits: "va AND 0xFFF = va - PGROUNDDOWN va" "unat (va AND 0xFFF) < 4096"
proof -
  have m: "va AND 0xFFF = va mod PGSIZE"
    using take_bit_eq_mask [of 12 va] take_bit_eq_mod [of 12 va]
    by (simp add: PGSIZE_def mask_eq_exp_minus_1)
  then show "va AND 0xFFF = va - PGROUNDDOWN va"
    by (simp add: PGROUNDDOWN_eq)
  show "unat (va AND 0xFFF) < 4096"
    unfolding m by (simp add: unat_mod)
qed

lemma entry_index: "unat (4 * PDX va) \<le> 4092" "unat (4 * PTX va) \<le> 4092"
proof -
  have "unat (x AND 0x3FF) \<le> 0x3FF" for x :: u32
    using word_and_le1 [of x "0x3FF"] by (simp add: word_le_nat_alt)
  then have "unat (PDX va) \<le> 0x3FF" "unat (PTX va) \<le> 0x3FF"
    by (simp_all add: PDX_def PTX_def)
  then show "unat (4 * PDX va) \<le> 4092" "unat (4 * PTX va) \<le> 4092"
    by (simp_all add: unat_word_ariths)
qed

lemma PTE_ADDR_aligned [simp]: "P2V (PTE_ADDR e) mod PGSIZE = 0"
proof -
  have "PTE_ADDR e = PGROUNDDOWN e"
    by (simp add: PTE_ADDR_def PGROUNDDOWN_def PGSIZE_def)
  then have "unat (PTE_ADDR e) mod 4096 = 0"
    using PGROUNDDOWN_aligned [of e, unfolded aligned_unat] by simp
  then have "4096 dvd unat (PTE_ADDR e)"
    by (rule mod_0_imp_dvd)
  then have "4096 dvd (unat (PTE_ADDR e) + 2147483648) mod 4294967296"
    by (intro dvd_mod dvd_add) simp_all
  then have "4096 dvd unat (P2V (PTE_ADDR e))"
    by (simp add: P2V_def unat_word_ariths KERNBASE_def)
  then show ?thesis
    unfolding aligned_unat by (rule dvd_imp_mod_0)
qed

lemma PDX_page: "PDX (PGROUNDDOWN va) = PDX va" "PTX (PGROUNDDOWN va) = PTX va"
proof -
  have n: "bit (PGSIZE - 1) k \<longleftrightarrow> k < 12 " if "k < 32" for k
    using that bit_mask_iff [of 12 k, where ?'a = u32] by (simp add: PGSIZE_def mask_eq_exp_minus_1)
  have b: "bit (PGROUNDDOWN va) k = bit va k" if "12 \<le> k" for k
  proof (cases "k < 32")
    case True
    then show ?thesis
      using n [of k] that by (simp add: PGROUNDDOWN_def bit_and_iff bit_not_iff)
  next
    case False
    then show ?thesis
      using bit_imp_le_length [of va k] bit_imp_le_length [of "PGROUNDDOWN va" k] by auto
  qed
  show "PDX (PGROUNDDOWN va) = PDX va" "PTX (PGROUNDDOWN va) = PTX va"
    unfolding PDX_def PTX_def by (rule bit_word_eqI; simp add: bit_and_iff bit_drop_bit_eq b)+
qed

lemma frame_page: "frame_of m pgdir (PGROUNDDOWN va) = frame_of m pgdir va"
  unfolding frame_of_def table_of_def PDX_page by (rule refl)

lemma frame_aligned: "frame_of m pgdir va = Some f \<Longrightarrow> f mod PGSIZE = 0"
  by (auto simp: frame_of_def Let_def split: option.splits if_splits)

lemma table_aligned: "table_of m pgdir va = Some t \<Longrightarrow> t mod PGSIZE = 0"
  by (auto simp: table_of_def Let_def split: if_splits)

text \<open>A word inside a page is read from that page.\<close>

lemma load_page_cong:
  assumes "b mod PGSIZE = 0" "unat i \<le> 4092" "\<And>x. PGROUNDDOWN x = b \<Longrightarrow> m' x = m x"
  shows "load32 m' (b + i) = load32 m (b + i)"
proof -
  have "m' (b + i + k) = m (b + i + k)" if "unat k < 4" for k
  proof -
    have "unat (i + k) = unat i + unat k"
      using assms(2) that by (simp add: unat_word_ariths)
    then have "PGROUNDDOWN (b + (i + k)) = b"
      using assms(2) that by (intro page_base [OF assms(1)]) simp
    then show ?thesis
      using assms(3) by (simp add: add.assoc)
  qed
  from this [of 0] this [of 1] this [of 2] this [of 3] show ?thesis
    by (simp add: load32_def)
qed

text \<open>A change of memory that touches user frames only.\<close>

definition user_change :: "u32 \<Rightarrow> memory \<Rightarrow> memory \<Rightarrow> bool" where
  "user_change pgdir m m' \<longleftrightarrow> (\<forall>x. m' x \<noteq> m x \<longrightarrow> (\<exists>v. frame_of m pgdir v = Some (PGROUNDDOWN x)))"

lemma frame_cong:
  assumes a: "aspace m pgdir" and u: "user_change pgdir m m'"
  shows "table_of m' pgdir = table_of m pgdir" "frame_of m' pgdir = frame_of m pgdir"
proof -
  have dir: "m' x = m x" if "PGROUNDDOWN x = pgdir" for x
    using a u that unfolding aspace_def user_change_def by blast
  have tab: "m' x = m x" if "table_of m pgdir v = Some (PGROUNDDOWN x)" for v x
    using a u that unfolding aspace_def user_change_def by blast
  have "load32 m' (pgdir + 4 * PDX v) = load32 m (pgdir + 4 * PDX v)" for v
    using a dir entry_index by (intro load_page_cong) (auto simp: aspace_def)
  then show t: "table_of m' pgdir = table_of m pgdir"
    by (intro ext) (simp add: table_of_def)
  have "load32 m' (t + 4 * PTX v) = load32 m (t + 4 * PTX v)" if "table_of m pgdir v = Some t" for v t
    using that tab entry_index table_aligned [OF that] by (intro load_page_cong) auto
  then show "frame_of m' pgdir = frame_of m pgdir"
    by (intro ext) (auto simp: frame_of_def t split: option.split)
qed

lemma aspace_cong:
  assumes "aspace m pgdir" "user_change pgdir m m'"
  shows "aspace m' pgdir"
  using assms(1) unfolding aspace_def frame_cong [OF assms] .

section \<open>Copying out\<close>

lemma store_bytes_at:
  "length bs \<le> 2 ^ 32 \<Longrightarrow>
   store_bytes m a bs x = (if unat (x - a) < length bs then bs ! unat (x - a) else m x)"
proof (induction bs arbitrary: m a)
  case (Cons b bs)
  have ih: "store_bytes (m(a := b)) (a + 1) bs x =
      (if unat (x - (a + 1)) < length bs then bs ! unat (x - (a + 1)) else (m(a := b)) x)"
    using Cons by simp
  show ?case
  proof (cases "x = a")
    case True
    have "unat (x - (a + 1)) = 2 ^ 32 - 1"
      using True by (simp add: unsigned_minus_1_eq_mask mask_eq_exp_minus_1)
    then show ?thesis
      using True ih Cons.prems by simp
  next
    case False
    then have "x - a \<noteq> 0"
      by simp
    then have "unat (x - a) = Suc (unat (x - (a + 1)))"
      by (simp add: unat_minus_one diff_diff_eq [symmetric] unat_gt_0 del: right_minus_eq)
    then show ?thesis
      using False ih by simp
  qed
qed simp

lemma uva2ka_frame:
  assumes "aspace (mem s) pgdir" "frame_of (mem s) pgdir va = Some f"
  shows "uva2ka pgdir va s = Ret f s"
proof -
  obtain t where t: "table_of (mem s) pgdir va = Some t"
    using assms(2) by (auto simp: frame_of_def split: option.splits)
  let ?pte = "t + 4 * PTX va"
  have "unat (4 * PTX va) < 4096"
    using entry_index(2) [of va] by simp
  then have "unat ?pte = unat t + unat (4 * PTX va)"
    by (rule page_base(2) [OF table_aligned [OF t]])
  moreover have "t \<noteq> 0"
    using assms(1) t by (auto simp: aspace_def)
  ultimately have "?pte \<noteq> 0"
    by (auto simp: word_unat_eq_iff)
  moreover have "walkpgdir pgdir va False s = Ret ?pte s"
    using t by (auto simp: walkpgdir_def table_of_def Let_def kbind_def rd32_def kget_def kret_def split: if_splits)
  ultimately show ?thesis
    using assms(2) t by (auto simp: uva2ka_def frame_of_def Let_def kbind_def rd32_def kget_def kret_def split: if_splits)
qed

text \<open>The kernel address of a user address.\<close>

lemma translate_off:
  assumes "frame_of m pgdir va = Some f" "PGROUNDDOWN w = PGROUNDDOWN va"
  shows "translate m pgdir w = Some (f + (w - PGROUNDDOWN va))"
proof -
  have "frame_of m pgdir w = Some f"
    using assms frame_page [of m pgdir w] frame_page [of m pgdir va] by simp
  then show ?thesis
    using assms(2) by (simp add: translate_frame low_bits(1))
qed

lemma translate_cong:
  "aspace m pgdir \<Longrightarrow> user_change pgdir m m' \<Longrightarrow> translate m' pgdir = translate m pgdir"
  by (intro ext) (simp add: translate_frame frame_cong)

lemma translate_inj:
  assumes "aspace m pgdir" "translate m pgdir v = Some x" "translate m pgdir w = Some x"
  shows "v = w"
proof -
  obtain f g where f: "frame_of m pgdir v = Some f" "x = f + (v AND 0xFFF)"
    and g: "frame_of m pgdir w = Some g" "x = g + (w AND 0xFFF)"
    using assms by (auto simp: translate_frame)
  have "PGROUNDDOWN x = f"
    unfolding f(2) by (rule page_base(1) [OF frame_aligned [OF f(1)] low_bits(2)])
  moreover have "PGROUNDDOWN x = g"
    unfolding g(2) by (rule page_base(1) [OF frame_aligned [OF g(1)] low_bits(2)])
  ultimately have fg: "f = g" by simp
  then have "PGROUNDDOWN v = PGROUNDDOWN w"
    using assms(1) f(1) g(1) unfolding aspace_def by blast
  moreover have "v AND 0xFFF = w AND 0xFFF"
    using f(2) g(2) fg by simp
  ultimately show ?thesis
    by (simp add: low_bits(1))
qed

text \<open>The memory after the bytes \<open>buf\<close> have been stored at user address \<open>va\<close>.\<close>

definition stored :: "u32 \<Rightarrow> memory \<Rightarrow> u32 \<Rightarrow> bytes \<Rightarrow> memory \<Rightarrow> bool" where
  "stored pgdir m va buf m' \<longleftrightarrow>
     (\<forall>k < length buf. \<exists>x. translate m pgdir (va + of_nat k) = Some x \<and> m' x = buf ! k) \<and>
     (\<forall>x. (\<forall>k < length buf. translate m pgdir (va + of_nat k) \<noteq> Some x) \<longrightarrow> m' x = m x)"

lemma stored_change: "stored pgdir m va buf m' \<Longrightarrow> user_change pgdir m m'"
  unfolding user_change_def
proof (intro allI impI)
  fix x assume st: "stored pgdir m va buf m'" and "m' x \<noteq> m x"
  then obtain k where "translate m pgdir (va + of_nat k) = Some x"
    by (auto simp: stored_def)
  then obtain f where f: "frame_of m pgdir (va + of_nat k) = Some f" "x = f + ((va + of_nat k) AND 0xFFF)"
    by (auto simp: translate_frame)
  then have "PGROUNDDOWN x = f"
    using page_base(1) [OF frame_aligned [OF f(1)] low_bits(2)] by simp
  then show "\<exists>v. frame_of m pgdir v = Some (PGROUNDDOWN x)"
    using f(1) by auto
qed

lemma of_nat_inj32: "(of_nat i :: u32) = of_nat j \<Longrightarrow> i < 2 ^ 32 \<Longrightarrow> j < 2 ^ 32 \<Longrightarrow> i = j"
  by (metis unat_of_nat_u32)

lemma stored_append:
  assumes a: "aspace m pgdir" and s1: "stored pgdir m va xs m1" and s2: "stored pgdir m1 (va + of_nat (length xs)) ys m2"
    and len: "length xs + length ys \<le> 2 ^ 32"
  shows "stored pgdir m va (xs @ ys) m2"
proof -
  have tr: "translate m1 pgdir = translate m pgdir"
    by (rule translate_cong [OF a stored_change [OF s1]])
  have addr: "va + of_nat (length xs) + of_nat k = va + of_nat (length xs + k)" for k
    by simp
  have first: "\<exists>x. translate m pgdir (va + of_nat k) = Some x \<and> m2 x = xs ! k" if k: "k < length xs" for k
  proof -
    obtain x where x: "translate m pgdir (va + of_nat k) = Some x" "m1 x = xs ! k"
      using s1 k by (auto simp: stored_def)
    have "translate m pgdir (va + of_nat (length xs + j)) \<noteq> Some x" if "j < length ys" for j
    proof
      assume eq: "translate m pgdir (va + of_nat (length xs + j)) = Some x"
      have "(of_nat k :: u32) = of_nat (length xs + j)"
        using translate_inj [OF a x(1) eq] by simp
      then have "k = length xs + j"
        using k that len by (intro of_nat_inj32) linarith+
      then show False
        using k by simp
    qed
    then have "m2 x = m1 x"
      using s2 unfolding stored_def tr addr by blast
    then show ?thesis
      using x by auto
  qed
  have second: "\<exists>x. translate m pgdir (va + of_nat (length xs + k)) = Some x \<and> m2 x = ys ! k" if "k < length ys" for k
    using s2 that by (auto simp: stored_def tr addr)
  have rest: "m2 x = m x" if no: "\<forall>k < length (xs @ ys). translate m pgdir (va + of_nat k) \<noteq> Some x" for x
  proof -
    have "translate m pgdir (va + of_nat (length xs) + of_nat k) \<noteq> Some x" if "k < length ys" for k
      using no [rule_format, of "length xs + k"] that unfolding addr by simp
    then have "m2 x = m1 x"
      using s2 unfolding stored_def tr by blast
    also have "m1 x = m x"
      using s1 no by (auto simp: stored_def)
    finally show ?thesis .
  qed
  show ?thesis
    unfolding stored_def
  proof (intro conjI allI impI)
    fix k assume k: "k < length (xs @ ys)"
    show "\<exists>x. translate m pgdir (va + of_nat k) = Some x \<and> m2 x = (xs @ ys) ! k"
      using first [of k] second [of "k - length xs"] k by (cases "k < length xs") (auto simp: nth_append)
  qed (rule rest)
qed

text \<open>What one round of the loop stores.\<close>

lemma copyout_n_bounds:
  assumes "0 < len"
  shows "0 < copyout_n va len" "copyout_n va len \<le> len" "unat (va - PGROUNDDOWN va) + copyout_n va len \<le> 4096"
    "copyout_n va len < len \<Longrightarrow> va + of_nat (copyout_n va len) = PGROUNDDOWN va + PGSIZE"
proof -
  let ?o = "va - PGROUNDDOWN va"
  have o: "unat ?o < 4096"
    using low_bits [of va] by simp
  then have "unat (PGSIZE - ?o) = 4096 - unat ?o"
    by (simp add: PGSIZE_def unat_sub word_le_nat_alt)
  then have n: "copyout_n va len = min (4096 - unat ?o) len"
    by (simp add: copyout_n_def)
  then show "0 < copyout_n va len" "copyout_n va len \<le> len" "unat ?o + copyout_n va len \<le> 4096"
    using o assms by simp_all
  assume "copyout_n va len < len"
  then have "copyout_n va len = 4096 - unat ?o"
    using n by simp
  then have "of_nat (copyout_n va len) = PGSIZE - ?o"
    using o by (simp add: of_nat_diff PGSIZE_def)
  then show "va + of_nat (copyout_n va len) = PGROUNDDOWN va + PGSIZE"
    by simp
qed

lemma stored_round:
  assumes f: "frame_of m pgdir va = Some f" and n: "unat (va - PGROUNDDOWN va) + length bs \<le> 4096"
  shows "stored pgdir m va bs (store_bytes m (f + (va - PGROUNDDOWN va)) bs)"
proof -
  let ?o = "va - PGROUNDDOWN va" and ?m = "store_bytes m (f + (va - PGROUNDDOWN va)) bs"
  have at: "translate m pgdir (va + of_nat k) = Some (f + ?o + of_nat k)" if k: "k < length bs" for k
  proof -
    have "unat (?o + of_nat k) = unat ?o + k"
      using n k by (simp add: unat_word_ariths)
    then have "PGROUNDDOWN (PGROUNDDOWN va + (?o + of_nat k)) = PGROUNDDOWN va"
      using n k by (intro page_base(1)) simp_all
    then have "PGROUNDDOWN (va + of_nat k) = PGROUNDDOWN va"
      by simp
    then show ?thesis
      using translate_off [OF f] by (simp add: algebra_simps)
  qed
  have len: "length bs \<le> 2 ^ 32"
    using n by simp
  show ?thesis
    unfolding stored_def
  proof (intro conjI allI impI)
    fix k assume k: "k < length bs"
    have "?m (f + ?o + of_nat k) = bs ! k"
      using k n by (simp add: store_bytes_at [OF len])
    then show "\<exists>x. translate m pgdir (va + of_nat k) = Some x \<and> ?m x = bs ! k"
      using at [OF k] by auto
  next
    fix x assume x: "\<forall>k < length bs. translate m pgdir (va + of_nat k) \<noteq> Some x"
    have "\<not> unat (x - (f + ?o)) < length bs"
    proof
      assume l: "unat (x - (f + ?o)) < length bs"
      have "f + ?o + of_nat (unat (x - (f + ?o))) = x"
        by simp
      then show False
        using at [OF l] x l by auto
    qed
    then show "?m x = m x"
      by (simp add: store_bytes_at [OF len])
  qed
qed

lemma copyout_loop_ok:
  fixes s :: "'a kmem_st_scheme"
  assumes "aspace (mem s) pgdir" "\<And>k. k < length buf \<Longrightarrow> translate (mem s) pgdir (va + of_nat k) \<noteq> None"
    and "length buf \<le> fuel" "length buf \<le> 2 ^ 32"
  shows "\<exists>m. copyout_loop fuel pgdir va buf s = Ret 0 (s\<lparr>mem := m\<rparr>) \<and> stored pgdir (mem s) va buf m"
  using assms
proof (induction fuel arbitrary: s va buf)
  case 0
  then show ?case
    by (intro exI [of _ "mem s"]) (simp add: kret_def stored_def)
next
  case (Suc fuel)
  show ?case
  proof (cases "buf = []")
    case True
    then show ?thesis
      by (intro exI [of _ "mem s"]) (simp add: kret_def stored_def)
  next
    case False
    let ?n = "copyout_n va (length buf)" and ?va = "PGROUNDDOWN va"
    have b: "0 < ?n" "?n \<le> length buf" "unat (va - ?va) + ?n \<le> 4096"
      "?n < length buf \<Longrightarrow> va + of_nat ?n = ?va + PGSIZE"
      using copyout_n_bounds [of "length buf" va] False by simp_all
    obtain f where f: "frame_of (mem s) pgdir va = Some f"
      using Suc.prems(2) [of 0] False by (auto simp: translate_frame)
    let ?m1 = "store_bytes (mem s) (f + (va - ?va)) (take ?n buf)"
    let ?s1 = "s\<lparr>mem := ?m1\<rparr>"
    have st: "stored pgdir (mem s) va (take ?n buf) ?m1"
      using stored_round [OF f, of "take ?n buf"] b by simp
    have ch: "user_change pgdir (mem s) ?m1"
      by (rule stored_change [OF st])
    have "f \<noteq> 0"
      using f Suc.prems(1) unfolding aspace_def by blast
    moreover have "frame_of (mem s) pgdir ?va = Some f"
      using f by (simp add: frame_page)
    ultimately have step: "copyout_loop (Suc fuel) pgdir va buf s = copyout_loop fuel pgdir (?va + PGSIZE) (drop ?n buf) ?s1"
      using False uva2ka_frame [OF Suc.prems(1), of ?va f] by (simp add: kbind_def kmod_def Let_def)
    have rest: "translate (mem ?s1) pgdir (?va + PGSIZE + of_nat k) \<noteq> None" if k: "k < length (drop ?n buf)" for k
    proof -
      have "?va + PGSIZE + of_nat k = va + of_nat (?n + k)"
        using b(4) k by simp
      then show ?thesis
        using Suc.prems(2) [of "?n + k"] k translate_cong [OF Suc.prems(1) ch] by (simp add: add.assoc)
    qed
    have len: "length (drop ?n buf) \<le> fuel" "length (drop ?n buf) \<le> 2 ^ 32"
      using b(1) Suc.prems(3,4) by simp_all
    obtain m where m: "copyout_loop fuel pgdir (?va + PGSIZE) (drop ?n buf) ?s1 = Ret 0 (?s1\<lparr>mem := m\<rparr>)"
      "stored pgdir (mem ?s1) (?va + PGSIZE) (drop ?n buf) m"
      using Suc.IH [of ?s1 "drop ?n buf" "?va + PGSIZE", OF _ rest len] aspace_cong [OF Suc.prems(1) ch] by auto
    have "stored pgdir (mem s) va (take ?n buf @ drop ?n buf) m"
    proof (cases "?n < length buf")
      case True
      then show ?thesis
        using stored_append [OF Suc.prems(1) st, of "drop ?n buf" m] m(2) b Suc.prems(4) by simp
    next
      case False
      then show ?thesis
        using st m(2) b(2) by (auto simp: stored_def)
    qed
    then show ?thesis
      using step m(1) by auto
  qed
qed

text \<open>C11: \<^verbatim>\<open>copyout\<close> writes exactly what it is asked to: in a well-formed address space in which user code can
  reach every byte of the range, it returns 0, afterwards each user address of the range holds its
  byte, even when the range crosses into pages that are not adjacent in physical memory, and no
  other byte of memory, in particular no page table, has changed.\<close>

theorem copyout_correct:
  fixes s :: "'a kmem_st_scheme"
  assumes "aspace (mem s) pgdir" "\<And>k. k < length buf \<Longrightarrow> translate (mem s) pgdir (va + of_nat k) \<noteq> None"
    and "length buf \<le> 2 ^ 32"
  shows "\<exists>m. copyout pgdir va buf s = Ret 0 (s\<lparr>mem := m\<rparr>) \<and> translate m pgdir = translate (mem s) pgdir \<and>
    (\<forall>k < length buf. \<exists>x. translate m pgdir (va + of_nat k) = Some x \<and> m x = buf ! k) \<and>
    (\<forall>x. (\<forall>k < length buf. translate m pgdir (va + of_nat k) \<noteq> Some x) \<longrightarrow> m x = mem s x)"
proof -
  obtain m where m: "copyout pgdir va buf s = Ret 0 (s\<lparr>mem := m\<rparr>)" "stored pgdir (mem s) va buf m"
    using copyout_loop_ok [OF assms(1,2) order_refl assms(3)] by (auto simp: copyout_def)
  have "translate m pgdir = translate (mem s) pgdir"
    by (rule translate_cong [OF assms(1) stored_change [OF m(2)]])
  then show ?thesis
    using m by (intro exI [of _ m]) (simp add: stored_def)
qed

text \<open>An address space of two pages whose frames are not adjacent.\<close>

definition user_mem :: memory where
  "user_mem = (\<lambda>_. 0)(0x80400000 := 7, 0x80400001 := 0x10, 0x80400002 := 0x40,
     0x80401000 := 7, 0x80401001 := 0x20, 0x80401002 := 0x40, 0x80401004 := 7, 0x80401005 := 0x50, 0x80401006 := 0x40)"

lemma user_mem_zero:
  "0x80400004 \<le> unat x \<Longrightarrow> unat x < 0x80401000 \<Longrightarrow> user_mem x = 0"
  "0x80401008 \<le> unat x \<Longrightarrow> unat x < 0x80402000 \<Longrightarrow> user_mem x = 0"
  by (auto simp: user_mem_def fun_upd_def)

lemma load_zero: "(\<And>k. unat k < 4 \<Longrightarrow> m (a + k) = 0) \<Longrightarrow> load32 m a = 0"
proof -
  assume z: "\<And>k. unat k < 4 \<Longrightarrow> m (a + k) = 0"
  from z [of 0] z [of 1] z [of 2] z [of 3] show ?thesis
    by (simp add: load32_def)
qed

lemma unat_index: "unat (4 * PDX va) = 4 * unat (PDX va)" "unat (4 * PTX va) = 4 * unat (PTX va)"
  "unat (PDX va) < 1024" "unat (PTX va) < 1024"
proof -
  have "unat (x AND 0x3FF) \<le> 0x3FF" for x :: u32
    using word_and_le1 [of x "0x3FF"] by (simp add: word_le_nat_alt)
  then have "unat (PDX va) \<le> 0x3FF" "unat (PTX va) \<le> 0x3FF"
    by (simp_all add: PDX_def PTX_def)
  then show "unat (4 * PDX va) = 4 * unat (PDX va)" "unat (4 * PTX va) = 4 * unat (PTX va)"
    "unat (PDX va) < 1024" "unat (PTX va) < 1024"
    by (simp_all add: unat_word_ariths)
qed

lemma unat_index_pos: "x \<noteq> 0 \<Longrightarrow> 1 \<le> unat x" "x \<noteq> 0 \<Longrightarrow> x \<noteq> 1 \<Longrightarrow> 2 \<le> unat x" for x :: u32
  by (simp_all add: Suc_le_eq unat_gt_0) (metis One_nat_def Suc_1 Suc_leI le_neq_implies_less unat_1 unat_eq_zero unat_gt_0 word_unat_eq_iff)

lemma user_mem_dir: "load32 user_mem (0x80400000 + 4 * PDX va) = (if PDX va = 0 then 0x401007 else 0)"
proof (cases "PDX va = 0")
  case True
  have "load32 user_mem 0x80400000 = 0x401007"
    by code_simp
  then show ?thesis
    using True by simp
next
  case False
  have "load32 user_mem (0x80400000 + 4 * PDX va) = 0"
  proof (rule load_zero, rule user_mem_zero(1))
    fix k :: u32
    assume "unat k < 4"
    then have "unat (0x80400000 + 4 * PDX va + k) = 0x80400000 + 4 * unat (PDX va) + unat k"
      using unat_index [of va] by (simp add: unat_word_ariths)
    then show "0x80400004 \<le> unat (0x80400000 + 4 * PDX va + k)" "unat (0x80400000 + 4 * PDX va + k) < 0x80401000"
      using unat_index_pos(1) [OF False] unat_index(3) [of va] \<open>unat k < 4\<close> by linarith+
  qed
  then show ?thesis
    using False by simp
qed

lemma user_mem_table:
  "load32 user_mem (0x80401000 + 4 * PTX va) = (if PTX va = 0 then 0x402007 else if PTX va = 1 then 0x405007 else 0)"
proof (cases "PTX va = 0 \<or> PTX va = 1")
  case True
  have "load32 user_mem 0x80401000 = 0x402007" "load32 user_mem 0x80401004 = 0x405007"
    by code_simp+
  then show ?thesis
    using True by auto
next
  case False
  have "load32 user_mem (0x80401000 + 4 * PTX va) = 0"
  proof (rule load_zero, rule user_mem_zero(2))
    fix k :: u32
    assume "unat k < 4"
    then have "unat (0x80401000 + 4 * PTX va + k) = 0x80401000 + 4 * unat (PTX va) + unat k"
      using unat_index [of va] by (simp add: unat_word_ariths)
    then show "0x80401008 \<le> unat (0x80401000 + 4 * PTX va + k)" "unat (0x80401000 + 4 * PTX va + k) < 0x80402000"
      using unat_index_pos(2) [of "PTX va"] False unat_index(4) [of va] \<open>unat k < 4\<close> by linarith+
  qed
  then show ?thesis
    using False by simp
qed

lemma table_user_mem: "table_of user_mem 0x80400000 va = (if PDX va = 0 then Some 0x80401000 else None)"
  unfolding table_of_def user_mem_dir
  by (simp add: Let_def P2V_def KERNBASE_def PTE_ADDR_def PTE_P_def)

lemma frame_user_mem:
  "frame_of user_mem 0x80400000 va =
     (if PDX va = 0 \<and> PTX va = 0 then Some 0x80402000
      else if PDX va = 0 \<and> PTX va = 1 then Some 0x80405000 else None)"
  unfolding frame_of_def table_user_mem option.case if_distrib [of "case_option _ _"] user_mem_table
  by (simp add: Let_def P2V_def KERNBASE_def PTE_ADDR_def PTE_P_def PTE_U_def)

lemma page_of_index:
  assumes "PDX v = PDX w" "PTX v = PTX w"
  shows "PGROUNDDOWN v = PGROUNDDOWN w"
proof (rule bit_word_eqI)
  fix k :: nat
  assume k: "k < LENGTH(32)"
  have n: "bit (PGSIZE - 1) k \<longleftrightarrow> k < 12"
    using k bit_mask_iff [of 12 k, where ?'a = u32] by (simp add: PGSIZE_def mask_eq_exp_minus_1)
  have m: "bit (0x3FF :: u32) j \<longleftrightarrow> j < 10" if "j < 32" for j
    using that bit_mask_iff [of 10 j, where ?'a = u32] by (simp add: mask_eq_exp_minus_1)
  have d: "bit (PDX x) (k - 22) = bit x k" if "22 \<le> k" for x
    using that k m [of "k - 22"] by (auto simp: PDX_def bit_and_iff bit_drop_bit_eq)
  have t: "bit (PTX x) (k - 12) = bit x k" if "12 \<le> k" "k < 22" for x
    using that k m [of "k - 12"] by (auto simp: PTX_def bit_and_iff bit_drop_bit_eq)
  have "bit v k = bit w k" if "12 \<le> k"
    using that d [of v] d [of w] t [of v] t [of w] assms by (cases "k < 22") simp_all
  then show "bit (PGROUNDDOWN v) k = bit (PGROUNDDOWN w) k"
    using n k by (auto simp: PGROUNDDOWN_def bit_and_iff bit_not_iff)
qed

lemma user_mem_aspace: "aspace user_mem 0x80400000"
  unfolding aspace_def table_user_mem frame_user_mem
  by (auto simp: PGSIZE_def intro: page_of_index split: if_splits)

definition user_state :: kmem_st where
  "user_state = \<lparr>mem = user_mem, kern_end = 0, kern_data = 0, use_lock = False, freelist = 0\<rparr>"

theorem copyout_correct_witness:
  "\<exists>m. copyout 0x80400000 0xFFE [1, 2, 3, 4] user_state = Ret 0 (user_state\<lparr>mem := m\<rparr>) \<and>
     map m [0x80402FFE, 0x80402FFF, 0x80405000, 0x80405001] = [1, 2, 3, 4]"
proof -
  have t: "map (\<lambda>k. translate user_mem 0x80400000 (0xFFE + of_nat k)) [0, 1, 2, 3] =
      [Some 0x80402FFE, Some 0x80402FFF, Some 0x80405000, Some 0x80405001]"
    by code_simp
  have "translate (mem user_state) 0x80400000 (0xFFE + of_nat k) \<noteq> None" if "k < length [1, 2, 3, 4 :: u8]" for k
  proof -
    have "k = 0 \<or> k = 1 \<or> k = 2 \<or> k = 3"
      using that by auto
    then show ?thesis
      using t by (auto simp: user_state_def)
  qed
  from copyout_correct [of user_state "0x80400000" "[1, 2, 3, 4]" "0xFFE", OF _ this]
  obtain m where m: "copyout 0x80400000 0xFFE [1, 2, 3, 4] user_state = Ret 0 (user_state\<lparr>mem := m\<rparr>)"
    "translate m 0x80400000 = translate user_mem 0x80400000"
    "\<forall>k < 4. \<exists>x. translate m 0x80400000 (0xFFE + of_nat k) = Some x \<and> m x = [1, 2, 3, 4] ! k"
    using user_mem_aspace by (auto simp: user_state_def)
  then show ?thesis
    using t spec [OF m(3), of 0] spec [OF m(3), of 1] spec [OF m(3), of 2] spec [OF m(3), of 3]
    by (intro exI [of _ m]) auto
qed

end
