(* ===== verification/User_Lib.thy ===== *)
theory User_Lib
  imports Console
begin

text \<open>
  The user library, \<^verbatim>\<open>ulib.c\<close> and \<^verbatim>\<open>printf.c\<close>.

  A user program sees the kernel only through its system calls.  Its model is a function of the
  results that the kernel gives to these calls: \<open>u_rets\<close> holds the results still to come, \<open>u_trace\<close>
  the calls made so far with their results.  A result is the return value with the bytes that the
  call stores into the caller's memory.  A program that makes a call with no result left stops
  there, which is the outcome \<open>Swtch\<close>; so does a program that calls \<^verbatim>\<open>exit\<close>.  A program is thereby described for every
  behaviour of the kernel.  The string functions of \<^verbatim>\<open>ulib.c\<close> work on memory; the lemmas of this
  theory relate them to byte lists, which is how the programs' models hold their strings (without
  the NUL at the end).
\<close>

section \<open>System calls\<close>

datatype ucall =
    U_fork | U_exit | U_wait | U_pipe | U_read int nat | U_write int bytes | U_close int | U_kill int
  | U_exec bytes "bytes list" | U_open bytes int | U_mknod bytes int int | U_unlink bytes | U_fstat int
  | U_link bytes bytes | U_mkdir bytes | U_chdir bytes | U_dup int | U_getpid | U_sbrk int | U_sleep int
  | U_uptime | U_info int | U_tickets int | U_clone u32 int

type_synonym ures = "int \<times> bytes"

record ustate =
  u_rets :: "ures list"
  u_trace :: "(ucall \<times> ures option) list"

definition usys :: "ucall \<Rightarrow> ('a ustate_scheme, ures) kop" where
  "usys c s =
     (case u_rets s of
        [] \<Rightarrow> Swtch (s\<lparr>u_trace := u_trace s @ [(c, None)]\<rparr>)
      | r # rs \<Rightarrow> Ret r (s\<lparr>u_rets := rs, u_trace := u_trace s @ [(c, Some r)]\<rparr>))"

definition usys_int :: "ucall \<Rightarrow> ('a ustate_scheme, int) kop" where
  "usys_int c = kbind (usys c) (\<lambda>r. kret (fst r))"

definition u_do :: "ucall \<Rightarrow> ('a ustate_scheme, unit) kop" where
  "u_do c = kbind (usys c) (\<lambda>_. kskip)"

definition u_exit :: "('a ustate_scheme, 'b) kop" where
  "u_exit s = Swtch (s\<lparr>u_trace := u_trace s @ [(U_exit, None)]\<rparr>)"

text \<open>\<^verbatim>\<open>read\<close>: the return value and the bytes it delivers.\<close>

definition u_read :: "int \<Rightarrow> nat \<Rightarrow> ('a ustate_scheme, int \<times> bytes) kop" where
  "u_read fd n = kbind (usys (U_read fd n)) (\<lambda>r. kret (fst r, take (nat (fst r)) (snd r)))"

text \<open>What a program has written to a file descriptor, and what successive reads of one have delivered.\<close>

definition written :: "int \<Rightarrow> (ucall \<times> ures option) list \<Rightarrow> bytes" where
  "written fd tr = concat (map (\<lambda>(c, r). case c of U_write f bs \<Rightarrow> if f = fd then bs else [] | _ \<Rightarrow> []) tr)"

definition delivered :: "int \<Rightarrow> (ucall \<times> ures option) list \<Rightarrow> bytes list" where
  "delivered fd tr = concat (map (\<lambda>(c, r). case (c, r) of
     (U_read f n, Some (k, d)) \<Rightarrow> if f = fd \<and> k > 0 then [take (nat k) d] else [] | _ \<Rightarrow> []) tr)"

section \<open>Strings\<close>

text \<open>Loops that look for a NUL run on when there is none, the outcome \<open>None\<close>.\<close>

partial_function (option) strcpy :: "memory \<Rightarrow> u32 \<Rightarrow> u32 \<Rightarrow> memory option" where
  "strcpy m s t = (if m t = 0 then Some (m(s := m t)) else strcpy (m(s := m t)) (s + 1) (t + 1))"

partial_function (option) strcmp :: "memory \<Rightarrow> u32 \<Rightarrow> u32 \<Rightarrow> int option" where
  "strcmp m p q = (if m p \<noteq> 0 \<and> m p = m q then strcmp m (p + 1) (q + 1) else Some (uint (m p) - uint (m q)))"

definition u_strlen :: "memory \<Rightarrow> u32 \<Rightarrow> nat option" where
  "u_strlen m s = strlen_from m s 0"

definition u_memset :: "memory \<Rightarrow> u32 \<Rightarrow> u8 \<Rightarrow> u32 \<Rightarrow> memory" where
  "u_memset m dst c n = stosb (unat n) m dst c"

partial_function (option) strchr :: "memory \<Rightarrow> u32 \<Rightarrow> u8 \<Rightarrow> u32 option" where
  "strchr m s c = (if m s = 0 then Some 0 else if m s = c then Some s else strchr m (s + 1) c)"

definition is_digit :: "u8 \<Rightarrow> bool" where
  "is_digit c \<longleftrightarrow> 48 \<le> c \<and> c \<le> 57"

partial_function (option) atoi_from :: "memory \<Rightarrow> u32 \<Rightarrow> int \<Rightarrow> int option" where
  "atoi_from m s n = (if is_digit (m s) then atoi_from m (s + 1) (s32 (n * 10 + uint (m s) - 48)) else Some n)"

definition atoi :: "memory \<Rightarrow> u32 \<Rightarrow> int option" where
  "atoi m s = atoi_from m s 0"

text \<open>The same on a byte list.\<close>

definition atoi_l :: "bytes \<Rightarrow> int" where
  "atoi_l bs = foldl (\<lambda>n c. s32 (n * 10 + uint c - 48)) 0 (takeWhile is_digit bs)"

definition u_memmove :: "memory \<Rightarrow> u32 \<Rightarrow> u32 \<Rightarrow> int \<Rightarrow> memory" where
  "u_memmove m vdst vsrc n = copy_fwd (nat n) m vdst vsrc"

text \<open>\<^verbatim>\<open>gets\<close>; \<open>n\<close> is the number of iterations that \<^verbatim>\<open>i + 1 < max\<close> still allows.\<close>

primrec gets_loop :: "nat \<Rightarrow> ('a ustate_scheme, bytes) kop" where
  "gets_loop 0 = kret []"
| "gets_loop (Suc n) =
     kbind (u_read 0 1) (\<lambda>(cc, d).
     if cc < 1 then kret []
     else if d ! 0 = 10 \<or> d ! 0 = 13 then kret [d ! 0]
     else kbind (gets_loop n) (\<lambda>rest. kret (d ! 0 # rest)))"

definition gets :: "int \<Rightarrow> ('a ustate_scheme, bytes) kop" where
  "gets mx = gets_loop (nat (mx - 1))"

definition O_RDONLY_u :: int where "O_RDONLY_u = 0"

text \<open>\<^verbatim>\<open>stat\<close>: the return value and the 20 bytes of the structure.\<close>

definition u_stat :: "bytes \<Rightarrow> ('a ustate_scheme, int \<times> bytes) kop" where
  "u_stat n =
     kbind (usys_int (U_open n O_RDONLY_u)) (\<lambda>fd.
     if fd < 0 then kret (- 1, [])
     else
       kbind (usys (U_fstat fd)) (\<lambda>r.
       kbind (u_do (U_close fd)) (\<lambda>_.
       kret r)))"

section \<open>Formatted output\<close>

definition u_putc :: "int \<Rightarrow> u8 \<Rightarrow> ('a ustate_scheme, unit) kop" where
  "u_putc fd c = u_do (U_write fd [c])"

definition u_digit :: "nat \<Rightarrow> u8" where
  "u_digit d = (if d < 10 then of_nat (48 + d) else of_nat (55 + d))"

definition u_int_chars :: "int \<Rightarrow> nat \<Rightarrow> bool \<Rightarrow> bytes" where
  "u_int_chars xx base sg =
     (let neg = (sg \<and> xx < 0);
          x = nat ((if neg then - xx else xx) mod 2 ^ 32);
          buf = map u_digit (pdigits base x)
      in rev (if neg then buf @ [45] else buf))"

definition u_printint :: "int \<Rightarrow> int \<Rightarrow> nat \<Rightarrow> bool \<Rightarrow> ('a ustate_scheme, unit) kop" where
  "u_printint fd xx base sg = kfor (u_int_chars xx base sg) (u_putc fd)"

text \<open>An argument of the wrong kind, or a missing one, is outside the meaning of C.\<close>

primrec u_printf_loop :: "int \<Rightarrow> bytes \<Rightarrow> bool \<Rightarrow> carg list \<Rightarrow> ('a ustate_scheme, unit) kop" where
  "u_printf_loop fd [] pct as = kskip"
| "u_printf_loop fd (c # fmt) pct as =
     (if \<not> pct then
        (if c = 37 then u_printf_loop fd fmt True as
         else kseq (u_putc fd c) (u_printf_loop fd fmt False as))
      else if c = 100 then
        (case as of CInt v # as' \<Rightarrow> kseq (u_printint fd v 10 True) (u_printf_loop fd fmt False as') | _ \<Rightarrow> kfault)
      else if c = 120 \<or> c = 112 then
        (case as of CInt v # as' \<Rightarrow> kseq (u_printint fd v 16 False) (u_printf_loop fd fmt False as') | _ \<Rightarrow> kfault)
      else if c = 115 then
        (case as of CStr s # as' \<Rightarrow>
           kseq (kfor (case s of None \<Rightarrow> null_str | Some t \<Rightarrow> t) (u_putc fd)) (u_printf_loop fd fmt False as')
         | _ \<Rightarrow> kfault)
      else if c = 99 then
        (case as of CInt v # as' \<Rightarrow> kseq (u_putc fd (of_int v)) (u_printf_loop fd fmt False as') | _ \<Rightarrow> kfault)
      else if c = 37 then kseq (u_putc fd c) (u_printf_loop fd fmt False as)
      else kseq (u_putc fd 37) (kseq (u_putc fd c) (u_printf_loop fd fmt False as)))"

definition u_printf :: "int \<Rightarrow> bytes \<Rightarrow> carg list \<Rightarrow> ('a ustate_scheme, unit) kop" where
  "u_printf fd fmt as = u_printf_loop fd fmt False as"

section \<open>Programs and the results of their calls\<close>

text \<open>
  \<open>ush m Q s\<close>: whatever results remain in \<open>s\<close>, the program \<open>m\<close> ends or stops at a system call, and \<open>Q\<close> holds
  of its value (\<open>None\<close> if it stopped) and the state it is in.
\<close>

definition ush :: "('s, 'a) kop \<Rightarrow> ('a option \<Rightarrow> 's \<Rightarrow> bool) \<Rightarrow> 's \<Rightarrow> bool" where
  "ush m Q s = (case m s of Ret a t \<Rightarrow> Q (Some a) t | Swtch t \<Rightarrow> Q None t | _ \<Rightarrow> False)"

lemma ush_simps [simp]:
  "ush (kbind m f) Q s = ush m (\<lambda>r t. case r of None \<Rightarrow> Q None t | Some a \<Rightarrow> ush (f a) Q t) s"
  "ush (kret a) R s = R (Some a) s"
  "ush kskip V s = V (Some ()) s"
  "ush (kwhen b m') V s = (if b then ush m' V s else V (Some ()) s)"
  "ush u_exit P u = P None (u\<lparr>u_trace := u_trace u @ [(U_exit, None)]\<rparr>)"
  by (auto simp: ush_def kbind_def kret_def kskip_def kwhen_def u_exit_def split: out.splits)

lemma ush_usys [simp]:
  "ush (usys c) Q s = (case u_rets s of
     [] \<Rightarrow> Q None (s\<lparr>u_trace := u_trace s @ [(c, None)]\<rparr>)
   | r # rs \<Rightarrow> Q (Some r) (s\<lparr>u_rets := rs, u_trace := u_trace s @ [(c, Some r)]\<rparr>))"
  by (simp add: ush_def usys_def split: list.split)

lemma ush_mono: "ush m Q s \<Longrightarrow> (\<And>r t. Q r t \<Longrightarrow> R r t) \<Longrightarrow> ush m R s"
  by (cases "m s") (auto simp: ush_def)

section \<open>Strings in memory\<close>

text \<open>Memory holds the C string \<open>bs\<close> at address \<open>a\<close>.\<close>

primrec cstr :: "memory \<Rightarrow> u32 \<Rightarrow> bytes \<Rightarrow> bool" where
  "cstr m a [] \<longleftrightarrow> m a = 0"
| "cstr m a (b # bs) \<longleftrightarrow> m a = b \<and> b \<noteq> 0 \<and> cstr m (a + 1) bs"

lemma cstr_cong: "cstr m a bs \<Longrightarrow> (\<And>i. i \<le> length bs \<Longrightarrow> m' (a + of_nat i) = m (a + of_nat i)) \<Longrightarrow> cstr m' a bs"
proof (induction bs arbitrary: a)
  case Nil
  from Nil.prems(2) [of 0] Nil.prems(1) show ?case by simp
next
  case (Cons b bs)
  have "cstr m' (a + 1) bs"
  proof (rule Cons.IH)
    fix i assume "i \<le> length bs"
    then show "m' (a + 1 + of_nat i) = m (a + 1 + of_nat i)"
      using Cons.prems(2) [of "Suc i"] by (simp add: add.assoc)
  qed (use Cons.prems in simp)
  then show ?case
    using Cons.prems(1) Cons.prems(2) [of 0] by simp
qed

lemma strlen_from_cstr: "cstr m (s + of_nat n) bs \<Longrightarrow> strlen_from m s n = Some (n + length bs)"
proof (induction bs arbitrary: n)
  case Nil
  then show ?case by (subst strlen_from.simps) simp
next
  case (Cons b bs)
  then show ?case
    using Cons.IH [of "Suc n"] by (subst strlen_from.simps) (simp add: algebra_simps)
qed

lemma u_strlen_cstr: "cstr m s bs \<Longrightarrow> u_strlen m s = Some (length bs)"
  using strlen_from_cstr [of m s 0 bs] by (simp add: u_strlen_def)

lemma strchr_cstr:
  "cstr m s bs \<Longrightarrow> strchr m s c = Some (case find_index (\<lambda>b. b = c) bs of None \<Rightarrow> 0 | Some i \<Rightarrow> s + of_nat i)"
proof (induction bs arbitrary: s)
  case Nil
  then show ?case by (subst strchr.simps) simp
next
  case (Cons b bs)
  then show ?case
    using Cons.IH [of "s + 1"] by (subst strchr.simps) (auto simp: algebra_simps split: option.splits)
qed

lemma uint_pos: "x \<noteq> 0 \<Longrightarrow> 0 < uint x" for x :: u8
  using uint_ge_0 [of x] uint_0_iff [of x] by linarith

lemma strcmp_cstr:
  "cstr m p xs \<Longrightarrow> cstr m q ys \<Longrightarrow>
   \<exists>r. strcmp m p q = Some r \<and> (r = 0 \<longleftrightarrow> xs = ys) \<and> (r < 0 \<longleftrightarrow> (xs, ys) \<in> lexord {(a, b). a < b})"
proof (induction xs arbitrary: p q ys)
  case Nil
  then show ?case
    by (cases ys; subst strcmp.simps) (auto simp: uint_pos uint_0_iff)
next
  case (Cons x xs)
  show ?case
  proof (cases ys)
    case Nil
    then show ?thesis
      using Cons.prems by (subst strcmp.simps) (auto simp: uint_0_iff dest: leD)
  next
    case (Cons y zs)
    show ?thesis
    proof (cases "x = y")
      case True
      then show ?thesis
        using Cons.IH [of "p + 1" "q + 1" zs] Cons.prems Cons by (subst strcmp.simps) auto
    next
      case False
      then show ?thesis
        using Cons.prems Cons by (subst strcmp.simps) (auto simp: word_less_def word_uint_eq_iff)
    qed
  qed
qed

lemma atoi_from_cstr:
  "cstr m s bs \<Longrightarrow>
   atoi_from m s n = Some (foldl (\<lambda>n c. s32 (n * 10 + uint c - 48)) n (takeWhile is_digit bs))"
proof (induction bs arbitrary: s n)
  case Nil
  then show ?case by (subst atoi_from.simps) (simp add: is_digit_def)
next
  case (Cons b bs)
  then show ?case by (subst atoi_from.simps) auto
qed

lemma atoi_cstr: "cstr m s bs \<Longrightarrow> atoi m s = Some (atoi_l bs)"
  by (simp add: atoi_def atoi_l_def atoi_from_cstr)

lemma strcpy_cstr:
  "cstr m t bs \<Longrightarrow> (\<And>i j. i \<le> length bs \<Longrightarrow> j \<le> length bs \<Longrightarrow> s + of_nat i \<noteq> t + of_nat j) \<Longrightarrow> length bs < 2 ^ 32 \<Longrightarrow>
   \<exists>m'. strcpy m s t = Some m' \<and> cstr m' s bs \<and> (\<forall>x. (\<forall>i \<le> length bs. x \<noteq> s + of_nat i) \<longrightarrow> m' x = m x)"
proof (induction bs arbitrary: m s t)
  case Nil
  then show ?case
    by (subst strcpy.simps) (auto dest: spec [of _ 0])
next
  case (Cons b bs)
  have ne: "s + of_nat i \<noteq> t + of_nat j" if "i \<le> Suc (length bs)" "j \<le> Suc (length bs)" for i j
    using Cons.prems(2) that by simp
  define M where "M = m(s := b)"
  have "cstr M (t + 1) bs"
  proof (rule cstr_cong)
    fix i assume "i \<le> length bs"
    then have "s + of_nat 0 \<noteq> t + of_nat (Suc i)"
      by (intro ne) simp_all
    then show "M (t + 1 + of_nat i) = m (t + 1 + of_nat i)"
      by (simp add: M_def add.assoc)
  qed (use Cons.prems in simp)
  moreover have "s + 1 + of_nat i \<noteq> t + 1 + of_nat j" if "i \<le> length bs" "j \<le> length bs" for i j
    using ne [of "Suc i" "Suc j"] that by (simp add: add.assoc)
  ultimately obtain m' where m': "strcpy M (s + 1) (t + 1) = Some m'" "cstr m' (s + 1) bs"
      "\<And>x. (\<forall>i \<le> length bs. x \<noteq> s + 1 + of_nat i) \<Longrightarrow> m' x = M x"
    using Cons.IH [of M "t + 1" "s + 1"] Cons.prems(3) by auto
  have "s \<noteq> s + 1 + of_nat i" if "i \<le> length bs" for i
  proof
    assume "s = s + 1 + of_nat i"
    then have "(of_nat (Suc i) :: u32) = 0"
      by (simp add: add.assoc)
    then have "unat (of_nat (Suc i) :: u32) = 0"
      by simp
    then show False
      using that Cons.prems(3) by (simp add: unat_of_nat del: of_nat_Suc)
  qed
  then have "m' s = b"
    using m'(3) [of s] by (simp add: M_def)
  moreover have "m' x = m x" if "\<forall>i \<le> length (b # bs). x \<noteq> s + of_nat i" for x
  proof -
    have "x \<noteq> s + 1 + of_nat i" if "i \<le> length bs" for i
      using \<open>\<forall>i \<le> length (b # bs). x \<noteq> s + of_nat i\<close> [rule_format, of "Suc i"] that by (simp add: add.assoc)
    moreover have "x \<noteq> s"
      using that [rule_format, of 0] by simp
    ultimately show ?thesis
      using m'(3) [of x] by (simp add: M_def)
  qed
  moreover have "strcpy m s t = Some m'"
    using m'(1) Cons.prems(1) by (subst strcpy.simps) (simp add: M_def)
  ultimately show ?case
    using m'(2) Cons.prems(1) by (intro exI [of _ m']) simp
qed

section \<open>The output of \<^verbatim>\<open>printf\<close>\<close>

text \<open>
  The characters \<open>bs\<close> are written one by one: all of them when the program goes on, some of them when it
  stops on the way.
\<close>

definition puts :: "int \<Rightarrow> bytes \<Rightarrow> 'a ustate_scheme \<Rightarrow> unit option \<Rightarrow> 'a ustate_scheme \<Rightarrow> bool" where
  "puts fd bs s r t \<longleftrightarrow> length (u_rets t) \<le> length (u_rets s) \<and>
     (\<exists>ext k. u_trace t = u_trace s @ ext \<and> map fst ext = map (\<lambda>c. U_write fd [c]) (take k bs) \<and>
        (r \<noteq> None \<longrightarrow> length bs \<le> k))"

lemma puts_Nil: "puts fd [] s r s"
  by (simp add: puts_def)

lemma puts_trans: "puts fd xs s (Some ()) u \<Longrightarrow> puts fd ys u r t \<Longrightarrow> puts fd (xs @ ys) s r t"
proof -
  assume a: "puts fd xs s (Some ()) u" and b: "puts fd ys u r t"
  obtain e k where e: "length (u_rets u) \<le> length (u_rets s)" "u_trace u = u_trace s @ e"
      "map fst e = map (\<lambda>c. U_write fd [c]) (take k xs)" "length xs \<le> k"
    using a unfolding puts_def by blast
  obtain e' k' where e': "length (u_rets t) \<le> length (u_rets u)" "u_trace t = u_trace u @ e'"
      "map fst e' = map (\<lambda>c. U_write fd [c]) (take k' ys)" "r \<noteq> None \<longrightarrow> length ys \<le> k'"
    using b unfolding puts_def by blast
  show ?thesis
    unfolding puts_def using e e' by (intro conjI exI [of _ "e @ e'"] exI [of _ "length xs + k'"]) auto
qed

lemma puts_stop: "puts fd xs s None t \<Longrightarrow> puts fd (xs @ ys) s None t"
proof -
  assume "puts fd xs s None t"
  then obtain e k where e: "length (u_rets t) \<le> length (u_rets s)" "u_trace t = u_trace s @ e"
      "map fst e = map (\<lambda>c. U_write fd [c]) (take k xs)"
    by (auto simp: puts_def)
  moreover have "take (min k (length xs)) xs = take k xs"
    by (simp add: min_def)
  ultimately show ?thesis
    unfolding puts_def by (intro conjI exI [of _ e] exI [of _ "min k (length xs)"]) auto
qed

lemma ush_puts_bind:
  assumes "ush m (puts fd xs s) s" "\<And>u. puts fd xs s (Some ()) u \<Longrightarrow> ush n (puts fd ys u) u"
  shows "ush (kseq m n) (puts fd (xs @ ys) s) s"
proof -
  have "ush m (\<lambda>r t. case r of None \<Rightarrow> puts fd (xs @ ys) s None t | Some _ \<Rightarrow> ush n (puts fd (xs @ ys) s) t) s"
    using assms(1)
    by (rule ush_mono) (auto split: option.splits intro: puts_stop ush_mono [OF assms(2)] puts_trans)
  then show ?thesis
    by simp
qed

lemma ush_putc: "ush (u_putc fd c) (puts fd [c] s) s"
proof (cases "u_rets s")
  case Nil
  then show ?thesis
    by (auto simp: u_putc_def u_do_def puts_def intro!: exI [of _ "[(U_write fd [c], None)]"] exI [of _ 1])
next
  case (Cons r rs)
  then show ?thesis
    by (auto simp: u_putc_def u_do_def puts_def intro!: exI [of _ "[(U_write fd [c], Some r)]"] exI [of _ 1])
qed

lemma ush_puts: "ush (kfor bs (u_putc fd)) (puts fd bs s) s"
proof (induction bs arbitrary: s)
  case (Cons b bs)
  show ?case
    using ush_puts_bind [OF ush_putc [of fd b s], of "kfor bs (u_putc fd)" bs] Cons.IH by simp
qed (simp add: puts_Nil)

primrec u_format :: "bytes \<Rightarrow> bool \<Rightarrow> carg list \<Rightarrow> bytes option" where
  "u_format [] pct as = Some []"
| "u_format (c # fmt) pct as =
     (if \<not> pct then (if c = 37 then u_format fmt True as else map_option ((#) c) (u_format fmt False as))
      else if c = 100 then
        (case as of CInt v # as' \<Rightarrow> map_option ((@) (u_int_chars v 10 True)) (u_format fmt False as') | _ \<Rightarrow> None)
      else if c = 120 \<or> c = 112 then
        (case as of CInt v # as' \<Rightarrow> map_option ((@) (u_int_chars v 16 False)) (u_format fmt False as') | _ \<Rightarrow> None)
      else if c = 115 then
        (case as of CStr s # as' \<Rightarrow>
           map_option ((@) (case s of None \<Rightarrow> null_str | Some t \<Rightarrow> t)) (u_format fmt False as') | _ \<Rightarrow> None)
      else if c = 99 then
        (case as of CInt v # as' \<Rightarrow> map_option ((#) (of_int v)) (u_format fmt False as') | _ \<Rightarrow> None)
      else if c = 37 then map_option ((#) c) (u_format fmt False as)
      else map_option ((@) [37, c]) (u_format fmt False as))"

lemma u_printf_loop_puts:
  "u_format fmt pct as = Some out \<Longrightarrow> ush (u_printf_loop fd fmt pct as) (puts fd out s) s"
proof (induction fmt arbitrary: pct as out s)
  case (Cons c fmt)
  have *: "ush (kseq m (u_printf_loop fd fmt False bs)) (puts fd (xs @ rest) s) s"
    if "u_format fmt False bs = Some rest" "ush m (puts fd xs s) s" for m :: "('a ustate_scheme, unit) kop" and xs bs rest
    by (rule ush_puts_bind [OF that(2)]) (rule Cons.IH [OF that(1)])
  have one: "ush (kseq (u_putc fd x) (u_printf_loop fd fmt False bs)) (puts fd (x # rest) s) s"
    if "u_format fmt False bs = Some rest" for x bs rest
    using * [OF that ush_putc [of fd x s]] by simp
  have two: "ush (kseq (u_putc fd x) (kseq (u_putc fd y) (u_printf_loop fd fmt False bs))) (puts fd ([x] @ [y] @ rest) s) s"
    if "u_format fmt False bs = Some rest" for x y bs rest
  proof (rule ush_puts_bind [OF ush_putc])
    fix u :: "'a ustate_scheme"
    show "ush (kseq (u_putc fd y) (u_printf_loop fd fmt False bs)) (puts fd ([y] @ rest) u) u"
      by (rule ush_puts_bind [OF ush_putc]) (rule Cons.IH [OF that])
  qed
  note many = * [OF _ ush_puts [of _ fd s]]
  show ?case
  proof (cases pct)
    case False
    then show ?thesis
      using Cons.prems one Cons.IH by (cases "c = 37") (auto simp del: ush_simps(1))
  next
    case True
    consider "c = 100" | "c = 120 \<or> c = 112" | "c = 115" | "c = 99" | "c = 37" | "c \<notin> {100, 120, 112, 115, 99, 37}"
      by blast
    then show ?thesis
    proof cases
      case 1
      then obtain v as' rest where "as = CInt v # as'" "u_format fmt False as' = Some rest" "out = u_int_chars v 10 True @ rest"
        using Cons.prems True by (auto split: list.splits carg.splits)
      then show ?thesis
        using 1 True many by (simp add: u_printint_def del: ush_simps(1))
    next
      case 2
      then obtain v as' rest where "as = CInt v # as'" "u_format fmt False as' = Some rest" "out = u_int_chars v 16 False @ rest"
        using Cons.prems True by (auto split: list.splits carg.splits)
      then show ?thesis
        using 2 True many by (auto simp add: u_printint_def simp del: ush_simps(1))
    next
      case 3
      then obtain v as' rest where "as = CStr v # as'" "u_format fmt False as' = Some rest"
        "out = (case v of None \<Rightarrow> null_str | Some t \<Rightarrow> t) @ rest"
        using Cons.prems True by (auto split: list.splits carg.splits)
      then show ?thesis
        using 3 True many by (simp del: ush_simps(1))
    next
      case 4
      then obtain v as' rest where "as = CInt v # as'" "u_format fmt False as' = Some rest" "out = of_int v # rest"
        using Cons.prems True by (auto split: list.splits carg.splits)
      then show ?thesis
        using 4 True one by (simp del: ush_simps(1))
    next
      case 5
      then show ?thesis
        using Cons.prems True one by (auto simp del: ush_simps(1))
    next
      case 6
      then show ?thesis
        using Cons.prems True two by (auto simp del: ush_simps(1))
    qed
  qed
qed (simp add: puts_Nil)

lemma ush_printf: "u_format fmt False as = Some out \<Longrightarrow> ush (u_printf fd fmt as) (puts fd out s) s"
  by (simp add: u_printf_def u_printf_loop_puts)

lemma written_append [simp]: "written fd (tr @ tr') = written fd tr @ written fd tr'"
  and delivered_append [simp]: "delivered fd (tr @ tr') = delivered fd tr @ delivered fd tr'"
  by (simp_all add: written_def delivered_def)

lemma trace_chars: "map fst ext = map (\<lambda>c. U_write fd [c]) bs \<Longrightarrow> written fd ext = bs \<and> delivered fd' ext = []"
proof (induction bs arbitrary: ext)
  case Nil
  then show ?case by (simp add: written_def delivered_def)
next
  case (Cons b bs)
  then obtain r ext' where e: "ext = (U_write fd [b], r) # ext'" "map fst ext' = map (\<lambda>c. U_write fd [c]) bs"
    by (auto simp: map_eq_Cons_conv)
  then show ?case
    using Cons.IH [OF e(2)] by (simp add: written_def delivered_def)
qed

lemma puts_trace:
  "puts fd bs s r t \<Longrightarrow> delivered fd' (u_trace t) = delivered fd' (u_trace s) \<and>
     (\<exists>k. written fd (u_trace t) = written fd (u_trace s) @ take k bs \<and> (r \<noteq> None \<longrightarrow> length bs \<le> k))"
proof -
  assume "puts fd bs s r t"
  then obtain e k where e: "u_trace t = u_trace s @ e" "map fst e = map (\<lambda>c. U_write fd [c]) (take k bs)"
      "r \<noteq> None \<longrightarrow> length bs \<le> k"
    unfolding puts_def by blast
  then show ?thesis
    using trace_chars [OF e(2), of fd'] by (intro conjI exI [of _ k]) simp_all
qed

section \<open>Numbers\<close>







end
