(* ===== verification/User_Grep.thy ===== *)
theory User_Grep
  imports User_Lib
begin

text \<open>
  \<^verbatim>\<open>grep.c\<close>: the regular expression matcher, which is shown to decide the language of the
  expression, and the loop that applies it to the lines of a file.
\<close>

section \<open>The matcher\<close>

function (sequential) matchhere :: "bytes \<Rightarrow> bytes \<Rightarrow> bool" and matchstar :: "u8 \<Rightarrow> bytes \<Rightarrow> bytes \<Rightarrow> bool" where
  "matchhere [] tx = True"
| "matchhere (c # re) tx =
     (if re \<noteq> [] \<and> hd re = 42 then matchstar c (tl re) tx
      else if c = 36 \<and> re = [] then tx = []
      else if tx \<noteq> [] \<and> (c = 46 \<or> c = hd tx) then matchhere re (tl tx)
      else False)"
| "matchstar c re tx =
     (if matchhere re tx then True
      else if tx \<noteq> [] \<and> (hd tx = c \<or> c = 46) then matchstar c re (tl tx)
      else False)"
  by pat_completeness auto

termination
  by (relation "measures [case_sum (\<lambda>(re, tx). 2 * length re) (\<lambda>(c, re, tx). 2 * length re + 1),
        case_sum (\<lambda>(re, tx). length tx) (\<lambda>(c, re, tx). length tx)]") auto

primrec match_from :: "bytes \<Rightarrow> bytes \<Rightarrow> bool" where
  "match_from re [] = matchhere re []"
| "match_from re (c # tx) = (if matchhere re (c # tx) then True else match_from re tx)"

definition match :: "bytes \<Rightarrow> bytes \<Rightarrow> bool" where
  "match re tx = (if re \<noteq> [] \<and> hd re = 94 then matchhere (tl re) tx else match_from re tx)"

section \<open>The program\<close>

definition GREP_BUF :: nat where "GREP_BUF = 1024"

text \<open>The inner loop over the lines in the buffer; it gives what is left after the last newline.\<close>

function grep_scan :: "bytes \<Rightarrow> bytes \<Rightarrow> ('a ustate_scheme, bytes) kop" where
  "grep_scan pattern b =
     (case find_index (\<lambda>c. c = 10) (takeWhile (\<lambda>c. c \<noteq> 0) b) of
        None \<Rightarrow> kret b
      | Some q \<Rightarrow>
          kseq (kwhen (match pattern (take q b)) (u_do (U_write 1 (take (Suc q) b))))
            (grep_scan pattern (drop (Suc q) b)))"
  by pat_completeness auto

termination
proof (relation "measure (\<lambda>(pattern, b). length b)")
  fix pattern b q
  assume "find_index (\<lambda>c. c = 10) (takeWhile (\<lambda>c. c \<noteq> 0) b) = Some q"
  then have "q < length (takeWhile (\<lambda>c. c \<noteq> 0) b)"
    by (simp add: find_index_Some)
  then have "b \<noteq> []"
    by auto
  then show "((pattern, drop (Suc q) b), pattern, b) \<in> measure (\<lambda>(pattern, b). length b)"
    by simp
qed simp

declare grep_scan.simps [simp del]

text \<open>Each iteration of the outer loop consumes a result of \<^verbatim>\<open>read\<close>, so their number is enough fuel.\<close>

primrec grep_loop :: "nat \<Rightarrow> bytes \<Rightarrow> int \<Rightarrow> bytes \<Rightarrow> ('a ustate_scheme, unit) kop" where
  "grep_loop 0 pattern fd b = khang"
| "grep_loop (Suc fuel) pattern fd b =
     kbind (u_read fd (GREP_BUF - length b - 1)) (\<lambda>(n, d).
     if n > 0 then
       kbind (grep_scan pattern (b @ d)) (\<lambda>rest.
       grep_loop fuel pattern fd (if rest = b @ d then [] else rest))
     else kskip)"

definition grep :: "bytes \<Rightarrow> int \<Rightarrow> ('a ustate_scheme, unit) kop" where
  "grep pattern fd s = grep_loop (Suc (length (u_rets s))) pattern fd [] s"

primrec grep_files :: "bytes \<Rightarrow> bytes list \<Rightarrow> ('a ustate_scheme, unit) kop" where
  "grep_files pattern [] = kskip"
| "grep_files pattern (f # fs) =
     kbind (usys_int (U_open f 0)) (\<lambda>fd.
     if fd < 0 then kseq (u_printf 1 (str ''grep: cannot open %s\<newline>'') [CStr (Some f)]) u_exit
     else kseq (grep pattern fd) (kseq (u_do (U_close fd)) (grep_files pattern fs)))"

definition grep_main :: "bytes list \<Rightarrow> ('a ustate_scheme, 'b) kop" where
  "grep_main argv =
     (if length argv \<le> 1 then kseq (u_printf 2 (str ''usage: grep pattern [file ...]\<newline>'') []) u_exit
      else if length argv \<le> 2 then kseq (grep (argv ! 1) 0) u_exit
      else kseq (grep_files (argv ! 1) (drop 2 argv)) u_exit)"

section \<open>What an expression means\<close>

text \<open>
  The elements of an expression: a character (a dot stands for any), a starred character, or the
  end of the text, which a dollar means only in last position.
\<close>

datatype elem = One u8 | Star u8 | Eol

fun elems :: "bytes \<Rightarrow> elem list" where
  "elems [] = []"
| "elems (c # re) =
     (case re of
        d # re' \<Rightarrow> if d = 42 then Star c # elems re' else One c # elems re
      | [] \<Rightarrow> if c = 36 then [Eol] else [One c])"

definition csat :: "u8 \<Rightarrow> u8 \<Rightarrow> bool" where
  "csat c x \<longleftrightarrow> c = 46 \<or> x = c"

primrec elang :: "elem \<Rightarrow> bytes set" where
  "elang (One c) = {[x] | x. csat c x}"
| "elang (Star c) = {w. \<forall>x \<in> set w. csat c x}"
| "elang Eol = {[]}"

primrec lang :: "elem list \<Rightarrow> bytes set" where
  "lang [] = {[]}"
| "lang (e # es) = {u @ v | u v. u \<in> elang e \<and> v \<in> lang es}"

definition begins :: "elem list \<Rightarrow> bytes \<Rightarrow> bool" where
  "begins es tx \<longleftrightarrow> (\<exists>w rest. tx = w @ rest \<and> w \<in> lang es \<and> (Eol \<in> set es \<longrightarrow> rest = []))"

lemma begins_Nil [simp]: "begins [] tx"
  by (simp add: begins_def)

lemma begins_Eol: "begins [Eol] tx \<longleftrightarrow> tx = []"
  by (auto simp: begins_def)

lemma begins_Cons: "e \<noteq> Eol \<Longrightarrow> begins (e # es) tx \<longleftrightarrow> (\<exists>u t. tx = u @ t \<and> u \<in> elang e \<and> begins es t)"
  unfolding begins_def by (simp, metis append.assoc)

lemma begins_One: "begins (One c # es) tx \<longleftrightarrow> tx \<noteq> [] \<and> csat c (hd tx) \<and> begins es (tl tx)"
proof (cases tx)
  case Nil
  then show ?thesis by (auto simp: begins_Cons)
next
  case (Cons a as)
  have "\<exists>u t. tx = u @ t \<and> (\<exists>x. u = [x] \<and> csat c x) \<and> begins es t" if "csat c a" "begins es as"
    using that Cons by (intro exI [of _ "[a]"] exI [of _ as]) simp
  then show ?thesis
    using Cons by (auto simp: begins_Cons)
qed

lemma begins_Star:
  "begins (Star c # es) tx \<longleftrightarrow> begins es tx \<or> tx \<noteq> [] \<and> csat c (hd tx) \<and> begins (Star c # es) (tl tx)"
proof
  assume "begins (Star c # es) tx"
  then obtain u t where u: "tx = u @ t" "\<forall>x \<in> set u. csat c x" "begins es t"
    by (auto simp: begins_Cons)
  then show "begins es tx \<or> tx \<noteq> [] \<and> csat c (hd tx) \<and> begins (Star c # es) (tl tx)"
    by (cases u) (auto simp: begins_Cons)
next
  assume "begins es tx \<or> tx \<noteq> [] \<and> csat c (hd tx) \<and> begins (Star c # es) (tl tx)"
  then show "begins (Star c # es) tx"
  proof
    assume "begins es tx"
    then show ?thesis
      by (auto simp: begins_Cons intro: exI [of _ "[]"])
  next
    assume a: "tx \<noteq> [] \<and> csat c (hd tx) \<and> begins (Star c # es) (tl tx)"
    then obtain u t where u: "tl tx = u @ t" "\<forall>x \<in> set u. csat c x" "begins es t"
      by (auto simp: begins_Cons)
    then have "tx = (hd tx # u) @ t"
      using a by (metis append_Cons list.collapse)
    then show ?thesis
      using a u(2,3) unfolding begins_Cons [of "Star c" es tx, simplified]
      by (intro exI [of _ "hd tx # u"] exI [of _ t]) auto
  qed
qed

lemma matcher_decides:
  "matchhere re tx \<longleftrightarrow> begins (elems re) tx"
  "matchstar c re tx \<longleftrightarrow> begins (Star c # elems re) tx"
proof (induction re tx and c re tx rule: matchhere_matchstar.induct)
  case (1 tx)
  then show ?case by simp
next
  case (2 c re tx)
  then show ?case
    by (cases re) (auto simp: begins_Eol begins_One csat_def)
next
  case (3 c re tx)
  then show ?case
    by (subst begins_Star) (auto simp: csat_def)
qed

lemma match_from_begins: "match_from re tx \<longleftrightarrow> (\<exists>pre t. tx = pre @ t \<and> begins (elems re) t)"
proof (induction tx)
  case Nil
  then show ?case by (simp add: matcher_decides)
next
  case (Cons c tx)
  have "(\<exists>pre t. c # tx = pre @ t \<and> begins (elems re) t) \<longleftrightarrow>
      begins (elems re) (c # tx) \<or> (\<exists>pre t. tx = pre @ t \<and> begins (elems re) t)"
    by (auto simp: Cons_eq_append_conv)
  then show ?case
    using Cons by (simp add: matcher_decides)
qed

text \<open>C25: \<^verbatim>\<open>match\<close> decides the language of its expression.  It accepts a text exactly when some part of the
  text is a word of the expression, at the start of the text if the expression begins with a
  caret, at the end if it ends with a dollar.\<close>

theorem match_decides_language:
  "match re tx \<longleftrightarrow>
     (let anchored = (re \<noteq> [] \<and> hd re = 94); es = elems (if anchored then tl re else re) in
      \<exists>pre w post. tx = pre @ w @ post \<and> w \<in> lang es \<and> (anchored \<longrightarrow> pre = []) \<and> (Eol \<in> set es \<longrightarrow> post = []))"
proof (cases "re \<noteq> [] \<and> hd re = 94")
  case True
  then show ?thesis
    by (simp add: match_def matcher_decides begins_def Let_def)
next
  case False
  then show ?thesis
    by (simp add: match_def match_from_begins begins_def Let_def) blast
qed

text \<open>An expression with a star, on a text it matches in the middle.\<close>

theorem match_decides_language_witness:
  "match (str ''b*$'') (str ''abb'') \<and> str ''abb'' = str ''a'' @ str ''bb'' @ [] \<and> str ''bb'' \<in> lang (elems (str ''b*$''))"
proof -
  have e: "elems (str ''b*$'') = [Star 98, Eol]" "str ''bb'' = [98, 98]" "str ''abb'' = str ''a'' @ str ''bb'' @ []"
    by code_simp+
  have "str ''bb'' \<in> lang (elems (str ''b*$''))"
    unfolding e by (auto simp: csat_def)
  then have "match (str ''b*$'') (str ''abb'')"
    using match_decides_language [of "str ''b*$''" "str ''abb''"] e(3)
    by (auto simp: Let_def str_def intro: exI [of _ "str ''a''"])
  then show ?thesis
    using e(3) \<open>str ''bb'' \<in> _\<close> by simp
qed

section \<open>The lines of the input\<close>





























text \<open>C29: A read that delivers no newline is lost: the text it delivered is dropped from the buffer, and
  \<^verbatim>\<open>grep\<close> goes on as if it had never been read.  A line that arrives in two pieces is judged by its
  second piece only.\<close>

theorem grep_drops_partial_line:
  assumes "0 < n" "10 \<notin> set (take (nat n) d)"
  shows "grep pattern fd (s\<lparr>u_rets := (n, d) # rs\<rparr>) =
    grep pattern fd (s\<lparr>u_rets := rs, u_trace := u_trace s @ [(U_read fd 1023, Some (n, d))]\<rparr>)"
proof -
  have "find_index (\<lambda>c. c = 10) (takeWhile (\<lambda>c. c \<noteq> 0) (take (nat n) d)) = None"
    using assms(2) by (auto simp: find_index_None dest: set_takeWhileD)
  then have "grep_scan pattern (take (nat n) d) u = Ret (take (nat n) d) u" for u :: "'a ustate_scheme"
    by (subst grep_scan.simps) (simp add: kret_def)
  then show ?thesis
    using assms(1) by (simp add: grep_def u_read_def usys_def kbind_def kret_def GREP_BUF_def del: grep_loop.simps(1))
qed

theorem grep_drops_partial_line_witness:
  "grep (str ''ab'') 0 \<lparr>u_rets = [(2, str ''ab''), (3, str ''cd\<newline>''), (0, [])], u_trace = []\<rparr> =
     Ret () \<lparr>u_rets = [], u_trace = [(U_read 0 1023, Some (2, str ''ab'')), (U_read 0 1023, Some (3, str ''cd\<newline>'')),
       (U_read 0 1023, Some (0, []))]\<rparr> \<and> match (str ''ab'') (str ''abcd'')"
proof -
  have n: "10 \<notin> set (take (nat 2) (str ''ab''))" "0 < (2 :: int)"
    by code_simp+
  have "grep (str ''ab'') 0 \<lparr>u_rets = [(3, str ''cd\<newline>''), (0, [])], u_trace = [(U_read 0 1023, Some (2, str ''ab''))]\<rparr> =
      Ret () \<lparr>u_rets = [], u_trace = [(U_read 0 1023, Some (2, str ''ab'')), (U_read 0 1023, Some (3, str ''cd\<newline>'')),
       (U_read 0 1023, Some (0, []))]\<rparr>"
    by code_simp
  moreover have "match (str ''ab'') (str ''abcd'')"
    by code_simp
  ultimately show ?thesis
    using grep_drops_partial_line [OF n(2,1), of "str ''ab''" 0 "[(3, str ''cd\<newline>''), (0, [])]" "\<lparr>u_rets = [], u_trace = []\<rparr>"] by simp
qed

end
