(* ===== verification/User_Progs.thy ===== *)
theory User_Progs
  imports User_Lib Fs_Dir
begin

text \<open>
  The small user programs: \<^verbatim>\<open>cat\<close>, \<^verbatim>\<open>wc\<close>, \<^verbatim>\<open>echo\<close>, \<^verbatim>\<open>ls\<close>, \<^verbatim>\<open>kill\<close>, \<^verbatim>\<open>ln\<close>, \<^verbatim>\<open>mkdir\<close>, \<^verbatim>\<open>rm\<close>, \<^verbatim>\<open>init\<close>, \<^verbatim>\<open>zombie\<close>, and the test
  programs \<^verbatim>\<open>forktest\<close>, \<^verbatim>\<open>stressfs\<close>, \<^verbatim>\<open>lab1\<close> and the ticket programs of the scheduler exercises.  An
  argument vector is a list of strings.  Loops that make a system call in each round take the
  number of results still to come as fuel, which they cannot use up.
\<close>

section \<open>\<^verbatim>\<open>cat\<close> and \<^verbatim>\<open>wc\<close>\<close>

primrec cat_loop :: "nat \<Rightarrow> int \<Rightarrow> ('a ustate_scheme, unit) kop" where
  "cat_loop 0 fd = khang"
| "cat_loop (Suc fuel) fd =
     kbind (u_read fd 512) (\<lambda>(n, d).
     if n > 0 then
       kbind (usys_int (U_write 1 d)) (\<lambda>w.
       if w \<noteq> n then kseq (u_printf 1 (str ''cat: write error\<newline>'') []) u_exit
       else cat_loop fuel fd)
     else if n < 0 then kseq (u_printf 1 (str ''cat: read error\<newline>'') []) u_exit
     else kskip)"

definition cat :: "int \<Rightarrow> ('a ustate_scheme, unit) kop" where
  "cat fd s = cat_loop (Suc (length (u_rets s))) fd s"

primrec cat_files :: "bytes list \<Rightarrow> ('a ustate_scheme, unit) kop" where
  "cat_files [] = kskip"
| "cat_files (f # fs) =
     kbind (usys_int (U_open f 0)) (\<lambda>fd.
     if fd < 0 then kseq (u_printf 1 (str ''cat: cannot open %s\<newline>'') [CStr (Some f)]) u_exit
     else kseq (cat fd) (kseq (u_do (U_close fd)) (cat_files fs)))"

definition cat_main :: "bytes list \<Rightarrow> ('a ustate_scheme, 'b) kop" where
  "cat_main argv =
     (if length argv \<le> 1 then kseq (cat 0) u_exit else kseq (cat_files (drop 1 argv)) u_exit)"

text \<open>The counters of \<^verbatim>\<open>wc\<close>: lines, words, characters, and whether the last character was in a word.\<close>

type_synonym wcount = "int \<times> int \<times> int \<times> bool"

definition wc_space :: "u8 \<Rightarrow> bool" where
  "wc_space ch \<longleftrightarrow> ch \<in> {32, 13, 9, 10, 11}"

definition wc_char :: "u8 \<Rightarrow> wcount \<Rightarrow> wcount" where
  "wc_char ch st =
     (let (l, w, c, inword) = st;
          c' = s32 (c + 1);
          l' = (if ch = 10 then s32 (l + 1) else l)
      in if wc_space ch then (l', w, c', False)
         else if \<not> inword then (l', s32 (w + 1), c', True)
         else (l', w, c', inword))"

primrec wc_loop :: "nat \<Rightarrow> int \<Rightarrow> wcount \<Rightarrow> ('a ustate_scheme, wcount) kop" where
  "wc_loop 0 fd st = khang"
| "wc_loop (Suc fuel) fd st =
     kbind (u_read fd 512) (\<lambda>(n, d).
     if n > 0 then wc_loop fuel fd (fold wc_char d st)
     else if n < 0 then kseq (u_printf 1 (str ''wc: read error\<newline>'') []) u_exit
     else kret st)"

definition wc :: "int \<Rightarrow> bytes \<Rightarrow> ('a ustate_scheme, unit) kop" where
  "wc fd name s =
     kbind (wc_loop (Suc (length (u_rets s))) fd (0, 0, 0, False)) (\<lambda>(l, w, c, inword).
     u_printf 1 (str ''%d %d %d %s\<newline>'') [CInt l, CInt w, CInt c, CStr (Some name)]) s"

primrec wc_files :: "bytes list \<Rightarrow> ('a ustate_scheme, unit) kop" where
  "wc_files [] = kskip"
| "wc_files (f # fs) =
     kbind (usys_int (U_open f 0)) (\<lambda>fd.
     if fd < 0 then kseq (u_printf 1 (str ''wc: cannot open %s\<newline>'') [CStr (Some f)]) u_exit
     else kseq (wc fd f) (kseq (u_do (U_close fd)) (wc_files fs)))"

definition wc_main :: "bytes list \<Rightarrow> ('a ustate_scheme, 'b) kop" where
  "wc_main argv =
     (if length argv \<le> 1 then kseq (wc 0 []) u_exit else kseq (wc_files (drop 1 argv)) u_exit)"

section \<open>Programs without loops over input\<close>

primrec echo_args :: "bytes list \<Rightarrow> ('a ustate_scheme, unit) kop" where
  "echo_args [] = kskip"
| "echo_args (a # as) =
     kseq (u_printf 1 (str ''%s%s'') [CStr (Some a), CStr (Some (if as \<noteq> [] then str '' '' else str ''\<newline>''))]) (echo_args as)"

definition echo_main :: "bytes list \<Rightarrow> ('a ustate_scheme, 'b) kop" where
  "echo_main argv = kseq (echo_args (drop 1 argv)) u_exit"

definition kill_main :: "bytes list \<Rightarrow> ('a ustate_scheme, 'b) kop" where
  "kill_main argv =
     (if length argv < 2 then kseq (u_printf 2 (str ''usage: kill pid...\<newline>'') []) u_exit
      else kseq (kfor (drop 1 argv) (\<lambda>a. u_do (U_kill (atoi_l a)))) u_exit)"

definition ln_main :: "bytes list \<Rightarrow> ('a ustate_scheme, 'b) kop" where
  "ln_main argv =
     (if length argv \<noteq> 3 then kseq (u_printf 2 (str ''Usage: ln old new\<newline>'') []) u_exit
      else
        kbind (usys_int (U_link (argv ! 1) (argv ! 2))) (\<lambda>r.
        kseq (kwhen (r < 0) (u_printf 2 (str ''link %s %s: failed\<newline>'') [CStr (Some (argv ! 1)), CStr (Some (argv ! 2))]))
          u_exit))"

text \<open>\<^verbatim>\<open>mkdir\<close> and \<^verbatim>\<open>rm\<close> stop at the first name the kernel refuses.\<close>

primrec mkdir_args :: "bytes list \<Rightarrow> ('a ustate_scheme, unit) kop" where
  "mkdir_args [] = kskip"
| "mkdir_args (a # as) =
     kbind (usys_int (U_mkdir a)) (\<lambda>r.
     if r < 0 then u_printf 2 (str ''mkdir: %s failed to create\<newline>'') [CStr (Some a)] else mkdir_args as)"

definition mkdir_main :: "bytes list \<Rightarrow> ('a ustate_scheme, 'b) kop" where
  "mkdir_main argv =
     (if length argv < 2 then kseq (u_printf 2 (str ''Usage: mkdir files...\<newline>'') []) u_exit
      else kseq (mkdir_args (drop 1 argv)) u_exit)"

primrec rm_args :: "bytes list \<Rightarrow> ('a ustate_scheme, unit) kop" where
  "rm_args [] = kskip"
| "rm_args (a # as) =
     kbind (usys_int (U_unlink a)) (\<lambda>r.
     if r < 0 then u_printf 2 (str ''rm: %s failed to delete\<newline>'') [CStr (Some a)] else rm_args as)"

definition rm_main :: "bytes list \<Rightarrow> ('a ustate_scheme, 'b) kop" where
  "rm_main argv =
     (if length argv < 2 then kseq (u_printf 2 (str ''Usage: rm files...\<newline>'') []) u_exit
      else kseq (rm_args (drop 1 argv)) u_exit)"

definition zombie_main :: "('a ustate_scheme, 'b) kop" where
  "zombie_main = kbind (usys_int U_fork) (\<lambda>pid. kseq (kwhen (pid > 0) (u_do (U_sleep 5))) u_exit)"

section \<open>\<^verbatim>\<open>init\<close>\<close>

text \<open>After a \<^verbatim>\<open>fork\<close> whose result is 0 the run is that of the child.\<close>

definition O_RDWR_u :: int where "O_RDWR_u = 2"

primrec init_reap :: "nat \<Rightarrow> int \<Rightarrow> ('a ustate_scheme, unit) kop" where
  "init_reap 0 pid = khang"
| "init_reap (Suc fuel) pid =
     kbind (usys_int U_wait) (\<lambda>wpid.
     if wpid \<ge> 0 \<and> wpid \<noteq> pid then kseq (u_printf 1 (str ''zombie!\<newline>'') []) (init_reap fuel pid)
     else kskip)"

definition init_child :: "('a ustate_scheme, unit) kop" where
  "init_child =
     kseq (u_do (U_exec (str ''sh'') [str ''sh'']))
       (kseq (u_printf 1 (str ''init: exec sh failed\<newline>'') []) u_exit)"

primrec init_loop :: "nat \<Rightarrow> ('a ustate_scheme, unit) kop" where
  "init_loop 0 = khang"
| "init_loop (Suc fuel) =
     kseq (u_printf 1 (str ''init: starting sh\<newline>'') [])
       (kbind (usys_int U_fork) (\<lambda>pid.
        if pid < 0 then kseq (u_printf 1 (str ''init: fork failed\<newline>'') []) u_exit
        else kseq (kwhen (pid = 0) init_child)
          (kseq (\<lambda>s. init_reap (Suc (length (u_rets s))) pid s) (init_loop fuel))))"

definition init_main :: "('a ustate_scheme, unit) kop" where
  "init_main =
     kbind (usys_int (U_open (str ''console'') O_RDWR_u)) (\<lambda>fd.
     kseq (kwhen (fd < 0)
       (kseq (u_do (U_mknod (str ''console'') 1 1)) (u_do (U_open (str ''console'') O_RDWR_u))))
     (kseq (u_do (U_dup 0))
     (kseq (u_do (U_dup 0))
     (\<lambda>s. init_loop (Suc (length (u_rets s))) s))))"

section \<open>\<^verbatim>\<open>ls\<close>\<close>

definition fmtname :: "bytes \<Rightarrow> bytes" where
  "fmtname path =
     (let p = rev (takeWhile (\<lambda>c. c \<noteq> SLASH) (rev path))
      in if length p \<ge> DIRSIZ then p else p @ replicate (DIRSIZ - length p) 32)"

text \<open>Offsets in the 20 bytes of \<^verbatim>\<open>struct stat\<close>.\<close>

definition ustat_type :: "bytes \<Rightarrow> int" where "ustat_type st = s16 (int (get16 st 0))"
definition ustat_ino :: "bytes \<Rightarrow> int" where "ustat_ino st = s32 (int (get32 st 8))"
definition ustat_size :: "bytes \<Rightarrow> int" where "ustat_size st = s32 (int (get32 st 16))"

definition ls_line :: "bytes \<Rightarrow> bytes \<Rightarrow> ('a ustate_scheme, unit) kop" where
  "ls_line path st =
     u_printf 1 (str ''%s %d %d %d\<newline>'')
       [CStr (Some (fmtname path)), CInt (ustat_type st), CInt (ustat_ino st), CInt (ustat_size st)]"

primrec ls_entries :: "nat \<Rightarrow> int \<Rightarrow> bytes \<Rightarrow> ('a ustate_scheme, unit) kop" where
  "ls_entries 0 fd dir = khang"
| "ls_entries (Suc fuel) fd dir =
     kbind (u_read fd 16) (\<lambda>(n, de).
     if n \<noteq> 16 then kskip
     else if get16 de 0 = 0 then ls_entries fuel fd dir
     else
       (let path = dir @ [SLASH] @ takeWhile (\<lambda>c. c \<noteq> 0) (peek de 2 DIRSIZ)
        in kbind (u_stat path) (\<lambda>(r, st).
           if r < 0 then kseq (u_printf 1 (str ''ls: cannot stat %s\<newline>'') [CStr (Some path)]) (ls_entries fuel fd dir)
           else kseq (ls_line path st) (ls_entries fuel fd dir))))"

definition ls :: "bytes \<Rightarrow> ('a ustate_scheme, unit) kop" where
  "ls path =
     kbind (usys_int (U_open path 0)) (\<lambda>fd.
     if fd < 0 then u_printf 2 (str ''ls: cannot open %s\<newline>'') [CStr (Some path)]
     else
       kbind (usys (U_fstat fd)) (\<lambda>(r, st).
       if r < 0 then
         kseq (u_printf 2 (str ''ls: cannot stat %s\<newline>'') [CStr (Some path)]) (u_do (U_close fd))
       else
         kseq (if ustat_type st = T_FILE then ls_line path st
               else if ustat_type st = T_DIR then
                 (if length path + 1 + DIRSIZ + 1 > 512 then u_printf 1 (str ''ls: path too long\<newline>'') []
                  else (\<lambda>s. ls_entries (Suc (length (u_rets s))) fd path s))
               else kskip)
           (u_do (U_close fd))))"

definition ls_main :: "bytes list \<Rightarrow> ('a ustate_scheme, 'b) kop" where
  "ls_main argv = kseq (if length argv < 2 then ls (str ''.'') else kfor (drop 1 argv) ls) u_exit"

section \<open>Test programs\<close>

text \<open>\<^verbatim>\<open>forktest.c\<close> has a \<^verbatim>\<open>printf\<close> of its own that writes the format string as it is.\<close>

definition ft_printf :: "int \<Rightarrow> bytes \<Rightarrow> ('a ustate_scheme, unit) kop" where
  "ft_printf fd t = u_do (U_write fd t)"

text \<open>The loop that forks; it gives the number of children, with \<open>k\<close> rounds left.\<close>

primrec forktest_fork :: "nat \<Rightarrow> nat \<Rightarrow> ('a ustate_scheme, nat) kop" where
  "forktest_fork 0 n = kret n"
| "forktest_fork (Suc k) n =
     kbind (usys_int U_fork) (\<lambda>pid.
     if pid < 0 then kret n else if pid = 0 then u_exit else forktest_fork k (Suc n))"

primrec forktest_wait :: "nat \<Rightarrow> ('a ustate_scheme, unit) kop" where
  "forktest_wait 0 = kskip"
| "forktest_wait (Suc n) =
     kbind (usys_int U_wait) (\<lambda>r.
     if r < 0 then kseq (ft_printf 1 (str ''wait stopped early\<newline>'')) u_exit else forktest_wait n)"

definition forktest :: "('a ustate_scheme, unit) kop" where
  "forktest =
     kseq (ft_printf 1 (str ''fork test\<newline>''))
     (kbind (forktest_fork 1000 0) (\<lambda>n.
      if n = 1000 then kseq (ft_printf 1 (str ''fork claimed to work N times!\<newline>'')) u_exit
      else
        kseq (forktest_wait n)
        (kbind (usys_int U_wait) (\<lambda>r.
         if r \<noteq> - 1 then kseq (ft_printf 1 (str ''wait got too many\<newline>'')) u_exit
         else ft_printf 1 (str ''fork test OK\<newline>'')))))"

definition forktest_main :: "('a ustate_scheme, 'b) kop" where
  "forktest_main = kseq forktest u_exit"

text \<open>The loop of \<^verbatim>\<open>stressfs\<close> that forks up to four times and leaves when it is the parent; it gives \<^verbatim>\<open>i\<close>.\<close>

primrec stress_fork :: "nat \<Rightarrow> nat \<Rightarrow> ('a ustate_scheme, nat) kop" where
  "stress_fork 0 i = kret i"
| "stress_fork (Suc k) i =
     kbind (usys_int U_fork) (\<lambda>pid. if pid > 0 then kret i else stress_fork k (Suc i))"

definition O_CREATE_u :: int where "O_CREATE_u = 0x200"

definition stressfs_main :: "('a ustate_scheme, 'b) kop" where
  "stressfs_main =
     kseq (u_printf 1 (str ''stressfs starting\<newline>'') [])
     (kbind (stress_fork 4 0) (\<lambda>i.
      kseq (u_printf 1 (str ''write %d\<newline>'') [CInt (int i)])
      (let path = str ''stressfs'' @ [48 + of_nat i] in
       kbind (usys_int (U_open path (O_CREATE_u + O_RDWR_u))) (\<lambda>fd.
       kseq (kfor [0..<20] (\<lambda>_ :: nat. u_do (U_write fd (replicate 512 97))))
       (kseq (u_do (U_close fd))
       (kseq (u_printf 1 (str ''read\<newline>'') [])
       (kbind (usys_int (U_open path O_RDONLY_u)) (\<lambda>fd.
        kseq (kfor [0..<20] (\<lambda>_ :: nat. u_do (U_read fd 512)))
        (kseq (u_do (U_close fd))
        (kseq (u_do U_wait) u_exit))))))))))"

definition lab1_main :: "('a ustate_scheme, 'b) kop" where
  "lab1_main =
     kseq (u_printf 1 (str ''Please Enter Value [1-3]:\<newline>(1)A count of the processes in the system\<newline>(2)A count of the total number of system calls that the current process has made so far\<newline>(3)The number of memory pages the current process is using.\<newline>'') [])
     (kbind (gets 2) (\<lambda>c.
      let v = atoi_l c in
      kseq (if v = 1 then
              kbind (usys_int (U_info v)) (\<lambda>n. u_printf 1 (str ''Number of Process on System: (%d)\<newline>'') [CInt n])
            else if v = 2 then
              kbind (usys_int (U_info v)) (\<lambda>n. u_printf 1 (str ''Current Process has %d system calls\<newline>'') [CInt n])
            else if v = 3 then
              kbind (usys_int (U_info v)) (\<lambda>n.
                u_printf 1 (str ''The number of memory pages the current process is using is %d\<newline>'') [CInt n])
            else kskip)
        u_exit))"

text \<open>
  The four ticket programs fork three children that ask for different numbers of tickets, keep
  the processor busy (a loop without effect) and report: \<open>tk i\<close> is what child \<open>i\<close> asks for, \<open>rp i\<close> what it
  reports.  The loop gives the result of the last \<^verbatim>\<open>fork\<close>.
\<close>

definition ticket_child :: "int \<Rightarrow> int \<Rightarrow> ('a ustate_scheme, 'b) kop" where
  "ticket_child tk rp =
     kseq (u_do (U_tickets tk))
     (kbind (usys_int U_getpid) (\<lambda>pid.
      kseq (u_printf 1 (str ''\<newline>  child# %d with %d tickets has finished!  \<newline>'') [CInt pid, CInt rp]) u_exit))"

primrec ticket_forks :: "(nat \<Rightarrow> int) \<Rightarrow> (nat \<Rightarrow> int) \<Rightarrow> nat list \<Rightarrow> int \<Rightarrow> ('a ustate_scheme, int) kop" where
  "ticket_forks tk rp [] pid = kret pid"
| "ticket_forks tk rp (i # is) pid =
     kbind (usys_int U_fork) (\<lambda>pid.
     if pid > 0 then ticket_forks tk rp is pid
     else if pid = 0 then ticket_child (tk i) (rp i)
     else kseq (u_printf 2 (str ''  \<newline>  Error  \<newline> '') []) (ticket_forks tk rp is pid))"

definition ticket_parent :: "(nat \<Rightarrow> int) \<Rightarrow> (nat \<Rightarrow> int) \<Rightarrow> ('a ustate_scheme, 'b) kop" where
  "ticket_parent tk rp =
     kbind (ticket_forks tk rp [0, 1, 2] 0) (\<lambda>pid.
     kseq (kwhen (pid > 0) (kfor [0..<3] (\<lambda>_ :: nat. u_do U_wait))) u_exit)"

definition example_main :: "('a ustate_scheme, 'b) kop" where
  "example_main = ticket_parent (\<lambda>i. [50, 33, 17] ! i) (\<lambda>i. [55, 33, 17] ! i)"

definition example1_main :: "('a ustate_scheme, 'b) kop" where
  "example1_main = kseq (u_do (U_tickets 100)) (ticket_parent (\<lambda>i. [50, 33, 17] ! i) (\<lambda>i. 30 - 10 * int i))"

definition prog1_main :: "('a ustate_scheme, 'b) kop" where
  "prog1_main = kseq (u_do (U_tickets 60)) (ticket_parent (\<lambda>i. 30 - 10 * int i) (\<lambda>i. 30 - 10 * int i))"

definition prog2_main :: "bytes list \<Rightarrow> ('a ustate_scheme, 'b) kop" where
  "prog2_main argv =
     (if length argv \<noteq> 2 then kseq (u_printf 1 (str ''usage: x y\<newline>'') []) u_exit
      else
        (let total = atoi_l (argv ! 1); high = cdiv total 2; mid = cdiv total 3; lowest = s32 (total - (high + mid));
             tk = (\<lambda>i. [high, mid, lowest] ! i)
         in ticket_parent tk tk))"

section \<open>Properties of \<^verbatim>\<open>wc\<close>\<close>

text \<open>What \<^verbatim>\<open>wc\<close> is meant to count: a word starts at a character that is no space and follows none.\<close>

definition lines_of :: "bytes \<Rightarrow> nat" where
  "lines_of bs = length (filter (\<lambda>c. c = 10) bs)"

definition words_of :: "bytes \<Rightarrow> nat" where
  "words_of bs = length (filter (\<lambda>i. \<not> wc_space (bs ! i) \<and> (i = 0 \<or> wc_space (bs ! (i - 1)))) [0..<length bs])"

definition wc_ref :: "bytes \<Rightarrow> wcount" where
  "wc_ref bs = (int (lines_of bs), int (words_of bs), int (length bs), bs \<noteq> [] \<and> \<not> wc_space (last bs))"

lemma words_of_snoc:
  "words_of (bs @ [c]) = words_of bs + (if \<not> wc_space c \<and> (bs = [] \<or> wc_space (last bs)) then 1 else 0)"
proof -
  have "filter (\<lambda>i. \<not> wc_space ((bs @ [c]) ! i) \<and> (i = 0 \<or> wc_space ((bs @ [c]) ! (i - 1)))) [0..<length bs] =
      filter (\<lambda>i. \<not> wc_space (bs ! i) \<and> (i = 0 \<or> wc_space (bs ! (i - 1)))) [0..<length bs]"
    by (rule filter_cong) (auto simp: nth_append)
  then have "words_of (bs @ [c]) =
      words_of bs + (if \<not> wc_space c \<and> (length bs = 0 \<or> wc_space ((bs @ [c]) ! (length bs - 1))) then 1 else 0)"
    by (simp add: words_of_def)
  moreover have "(bs @ [c]) ! (length bs - 1) = last bs" if "bs \<noteq> []"
    using that by (simp add: nth_append last_conv_nth)
  ultimately show ?thesis
    by (cases "bs = []") simp_all
qed

lemma count_bounds: "lines_of bs \<le> length bs" "words_of bs \<le> length bs"
  using length_filter_le [of _ "[0..<length bs]"] by (simp_all add: lines_of_def words_of_def)

lemma wc_char_ref:
  assumes "int (length bs) + 1 < 2 ^ 31"
  shows "wc_char c (wc_ref bs) = wc_ref (bs @ [c])"
proof -
  have "int (lines_of bs) + 1 < 2 ^ 31" "int (words_of bs) + 1 < 2 ^ 31"
    using count_bounds [of bs] assms by linarith+
  moreover have "wc_space 10"
    by (simp add: wc_space_def)
  ultimately show ?thesis
    using assms by (auto simp: wc_char_def wc_ref_def Let_def words_of_snoc lines_of_def)
qed

lemma fold_wc_ref:
  "int (length bs) + int (length d) < 2 ^ 31 \<Longrightarrow> fold wc_char d (wc_ref bs) = wc_ref (bs @ d)"
proof (induction d arbitrary: bs)
  case (Cons c d)
  then show ?case
    using Cons.IH [of "bs @ [c]"] wc_char_ref [of bs c] by simp
qed simp

lemma wc_format:
  "u_format (str ''%d %d %d %s\<newline>'') False [CInt l, CInt w, CInt c, CStr (Some name)] =
     Some (u_int_chars l 10 True @ [32] @ u_int_chars w 10 True @ [32] @ u_int_chars c 10 True @ [32] @ name @ [10])"
proof -
  have "str ''%d %d %d %s\<newline>'' = [37, 100, 32, 37, 100, 32, 37, 100, 32, 37, 115, 10]"
    by code_simp
  then show ?thesis by simp
qed

definition wc_report :: "bytes \<Rightarrow> bytes \<Rightarrow> bytes" where
  "wc_report bs name =
     u_int_chars (int (lines_of bs)) 10 True @ [32] @ u_int_chars (int (words_of bs)) 10 True @ [32] @
     u_int_chars (int (length bs)) 10 True @ [32] @ name @ [10]"

text \<open>The loop: a completed run has counted everything that was delivered.\<close>

definition wc_post :: "int \<Rightarrow> wcount option \<Rightarrow> 'a ustate_scheme \<Rightarrow> bool" where
  "wc_post fd r t \<longleftrightarrow> (\<forall>st. r = Some st \<longrightarrow> written 1 (u_trace t) = [] \<and>
     (int (length (concat (delivered fd (u_trace t)))) < 2 ^ 31 \<longrightarrow> st = wc_ref (concat (delivered fd (u_trace t)))))"

lemma wc_loop_ok:
  "length (u_rets s) < fuel \<Longrightarrow> written 1 (u_trace s) = [] \<Longrightarrow>
   (int (length (concat (delivered fd (u_trace s)))) < 2 ^ 31 \<Longrightarrow> st = wc_ref (concat (delivered fd (u_trace s)))) \<Longrightarrow>
   ush (wc_loop fuel fd st) (wc_post fd) s"
proof (induction fuel arbitrary: st s)
  case (Suc fuel)
  show ?case
  proof (cases "u_rets s")
    case Nil
    then show ?thesis
      by (simp add: u_read_def wc_post_def)
  next
    case (Cons q rs)
    obtain n d0 where q: "q = (n, d0)" by fastforce
    let ?d = "take (nat n) d0"
    let ?u = "s\<lparr>u_rets := rs, u_trace := u_trace s @ [(U_read fd 512, Some (n, d0))]\<rparr>"
    have w: "written 1 (u_trace ?u) = []"
      using Suc.prems(2) by (simp add: written_def)
    consider "n > 0" | "n < 0" | "n = 0" by linarith
    then show ?thesis
    proof cases
      case 1
      then have d: "concat (delivered fd (u_trace ?u)) = concat (delivered fd (u_trace s)) @ ?d"
        by (simp add: delivered_def)
      have "ush (wc_loop fuel fd (fold wc_char ?d st)) (wc_post fd) ?u"
      proof (rule Suc.IH)
        assume "int (length (concat (delivered fd (u_trace ?u)))) < 2 ^ 31"
        then have b: "int (length (concat (delivered fd (u_trace s)))) + int (length ?d) < 2 ^ 31"
          unfolding d by simp
        then have "st = wc_ref (concat (delivered fd (u_trace s)))"
          by (intro Suc.prems(3)) simp
        then show "fold wc_char ?d st = wc_ref (concat (delivered fd (u_trace ?u)))"
          unfolding d using fold_wc_ref [OF b] by simp
      qed (use w Suc.prems(1) Cons in simp_all)
      then show ?thesis
        using 1 Cons q by (simp add: u_read_def)
    next
      case 2
      have f: "u_format (str ''wc: read error\<newline>'') False [] = Some (str ''wc: read error\<newline>'')"
        by code_simp
      show ?thesis
        using 2 Cons q by (auto simp: u_read_def wc_post_def split: option.split intro!: ush_mono [OF ush_printf [OF f]])
    next
      case 3
      then have "delivered fd (u_trace ?u) = delivered fd (u_trace s)"
        by (simp add: delivered_def)
      then show ?thesis
        using 3 Cons q w Suc.prems(3) by (auto simp: u_read_def wc_post_def)
    qed
  qed
qed simp

text \<open>C27: Whatever the kernel answers, \<^verbatim>\<open>wc\<close> ends or stops at a system call, and a run that ends has printed the
  numbers of lines, words and characters of everything that was read, however the input was
  divided among the reads.\<close>

theorem wc_counts_input:
  fixes s :: "'a ustate_scheme"
  assumes "u_trace s = []"
  shows "ush (wc fd name) (\<lambda>r t. \<forall>bs. bs = concat (delivered fd (u_trace t)) \<longrightarrow> int (length bs) < 2 ^ 31 \<longrightarrow>
    r = Some () \<longrightarrow> written 1 (u_trace t) = wc_report bs name) s"
proof -
  define R :: "unit option \<Rightarrow> 'a ustate_scheme \<Rightarrow> bool" where
    "R = (\<lambda>r t. \<forall>bs. bs = concat (delivered fd (u_trace t)) \<longrightarrow> int (length bs) < 2 ^ 31 \<longrightarrow>
    r = Some () \<longrightarrow> written 1 (u_trace t) = wc_report bs name)"
  have R_None: "R None t" for t
    by (simp add: R_def)
  have loop: "ush (wc_loop (Suc (length (u_rets s))) fd (0, 0, 0, False)) (wc_post fd) s"
    by (rule wc_loop_ok) (use assms in \<open>simp_all add: written_def delivered_def wc_ref_def lines_of_def words_of_def\<close>)
  have pr: "ush (u_printf 1 (str ''%d %d %d %s\<newline>'') [CInt l, CInt w, CInt c, CStr (Some name)]) R t"
    if p: "wc_post fd (Some (l, w, c, b)) t" for l w c b and t :: "'a ustate_scheme"
  proof (rule ush_mono [OF ush_printf [OF wc_format, of _ l w c name t]])
    fix r u
    assume "puts 1 (u_int_chars l 10 True @ [32] @ u_int_chars w 10 True @ [32] @ u_int_chars c 10 True @ [32] @ name @ [10]) t r u"
    from puts_trace [OF this, of fd] show "R r u"
      using p by (auto simp: R_def wc_post_def wc_ref_def wc_report_def)
  qed
  have "ush (wc_loop (Suc (length (u_rets s))) fd (0, 0, 0, False)) (\<lambda>r t. case r of None \<Rightarrow> R None t
      | Some (l, w, c, b) \<Rightarrow> ush (u_printf 1 (str ''%d %d %d %s\<newline>'') [CInt l, CInt w, CInt c, CStr (Some name)]) R t) s"
    by (rule ush_mono [OF loop]) (auto simp: R_None intro: pr split: option.split)
  then have "ush (kbind (wc_loop (Suc (length (u_rets s))) fd (0, 0, 0, False)) (\<lambda>(l, w, c, inword).
      u_printf 1 (str ''%d %d %d %s\<newline>'') [CInt l, CInt w, CInt c, CStr (Some name)])) R s"
    by (simp only: ush_simps(1) case_prod_beta)
  then show ?thesis
    unfolding R_def ush_def wc_def .
qed

definition wc_demo :: ustate where
  "wc_demo = \<lparr>u_rets = [(3, str ''a b''), (2, str ''b\<newline>''), (0, [])] @ replicate 7 (1, []), u_trace = []\<rparr>"

theorem wc_counts_input_witness:
  "\<exists>t. wc 0 [] wc_demo = Ret () t \<and> concat (delivered 0 (u_trace t)) = str ''a bb\<newline>'' \<and>
     written 1 (u_trace t) = wc_report (str ''a bb\<newline>'') [] \<and> wc_report (str ''a bb\<newline>'') [] = str ''1 2 5 \<newline>''"
proof -
  have run: "(case wc 0 [] wc_demo of Ret _ t \<Rightarrow> concat (delivered 0 (u_trace t)) = str ''a bb\<newline>'' | _ \<Rightarrow> False)"
    by code_simp
  then obtain t where t: "wc 0 [] wc_demo = Ret () t" "concat (delivered 0 (u_trace t)) = str ''a bb\<newline>''"
    by (auto split: out.splits)
  have r: "wc_report (str ''a bb\<newline>'') [] = str ''1 2 5 \<newline>''"
    by code_simp
  have l: "int (length (str ''a bb\<newline>'')) < 2 ^ 31"
    by (simp add: str_def)
  have "u_trace wc_demo = []"
    by (simp add: wc_demo_def)
  from wc_counts_input [OF this, of 0 "[]", unfolded ush_def t(1) out.case, rule_format, OF t(2) [symmetric] l refl]
  show ?thesis
    using t r by (intro exI [of _ t] conjI)
qed

end
