(* ===== verification/User_Sh.thy ===== *)
theory User_Sh
  imports User_Progs
begin

text \<open>
  The shell, \<^verbatim>\<open>sh.c\<close>.  The parser works on the positions of the input line; a word is the pair of
  positions that the source keeps in \<^verbatim>\<open>argv\<close> and \<^verbatim>\<open>eargv\<close>.  The line is the list of its bytes without the
  NUL at its end; the character there is 0.  The nodes of a command, which the source allocates with \<^verbatim>\<open>malloc\<close>,
  are a datatype; a parser that panics gives the message.  The theorems relate the parser to the
  grammar of command lines and the strings that commands are run with to the words of the line.
\<close>

section \<open>Commands\<close>

datatype 'w cmd =
    EXEC "'w list"
  | REDIR "'w cmd" 'w int int
  | PIPE "'w cmd" "'w cmd"
  | LIST "'w cmd" "'w cmd"
  | BACK "'w cmd"

text \<open>The functions that make the nodes.\<close>

definition execcmd :: "'w cmd" where "execcmd = EXEC []"

definition redircmd :: "'w cmd \<Rightarrow> 'w \<Rightarrow> int \<Rightarrow> int \<Rightarrow> 'w cmd" where
  "redircmd subcmd w mode fd = REDIR subcmd w mode fd"

definition pipecmd :: "'w cmd \<Rightarrow> 'w cmd \<Rightarrow> 'w cmd" where "pipecmd l r = PIPE l r"

definition listcmd :: "'w cmd \<Rightarrow> 'w cmd \<Rightarrow> 'w cmd" where "listcmd l r = LIST l r"

definition backcmd :: "'w cmd \<Rightarrow> 'w cmd" where "backcmd c = BACK c"

lemmas cmd_nodes [simp] = execcmd_def redircmd_def pipecmd_def listcmd_def backcmd_def

type_synonym span = "nat \<times> nat"

definition MAXARGS :: nat where "MAXARGS = 10"

definition sh_panic :: "bytes \<Rightarrow> ('a ustate_scheme, 'b) kop" where
  "sh_panic msg = kbind (u_printf 2 (str ''%s\<newline>'') [CStr (Some msg)]) (\<lambda>_. u_exit)"

definition fork1 :: "('a ustate_scheme, int) kop" where
  "fork1 = kbind (usys_int U_fork) (\<lambda>pid. if pid = - 1 then sh_panic (str ''fork'') else kret pid)"

text \<open>
  \<^verbatim>\<open>runcmd\<close>; the words are the strings that the pointers of the command lead to.  Both ends of a pipe
  arrive in the 8 bytes that \<^verbatim>\<open>pipe\<close> stores.
\<close>

definition pipe_fd :: "bytes \<Rightarrow> nat \<Rightarrow> int" where
  "pipe_fd d i = s32 (int (get32 d (4 * i)))"

primrec runcmd :: "bytes cmd \<Rightarrow> ('a ustate_scheme, unit) kop" where
  "runcmd (EXEC argv) =
     (case argv of
        [] \<Rightarrow> u_exit
      | arg0 # _ \<Rightarrow>
          kseq (u_do (U_exec arg0 argv))
          (kseq (u_printf 2 (str ''exec %s failed\<newline>'') [CStr (Some arg0)])
          u_exit))"
| "runcmd (REDIR c path mode fd) =
     kseq (u_do (U_close fd))
     (kbind (usys_int (U_open path mode)) (\<lambda>r.
     kseq (kwhen (r < 0) (kseq (u_printf 2 (str ''open %s failed\<newline>'') [CStr (Some path)]) u_exit))
     (kseq (runcmd c)
     u_exit)))"
| "runcmd (LIST l r) =
     kbind fork1 (\<lambda>pid.
     kseq (kwhen (pid = 0) (runcmd l))
     (kseq (u_do U_wait)
     (kseq (runcmd r)
     u_exit)))"
| "runcmd (PIPE l r) =
     kbind (usys U_pipe) (\<lambda>(res, d).
     kseq (kwhen (res < 0) (sh_panic (str ''pipe'')))
     (kbind fork1 (\<lambda>pid1.
     kseq (kwhen (pid1 = 0)
       (kseq (u_do (U_close 1))
       (kseq (u_do (U_dup (pipe_fd d 1)))
       (kseq (u_do (U_close (pipe_fd d 0)))
       (kseq (u_do (U_close (pipe_fd d 1)))
       (runcmd l))))))
     (kbind fork1 (\<lambda>pid2.
     kseq (kwhen (pid2 = 0)
       (kseq (u_do (U_close 0))
       (kseq (u_do (U_dup (pipe_fd d 0)))
       (kseq (u_do (U_close (pipe_fd d 0)))
       (kseq (u_do (U_close (pipe_fd d 1)))
       (runcmd r))))))
     (kseq (u_do (U_close (pipe_fd d 0)))
     (kseq (u_do (U_close (pipe_fd d 1)))
     (kseq (u_do U_wait)
     (kseq (u_do U_wait)
     u_exit)))))))))"
| "runcmd (BACK c) =
     kbind fork1 (\<lambda>pid.
     kseq (kwhen (pid = 0) (runcmd c))
     u_exit)"

section \<open>Tokens\<close>

definition sh_white :: "u8 \<Rightarrow> bool" where
  "sh_white c \<longleftrightarrow> c \<in> {32, 9, 13, 10, 11}"

definition sh_symbol :: "u8 \<Rightarrow> bool" where
  "sh_symbol c \<longleftrightarrow> c \<in> set (str ''<|>&;()'')"

definition sh_plain :: "u8 \<Rightarrow> bool" where
  "sh_plain c \<longleftrightarrow> \<not> sh_white c \<and> \<not> sh_symbol c"

definition char_at :: "bytes \<Rightarrow> nat \<Rightarrow> u8" where
  "char_at buf p = (if p < length buf then buf ! p else 0)"

definition skip_while :: "(u8 \<Rightarrow> bool) \<Rightarrow> bytes \<Rightarrow> nat \<Rightarrow> nat" where
  "skip_while P buf p = p + length (takeWhile P (drop p buf))"

definition scan_tok :: "bytes \<Rightarrow> nat \<Rightarrow> u8 \<times> nat" where
  "scan_tok buf s =
     (let c = char_at buf s in
      if c = 0 then (0, s)
      else if c \<in> set (str ''|();&<'') then (c, s + 1)
      else if c = 62 then (if char_at buf (s + 1) = 62 then (43, s + 2) else (62, s + 1))
      else (97, skip_while sh_plain buf s))"

text \<open>The token, where it starts, where it ends, and where the next one may start.\<close>

definition gettoken :: "bytes \<Rightarrow> nat \<Rightarrow> u8 \<times> nat \<times> nat \<times> nat" where
  "gettoken buf p =
     (let q = skip_while sh_white buf p;
          (ret, eq) = scan_tok buf q
      in (ret, q, eq, skip_while sh_white buf eq))"

definition peek_tok :: "bytes \<Rightarrow> nat \<Rightarrow> bytes \<Rightarrow> nat \<times> bool" where
  "peek_tok buf p toks =
     (let q = skip_while sh_white buf p in (q, char_at buf q \<noteq> 0 \<and> char_at buf q \<in> set toks))"

lemma sh_chars:
  "set (str ''|();&<'') = {124, 40, 41, 59, 38, 60}" "set (str ''<|>&;()'') = {60, 124, 62, 38, 59, 40, 41}"
  "str ''<>'' = [60, 62]" "str ''|)&;'' = [124, 41, 38, 59]" "str ''&'' = [38]" "str '';'' = [59]" "str ''|'' = [124]"
  "str ''('' = [40]" "str '')'' = [41]"
  by (auto simp: str_def)

lemma skip_while_bounds: "p \<le> skip_while P buf p" "p \<le> length buf \<Longrightarrow> skip_while P buf p \<le> length buf"
  using length_takeWhile_le [of P "drop p buf"] by (auto simp: skip_while_def)

lemma skip_while_stop: "skip_while P buf p < length buf \<Longrightarrow> \<not> P (buf ! skip_while P buf p)"
  unfolding skip_while_def using nth_length_takeWhile [of P "drop p buf"] by (simp add: add.commute)

lemma skip_while_advance: "p < length buf \<Longrightarrow> P (buf ! p) \<Longrightarrow> p < skip_while P buf p"
  by (simp add: skip_while_def Cons_nth_drop_Suc [symmetric])

lemma gettoken_bounds:
  assumes "gettoken buf p = (ret, q, eq, p')"
  shows "p \<le> q" "q \<le> eq" "eq \<le> p'" "ret \<noteq> 0 \<Longrightarrow> q < eq" "p \<le> length buf \<Longrightarrow> p' \<le> length buf"
proof -
  have q: "q = skip_while sh_white buf p" and p': "p' = skip_while sh_white buf eq"
    and r: "scan_tok buf q = (ret, eq)"
    using assms by (auto simp: gettoken_def Let_def split: prod.splits)
  show "p \<le> q" "eq \<le> p'"
    unfolding q p' by (rule skip_while_bounds)+
  have adv: "q < skip_while sh_plain buf q" if "char_at buf q \<noteq> 0" "char_at buf q \<notin> set (str ''|();&<'')" "char_at buf q \<noteq> 62"
  proof -
    have l: "q < length buf"
      using that by (auto simp: char_at_def split: if_splits)
    then have "\<not> sh_white (buf ! q)"
      using skip_while_stop unfolding q by blast
    then have "sh_plain (buf ! q)"
      using that l by (auto simp: sh_plain_def sh_symbol_def char_at_def sh_chars)
    then show ?thesis
      by (rule skip_while_advance [OF l])
  qed
  then show "q \<le> eq" "ret \<noteq> 0 \<Longrightarrow> q < eq"
    using r by (auto simp: scan_tok_def Let_def split: if_splits)
  assume "p \<le> length buf"
  then have ql: "q \<le> length buf"
    unfolding q by (rule skip_while_bounds)
  then have "eq \<le> length buf"
    using r skip_while_bounds(2) [OF ql] by (auto simp: scan_tok_def Let_def char_at_def split: if_splits)
  then show "p' \<le> length buf"
    unfolding p' by (rule skip_while_bounds)
qed

lemma peek_tok_bounds:
  assumes "peek_tok buf p cs = (q, b)"
  shows "p \<le> q" "p \<le> length buf \<Longrightarrow> q \<le> length buf" "b \<Longrightarrow> q < length buf"
    "b \<Longrightarrow> gettoken buf q = (ret, q', eq, p') \<Longrightarrow> ret \<noteq> 0 \<and> q' = q"
proof -
  have q: "q = skip_while sh_white buf p" and c: "b \<Longrightarrow> char_at buf q \<noteq> 0"
    using assms by (auto simp: peek_tok_def Let_def)
  show "p \<le> q" "p \<le> length buf \<Longrightarrow> q \<le> length buf"
    unfolding q by (rule skip_while_bounds, assumption?)+
  show l: "q < length buf" if b
    using c [OF that] by (auto simp: char_at_def split: if_splits)
  assume b: b and g: "gettoken buf q = (ret, q', eq, p')"
  have "\<not> sh_white (buf ! q)"
    using skip_while_stop l [OF b] unfolding q by blast
  then have "skip_while sh_white buf q = q"
    using l [OF b] by (simp add: skip_while_def Cons_nth_drop_Suc [symmetric])
  then show "ret \<noteq> 0 \<and> q' = q"
    using g c [OF b] by (auto simp: gettoken_def scan_tok_def Let_def split: prod.splits if_splits)
qed

lemma peek_advances:
  assumes "peek_tok buf p cs = (p1, b)" "gettoken buf p1 = (t, q, eq, p2)" "b"
  shows "p < p2 \<and> p1 < p2 \<and> p < length buf \<and> p2 \<le> length buf \<and> q = p1"
  using peek_tok_bounds [OF assms(1)] peek_tok_bounds(4) [OF assms(1) _ assms(2)] gettoken_bounds [OF assms(2)] assms(3) by auto

lemma redirs_advance:
  assumes "(p1, b) = peek_tok buf p cs" "(tok, x, y, p2) = gettoken buf p1" "(a, q, eq, p3) = gettoken buf p2" "b"
  shows "length buf - p3 < length buf - p"
  using peek_advances [OF assms(1,2) [symmetric] assms(4)] gettoken_bounds [OF assms(3) [symmetric]] by auto

section \<open>The parser\<close>

datatype 'a parsed = POk 'a nat | PErr bytes

function parseredirs :: "bytes \<Rightarrow> span cmd \<Rightarrow> nat \<Rightarrow> span cmd parsed" where
  "parseredirs buf cmd p =
     (case peek_tok buf p (str ''<>'') of
        (p1, False) \<Rightarrow> POk cmd p1
      | (p1, True) \<Rightarrow>
          (case gettoken buf p1 of (tok, _, _, p2) \<Rightarrow>
          (case gettoken buf p2 of (a, q, eq, p3) \<Rightarrow>
           if a \<noteq> 97 then PErr (str ''missing file for redirection'')
           else if tok = 60 then parseredirs buf (redircmd cmd (q, eq) O_RDONLY_u 0) p3
           else if tok = 62 then parseredirs buf (redircmd cmd (q, eq) (1 + O_CREATE_u) 1) p3
           else if tok = 43 then parseredirs buf (redircmd cmd (q, eq) (1 + O_CREATE_u) 1) p3
           else parseredirs buf cmd p3)))"
  by pat_completeness auto
termination
  by (relation "measure (\<lambda>(buf, cmd, p). length buf - p)") (auto dest: redirs_advance)

declare parseredirs.simps [simp del]

text \<open>\<^verbatim>\<open>backcmd\<close> for every \<^verbatim>\<open>&\<close>.\<close>

function parse_backs :: "bytes \<Rightarrow> span cmd \<Rightarrow> nat \<Rightarrow> span cmd \<times> nat" where
  "parse_backs buf cmd p =
     (case peek_tok buf p (str ''&'') of
        (p1, False) \<Rightarrow> (cmd, p1)
      | (p1, True) \<Rightarrow> (case gettoken buf p1 of (_, _, _, p2) \<Rightarrow> parse_backs buf (backcmd cmd) p2))"
  by pat_completeness auto
termination
  by (relation "measure (\<lambda>(buf, cmd, p). length buf - p)") (auto dest!: peek_advances [OF sym sym])

declare parse_backs.simps [simp del]

text \<open>\<^verbatim>\<open>parseexec\<close> fills in the \<^verbatim>\<open>argv\<close> of the command at the bottom of the redirections it has made around it.\<close>

primrec add_arg :: "'w \<Rightarrow> 'w cmd \<Rightarrow> 'w cmd" where
  "add_arg w (EXEC argv) = EXEC (argv @ [w])"
| "add_arg w (REDIR c f m d) = REDIR (add_arg w c) f m d"
| "add_arg w (PIPE l r) = PIPE l r"
| "add_arg w (LIST l r) = LIST l r"
| "add_arg w (BACK c) = BACK c"

function parse_args :: "bytes \<Rightarrow> span cmd \<Rightarrow> nat \<Rightarrow> nat \<Rightarrow> span cmd parsed" where
  "parse_args buf ret argc p =
     (case peek_tok buf p (str ''|)&;'') of
        (p1, True) \<Rightarrow> POk ret p1
      | (p1, False) \<Rightarrow>
          (case gettoken buf p1 of (tok, q, eq, p2) \<Rightarrow>
           if tok = 0 then POk ret p2
           else if tok \<noteq> 97 then PErr (str ''syntax'')
           else if argc + 1 \<ge> MAXARGS then PErr (str ''too many args'')
           else
             (case parseredirs buf (add_arg (q, eq) ret) p2 of
                PErr e \<Rightarrow> PErr e
              | POk ret' p3 \<Rightarrow> parse_args buf ret' (argc + 1) p3)))"
  by pat_completeness auto
termination
  by (relation "measure (\<lambda>(buf, ret, argc, p). MAXARGS - argc)") auto

declare parse_args.simps [simp del]

text \<open>The mutually recursive parsers, with a bound on the depth of the recursion; \<open>None\<close> when it is reached.\<close>

fun parseline :: "nat \<Rightarrow> bytes \<Rightarrow> nat \<Rightarrow> span cmd parsed option"
  and parsepipe :: "nat \<Rightarrow> bytes \<Rightarrow> nat \<Rightarrow> span cmd parsed option"
  and parseblock :: "nat \<Rightarrow> bytes \<Rightarrow> nat \<Rightarrow> span cmd parsed option"
  and parseexec :: "nat \<Rightarrow> bytes \<Rightarrow> nat \<Rightarrow> span cmd parsed option" where
  "parseline 0 buf p = None"
| "parseline (Suc n) buf p =
     (case parsepipe n buf p of
        Some (POk cmd p1) \<Rightarrow>
          (case parse_backs buf cmd p1 of (cmd, p2) \<Rightarrow>
          (case peek_tok buf p2 (str '';'') of
             (p3, False) \<Rightarrow> Some (POk cmd p3)
           | (p3, True) \<Rightarrow>
               (case gettoken buf p3 of (_, _, _, p4) \<Rightarrow>
               (case parseline n buf p4 of
                  Some (POk rest p5) \<Rightarrow> Some (POk (listcmd cmd rest) p5)
                | r \<Rightarrow> r))))
      | r \<Rightarrow> r)"
| "parsepipe 0 buf p = None"
| "parsepipe (Suc n) buf p =
     (case parseexec n buf p of
        Some (POk cmd p1) \<Rightarrow>
          (case peek_tok buf p1 (str ''|'') of
             (p2, False) \<Rightarrow> Some (POk cmd p2)
           | (p2, True) \<Rightarrow>
               (case gettoken buf p2 of (_, _, _, p3) \<Rightarrow>
               (case parsepipe n buf p3 of
                  Some (POk rest p4) \<Rightarrow> Some (POk (pipecmd cmd rest) p4)
                | r \<Rightarrow> r)))
      | r \<Rightarrow> r)"
| "parseblock 0 buf p = None"
| "parseblock (Suc n) buf p =
     (case peek_tok buf p (str ''('') of
        (p1, False) \<Rightarrow> Some (PErr (str ''parseblock''))
      | (p1, True) \<Rightarrow>
          (case gettoken buf p1 of (_, _, _, p2) \<Rightarrow>
          (case parseline n buf p2 of
             Some (POk cmd p3) \<Rightarrow>
               (case peek_tok buf p3 (str '')'') of
                  (p4, False) \<Rightarrow> Some (PErr (str ''syntax - missing )''))
                | (p4, True) \<Rightarrow> (case gettoken buf p4 of (_, _, _, p5) \<Rightarrow> Some (parseredirs buf cmd p5)))
           | r \<Rightarrow> r)))"
| "parseexec 0 buf p = None"
| "parseexec (Suc n) buf p =
     (case peek_tok buf p (str ''('') of
        (p1, True) \<Rightarrow> parseblock n buf p1
      | (p1, False) \<Rightarrow>
          (case parseredirs buf execcmd p1 of
             PErr e \<Rightarrow> Some (PErr e)
           | POk ret p2 \<Rightarrow> Some (parse_args buf ret 0 p2)))"

text \<open>Putting the NULs behind the words, and the strings that are then found at their beginnings.\<close>

primrec nulterminate :: "span cmd \<Rightarrow> bytes \<Rightarrow> bytes" where
  "nulterminate (EXEC argv) m = foldl (\<lambda>m w. m[snd w := 0]) m argv"
| "nulterminate (REDIR c w mode fd) m = (nulterminate c m)[snd w := 0]"
| "nulterminate (PIPE l r) m = nulterminate r (nulterminate l m)"
| "nulterminate (LIST l r) m = nulterminate r (nulterminate l m)"
| "nulterminate (BACK c) m = nulterminate c m"

definition string_at :: "bytes \<Rightarrow> nat \<Rightarrow> bytes" where
  "string_at m p = takeWhile (\<lambda>c. c \<noteq> 0) (drop p m)"

definition parse_depth :: "bytes \<Rightarrow> nat" where
  "parse_depth buf = 4 * length buf + 4"

definition parsecmd :: "bytes \<Rightarrow> ('a ustate_scheme, bytes cmd) kop" where
  "parsecmd buf =
     (case parseline (parse_depth buf) buf 0 of
        None \<Rightarrow> khang
      | Some (PErr e) \<Rightarrow> sh_panic e
      | Some (POk cmd p) \<Rightarrow>
          (let p1 = fst (peek_tok buf p []) in
           if p1 \<noteq> length buf then
             kbind (u_printf 2 (str ''leftovers: %s\<newline>'') [CStr (Some (drop p1 buf))]) (\<lambda>_. sh_panic (str ''syntax''))
           else kret (map_cmd (\<lambda>w. string_at (nulterminate cmd (buf @ [0])) (fst w)) cmd)))"

section \<open>The main program\<close>

definition getcmd :: "int \<Rightarrow> ('a ustate_scheme, int \<times> bytes) kop" where
  "getcmd nbuf =
     kseq (u_printf 2 (str ''$ '') [])
     (kbind (gets nbuf) (\<lambda>line.
     (let buf = takeWhile (\<lambda>c. c \<noteq> 0) line
      in kret (if buf = [] then - 1 else 0, buf))))"

primrec sh_console :: "nat \<Rightarrow> ('a ustate_scheme, unit) kop" where
  "sh_console 0 = khang"
| "sh_console (Suc fuel) =
     kbind (usys_int (U_open (str ''console'') O_RDWR_u)) (\<lambda>fd.
     if fd < 0 then kskip
     else if fd \<ge> 3 then u_do (U_close fd)
     else sh_console fuel)"

primrec sh_loop :: "nat \<Rightarrow> ('a ustate_scheme, unit) kop" where
  "sh_loop 0 = khang"
| "sh_loop (Suc fuel) =
     kbind (getcmd 100) (\<lambda>(r, buf).
     if r < 0 then kskip
     else if take 3 buf = str ''cd '' then
       (let dir = drop 3 (butlast buf) in
        kbind (usys_int (U_chdir dir)) (\<lambda>c.
        kseq (kwhen (c < 0) (u_printf 2 (str ''cannot cd %s\<newline>'') [CStr (Some dir)]))
        (sh_loop fuel)))
     else
       kbind fork1 (\<lambda>pid.
       kseq (kwhen (pid = 0) (kbind (parsecmd buf) runcmd))
       (kseq (u_do U_wait)
       (sh_loop fuel))))"

definition sh_main :: "('a ustate_scheme, 'b) kop" where
  "sh_main =
     kseq (\<lambda>s. sh_console (Suc (length (u_rets s))) s)
     (kseq (\<lambda>s. sh_loop (Suc (length (u_rets s))) s)
     u_exit)"

section \<open>The grammar\<close>

text \<open>The tokens of a line.\<close>

datatype tok = TSym u8 | TApp | TWord bytes

function toks :: "bytes \<Rightarrow> tok list" where
  "toks [] = []"
| "toks (c # cs) =
     (if sh_white c then toks cs
      else if c = 62 \<and> take 1 cs = [62] then TApp # toks (drop 1 cs)
      else if sh_symbol c then TSym c # toks cs
      else TWord (c # takeWhile sh_plain cs) # toks (dropWhile sh_plain cs))"
  by pat_completeness auto
termination
  by (relation "measure length") (auto simp: less_Suc_eq_le length_dropWhile_le)

text \<open>The parts of a simple command: words and redirections.\<close>

datatype item = IWord bytes | IIn bytes | IOut bytes | IApp bytes

fun is_word :: "item \<Rightarrow> bool" where
  "is_word (IWord w) = True"
| "is_word _ = False"

primrec item_toks :: "item \<Rightarrow> tok list" where
  "item_toks (IWord w) = [TWord w]"
| "item_toks (IIn f) = [TSym 60, TWord f]"
| "item_toks (IOut f) = [TSym 62, TWord f]"
| "item_toks (IApp f) = [TApp, TWord f]"

primrec apply_item :: "item \<Rightarrow> bytes cmd \<Rightarrow> bytes cmd" where
  "apply_item (IWord w) c = add_arg w c"
| "apply_item (IIn f) c = REDIR c f O_RDONLY_u 0"
| "apply_item (IOut f) c = REDIR c f (1 + O_CREATE_u) 1"
| "apply_item (IApp f) c = REDIR c f (1 + O_CREATE_u) 1"

abbreviation items_toks :: "item list \<Rightarrow> tok list" where
  "items_toks xs \<equiv> concat (map item_toks xs)"

abbreviation apply_items :: "item list \<Rightarrow> bytes cmd \<Rightarrow> bytes cmd" where
  "apply_items xs c \<equiv> fold apply_item xs c"

inductive g_line :: "tok list \<Rightarrow> bytes cmd \<Rightarrow> bool"
  and g_pipe :: "tok list \<Rightarrow> bytes cmd \<Rightarrow> bool"
  and g_exec :: "tok list \<Rightarrow> bytes cmd \<Rightarrow> bool" where
  line_last: "g_pipe ts c \<Longrightarrow> g_line (ts @ replicate k (TSym 38)) ((BACK ^^ k) c)"
| line_seq: "g_pipe ts c \<Longrightarrow> g_line us d \<Longrightarrow> g_line (ts @ replicate k (TSym 38) @ TSym 59 # us) (LIST ((BACK ^^ k) c) d)"
| pipe_last: "g_exec ts c \<Longrightarrow> g_pipe ts c"
| pipe_seq: "g_exec ts c \<Longrightarrow> g_pipe us d \<Longrightarrow> g_pipe (ts @ TSym 124 # us) (PIPE c d)"
| exec_simple: "length (filter is_word xs) < MAXARGS \<Longrightarrow> g_exec (items_toks xs) (apply_items xs (EXEC []))"
| exec_block: "g_line ts c \<Longrightarrow> filter is_word rs = [] \<Longrightarrow> g_exec (TSym 40 # ts @ TSym 41 # items_toks rs) (apply_items rs c)"

section \<open>Tokens and positions\<close>

definition word_of :: "bytes \<Rightarrow> span \<Rightarrow> bytes" where
  "word_of buf w = take (snd w - fst w) (drop (fst w) buf)"

text \<open>A pair of positions around a word: nothing in it, and something or the end behind it, separates words.\<close>

definition span_ok :: "bytes \<Rightarrow> span \<Rightarrow> bool" where
  "span_ok buf w \<longleftrightarrow> fst w < snd w \<and> snd w \<le> length buf \<and> (\<forall>i. fst w \<le> i \<and> i < snd w \<longrightarrow> sh_plain (buf ! i)) \<and>
     (snd w < length buf \<longrightarrow> \<not> sh_plain (buf ! snd w))"

lemma drop_skip_while: "drop (skip_while P buf p) buf = dropWhile P (drop p buf)"
  by (simp add: skip_while_def dropWhile_eq_drop add.commute)

lemma toks_white: "toks (dropWhile sh_white cs) = toks cs"
  by (induction cs) auto

lemma toks_skip [simp]: "toks (drop (skip_while sh_white buf p) buf) = toks (drop p buf)"
  by (simp add: drop_skip_while toks_white)

definition tok_of :: "bytes \<Rightarrow> u8 \<Rightarrow> span \<Rightarrow> tok" where
  "tok_of buf ret w = (if ret = 97 then TWord (word_of buf w) else if ret = 43 then TApp else TSym ret)"

lemma gettoken_toks:
  assumes z: "0 \<notin> set buf" and g: "gettoken buf p = (ret, q, eq, p')" and p: "p \<le> length buf"
  shows "toks (drop p buf) = (if ret = 0 then [] else tok_of buf ret (q, eq) # toks (drop p' buf))"
    "ret = 0 \<Longrightarrow> toks (drop p' buf) = []" "ret = 97 \<Longrightarrow> span_ok buf (q, eq)" "ret \<notin> {0, 43, 97} \<Longrightarrow> sh_symbol ret"
proof -
  have q: "q = skip_while sh_white buf p" and p': "p' = skip_while sh_white buf eq"
    and r: "scan_tok buf q = (ret, eq)"
    using g by (auto simp: gettoken_def Let_def split: prod.splits)
  have ql: "q \<le> length buf"
    unfolding q by (rule skip_while_bounds(2) [OF p])
  have tp: "toks (drop p buf) = toks (drop q buf)" "toks (drop p' buf) = toks (drop eq buf)"
    unfolding q p' by simp_all
  have all: "toks (drop q buf) = (if ret = 0 then [] else tok_of buf ret (q, eq) # toks (drop eq buf)) \<and>
    (ret = 0 \<longrightarrow> toks (drop eq buf) = []) \<and> (ret = 97 \<longrightarrow> span_ok buf (q, eq)) \<and> (ret \<notin> {0, 43, 97} \<longrightarrow> sh_symbol ret)"
  proof (cases "q < length buf")
    case False
    then have "scan_tok buf q = (0, q)" "drop q buf = []"
      by (simp_all add: scan_tok_def char_at_def)
    then show ?thesis
      using r by auto
  next
    case True
    define c where "c = buf ! q"
    have d: "drop q buf = c # drop (Suc q) buf" and ch: "char_at buf q = c"
      using True by (simp_all add: c_def Cons_nth_drop_Suc char_at_def)
    have c: "c \<noteq> 0" "\<not> sh_white c"
      using z True skip_while_stop [of sh_white buf p] nth_mem [OF True] unfolding c_def q by metis+
    have gt: "take 1 (drop (Suc q) buf) = [62] \<longleftrightarrow> char_at buf (q + 1) = 62"
      by (cases "Suc q < length buf") (simp_all add: char_at_def Cons_nth_drop_Suc [symmetric])
    consider "c \<in> {124, 40, 41, 59, 38, 60}" | "c = 62" | "\<not> sh_symbol c"
      by (auto simp: sh_symbol_def sh_chars)
    then show ?thesis
    proof cases
      case 1
      then have "ret = c" "eq = q + 1" "sh_symbol c" "c \<noteq> 62" "c \<noteq> 43" "c \<noteq> 97"
        using r c unfolding scan_tok_def ch by (auto simp: sh_chars sh_symbol_def)
      then show ?thesis
        using c by (simp add: d tok_of_def)
    next
      case 2
      then have "(ret, eq) = (if char_at buf (q + 1) = 62 then (43, q + 2) else (62, q + 1))" "sh_symbol c" "\<not> sh_white c"
        using r c unfolding scan_tok_def ch by (simp_all add: sh_chars sh_symbol_def)
      then show ?thesis
        using 2 by (auto simp: d tok_of_def gt simp del: One_nat_def split: if_splits) simp_all
    next
      case 3
      then have nc: "c \<notin> {124, 40, 41, 59, 38, 60}" and c62: "c \<noteq> 62" and pl: "sh_plain c"
        using c by (simp_all add: sh_symbol_def sh_chars sh_plain_def)
      have "scan_tok buf q = (97, skip_while sh_plain buf q)"
        unfolding scan_tok_def ch sh_chars using nc c62 c(1) by simp
      then have r1: "ret = 97" "eq = skip_while sh_plain buf q"
        using r by simp_all
      have e: "eq = q + length (takeWhile sh_plain (drop q buf))" "eq \<le> length buf"
        using r1(2) skip_while_bounds(2) [OF ql] by (simp_all add: skip_while_def)
      have w: "word_of buf (q, eq) = takeWhile sh_plain (drop q buf)"
        unfolding word_of_def e by (simp flip: takeWhile_eq_take)
      have dw: "drop eq buf = dropWhile sh_plain (drop q buf)"
        unfolding r1(2) by (rule drop_skip_while)
      have sp: "span_ok buf (q, eq)"
        unfolding span_ok_def
      proof (intro conjI allI impI)
        show "fst (q, eq) < snd (q, eq)"
          using e pl by (simp add: d)
        show "\<not> sh_plain (buf ! snd (q, eq))" if "snd (q, eq) < length buf"
          using skip_while_stop [of sh_plain buf q] that r1(2) by simp
        show "sh_plain (buf ! i)" if "fst (q, eq) \<le> i \<and> i < snd (q, eq)" for i
        proof -
          have i: "i - q < length (takeWhile sh_plain (drop q buf))" "q \<le> i"
            using that e(1) by auto
          then have "takeWhile sh_plain (drop q buf) ! (i - q) = buf ! i"
            using ql by (simp add: takeWhile_nth)
          then show ?thesis
            using i(1) by (metis nth_mem set_takeWhileD)
        qed
      qed (use e in simp)
      show ?thesis
        using sp c 3 pl c62 unfolding r1(1) tok_of_def w dw by (simp add: d)
    qed
  qed
  then show "toks (drop p buf) = (if ret = 0 then [] else tok_of buf ret (q, eq) # toks (drop p' buf))"
    "ret = 0 \<Longrightarrow> toks (drop p' buf) = []" "ret = 97 \<Longrightarrow> span_ok buf (q, eq)" "ret \<notin> {0, 43, 97} \<Longrightarrow> sh_symbol ret"
    unfolding tp by blast+
qed

primrec starts :: "bytes \<Rightarrow> tok list \<Rightarrow> bool" where
  "starts cs [] = False"
| "starts cs (t # ts) = (case t of TSym c \<Rightarrow> c \<in> set cs | TApp \<Rightarrow> 62 \<in> set cs | TWord w \<Rightarrow> False)"

lemma starts_mono: "starts xs ts \<Longrightarrow> set xs \<subseteq> set ys \<Longrightarrow> starts ys ts"
  by (cases ts) (auto split: tok.splits)

lemma starts_disjoint: "ts = [] \<or> starts xs ts \<Longrightarrow> set xs \<inter> set ys = {} \<Longrightarrow> \<not> starts ys ts"
  by (cases ts) (auto split: tok.splits)

lemma peek_toks:
  assumes z: "0 \<notin> set buf" and g: "peek_tok buf p cs = (q, b)" and cs: "list_all sh_symbol cs"
  shows "toks (drop q buf) = toks (drop p buf)" "b = starts cs (toks (drop p buf))"
proof -
  have q: "q = skip_while sh_white buf p" and b: "b \<longleftrightarrow> char_at buf q \<noteq> 0 \<and> char_at buf q \<in> set cs"
    using g by (auto simp: peek_tok_def Let_def)
  show t: "toks (drop q buf) = toks (drop p buf)"
    unfolding q by simp
  have "b = starts cs (toks (drop q buf))"
  proof (cases "q < length buf")
    case False
    then show ?thesis
      by (simp add: b char_at_def)
  next
    case True
    have d: "drop q buf = buf ! q # drop (Suc q) buf"
      using True by (simp add: Cons_nth_drop_Suc)
    have "\<not> sh_white (buf ! q)" "buf ! q \<noteq> 0"
      using z True skip_while_stop [of sh_white buf p] nth_mem [OF True] unfolding q by metis+
    then show ?thesis
      using True cs by (auto simp: d b char_at_def list_all_iff)
  qed
  then show "b = starts cs (toks (drop p buf))"
    unfolding t .
qed

lemma sh_symbols [simp]: "sh_symbol 60" "sh_symbol 62" "sh_symbol 124" "sh_symbol 41" "sh_symbol 38" "sh_symbol 59" "sh_symbol 40"
  by (simp_all add: sh_symbol_def sh_chars)

lemma peek_strings:
  "list_all sh_symbol (str ''<>'')" "list_all sh_symbol (str ''|)&;'')" "list_all sh_symbol (str ''&'')" "list_all sh_symbol (str '';'')"
  "list_all sh_symbol (str ''|'')" "list_all sh_symbol (str ''('')" "list_all sh_symbol (str '')'')"
  by (simp_all add: sh_chars)

section \<open>The loops of the parser\<close>

definition redir_tok :: "u8 \<Rightarrow> tok" where
  "redir_tok t = (if t = 43 then TApp else TSym t)"

definition redir_item :: "u8 \<Rightarrow> bytes \<Rightarrow> item" where
  "redir_item t w = (if t = 60 then IIn w else if t = 62 then IOut w else IApp w)"

definition redir_cmd :: "u8 \<Rightarrow> span \<Rightarrow> span cmd \<Rightarrow> span cmd" where
  "redir_cmd t w c = (if t = 60 then REDIR c w O_RDONLY_u 0 else REDIR c w (1 + O_CREATE_u) 1)"

lemma redir_lemmas:
  "set_cmd (redir_cmd t w c) = insert w (set_cmd c)" "\<not> is_word (redir_item t v)"
  "t \<in> {60, 62, 43} \<Longrightarrow> item_toks (redir_item t v) = [redir_tok t, TWord v]"
  "t \<in> {60, 62, 43} \<Longrightarrow> map_cmd f (redir_cmd t w c) = apply_item (redir_item t (f w)) (map_cmd f c)"
  by (auto simp: redir_cmd_def redir_item_def redir_tok_def)

lemma redir_start:
  assumes z: "0 \<notin> set buf" and p: "p \<le> length buf" and st: "starts [60, 62] (toks (drop p buf))"
  shows "\<exists>p1 tok x y p2. peek_tok buf p (str ''<>'') = (p1, True) \<and> gettoken buf p1 = (tok, x, y, p2) \<and> tok \<in> {60, 62, 43} \<and>
    p < p2 \<and> p2 \<le> length buf \<and> toks (drop p buf) = redir_tok tok # toks (drop p2 buf)"
proof -
  obtain p1 b where pk: "peek_tok buf p (str ''<>'') = (p1, b)"
    by fastforce
  have tb: "toks (drop p1 buf) = toks (drop p buf)" b
    using peek_toks [OF z pk peek_strings(1)] st by (simp_all add: sh_chars)
  obtain tok x y p2 where g: "gettoken buf p1 = (tok, x, y, p2)"
    using prod_cases4 by blast
  have adv: "p < p2" "p2 \<le> length buf"
    using peek_advances [OF pk g tb(2)] by auto
  have p1: "p1 \<le> length buf"
    using peek_tok_bounds [OF pk] p by auto
  have h: "toks (drop p buf) = tok_of buf tok (x, y) # toks (drop p2 buf)"
    using gettoken_toks(1) [OF z g p1] st unfolding tb(1) by (auto split: if_splits)
  then have "tok \<in> {60, 62, 43}" "tok_of buf tok (x, y) = redir_tok tok"
    using st by (auto simp: tok_of_def redir_tok_def split: if_splits)
  then show ?thesis
    using pk g tb(2) adv h by auto
qed

lemma parseredirs_stop:
  assumes z: "0 \<notin> set buf" and st: "\<not> starts [60, 62] (toks (drop p buf))"
  shows "\<exists>p1. parseredirs buf c p = POk c p1 \<and> p \<le> p1 \<and> (p \<le> length buf \<longrightarrow> p1 \<le> length buf) \<and> toks (drop p1 buf) = toks (drop p buf)"
proof -
  obtain p1 b where pk: "peek_tok buf p (str ''<>'') = (p1, b)"
    by fastforce
  have "toks (drop p1 buf) = toks (drop p buf)" "\<not> b"
    using peek_toks [OF z pk peek_strings(1)] st by (simp_all add: sh_chars)
  then show ?thesis
    using pk peek_tok_bounds(1,2) [OF pk] by (subst parseredirs.simps) simp
qed

lemma parseredirs_step:
  assumes z: "0 \<notin> set buf" and p: "p \<le> length buf" and st: "starts [60, 62] (toks (drop p buf))"
  shows "\<exists>tok ts. tok \<in> {60, 62, 43} \<and> toks (drop p buf) = redir_tok tok # ts \<and>
    ((\<exists>w p3. parseredirs buf c p = parseredirs buf (redir_cmd tok w c) p3 \<and> p < p3 \<and> p3 \<le> length buf \<and> span_ok buf w \<and>
        ts = TWord (word_of buf w) # toks (drop p3 buf)) \<or>
     (\<nexists>v us. ts = TWord v # us) \<and> parseredirs buf c p = PErr (str ''missing file for redirection''))"
proof -
  obtain p1 tok x y p2 where a: "peek_tok buf p (str ''<>'') = (p1, True)" "gettoken buf p1 = (tok, x, y, p2)" "tok \<in> {60, 62, 43}"
    "p < p2" "p2 \<le> length buf" "toks (drop p buf) = redir_tok tok # toks (drop p2 buf)"
    using redir_start [OF z p st] by blast
  obtain r q eq p3 where g: "gettoken buf p2 = (r, q, eq, p3)"
    using prod_cases4 by blast
  have s: "parseredirs buf c p =
    (if r \<noteq> 97 then PErr (str ''missing file for redirection'') else parseredirs buf (redir_cmd tok (q, eq) c) p3)"
    by (subst parseredirs.simps) (use a(1-3) g in \<open>auto simp: redir_cmd_def\<close>)
  note t = gettoken_toks [OF z g a(5)]
  show ?thesis
  proof (cases "r = 97")
    case True
    then have "toks (drop p2 buf) = TWord (word_of buf (q, eq)) # toks (drop p3 buf)" "span_ok buf (q, eq)" "p < p3" "p3 \<le> length buf"
      using t(1,3) a(4,5) gettoken_bounds [OF g] by (auto simp: tok_of_def)
    then show ?thesis
      using s a(3,6) True by auto
  next
    case False
    then have "\<not> (\<exists>v us. toks (drop p2 buf) = TWord v # us)"
      using t(1) by (auto simp: tok_of_def split: if_splits)
    then show ?thesis
      using s a(3,6) False by auto
  qed
qed

lemma parseredirs_sound:
  "0 \<notin> set buf \<Longrightarrow> p \<le> length buf \<Longrightarrow> parseredirs buf c p = POk c' p' \<Longrightarrow> \<forall>w \<in> set_cmd c. span_ok buf w \<Longrightarrow>
   p \<le> p' \<and> p' \<le> length buf \<and> (\<forall>w \<in> set_cmd c'. span_ok buf w) \<and> \<not> starts [60, 62] (toks (drop p' buf)) \<and>
   (\<exists>rs. filter is_word rs = [] \<and> toks (drop p buf) = items_toks rs @ toks (drop p' buf) \<and>
      map_cmd (word_of buf) c' = apply_items rs (map_cmd (word_of buf) c))"
proof (induction "length buf - p" arbitrary: c p rule: less_induct)
  case less
  show ?case
  proof (cases "starts [60, 62] (toks (drop p buf))")
    case False
    then show ?thesis
      using parseredirs_stop [OF less.prems(1) False, of c] less.prems by (auto intro: exI [of _ "[]"])
  next
    case True
    obtain tok w p3 where t: "tok \<in> {60, 62, 43}" "p < p3" "p3 \<le> length buf" "span_ok buf w"
      and s: "parseredirs buf c p = parseredirs buf (redir_cmd tok w c) p3"
      and ts: "toks (drop p buf) = redir_tok tok # TWord (word_of buf w) # toks (drop p3 buf)"
      using parseredirs_step [OF less.prems(1,2) True, of c] less.prems(3) by auto
    have sp: "\<forall>w \<in> set_cmd (redir_cmd tok w c). span_ok buf w"
      using less.prems(4) t(4) by (simp add: redir_lemmas)
    have lt: "length buf - p3 < length buf - p"
      using t(2,3) by simp
    obtain rs where "p3 \<le> p'" "p' \<le> length buf" "\<forall>w \<in> set_cmd c'. span_ok buf w" "\<not> starts [60, 62] (toks (drop p' buf))"
      "filter is_word rs = []" "toks (drop p3 buf) = items_toks rs @ toks (drop p' buf)"
      "map_cmd (word_of buf) c' = apply_items rs (map_cmd (word_of buf) (redir_cmd tok w c))"
      using less.hyps [OF lt less.prems(1) t(3) less.prems(3) [unfolded s] sp] by auto
    then show ?thesis
      using t ts by (auto simp: redir_lemmas intro!: exI [of _ "redir_item tok (word_of buf w) # rs"])
  qed
qed

lemma items_start: "filter is_word rs = [] \<Longrightarrow> rs \<noteq> [] \<Longrightarrow> starts [60, 62] (items_toks rs @ ts)"
  by (cases rs; cases "hd rs") auto

lemma parseredirs_complete:
  "0 \<notin> set buf \<Longrightarrow> p \<le> length buf \<Longrightarrow> filter is_word rs = [] \<Longrightarrow> toks (drop p buf) = items_toks rs @ ts \<Longrightarrow>
   \<not> starts [60, 62] ts \<Longrightarrow>
   \<exists>c' p'. parseredirs buf c p = POk c' p' \<and> p \<le> p' \<and> p' \<le> length buf \<and> toks (drop p' buf) = ts \<and>
     map_cmd (word_of buf) c' = apply_items rs (map_cmd (word_of buf) c)"
proof (induction rs arbitrary: c p)
  case Nil
  then show ?case
    using parseredirs_stop [of buf p c] by auto
next
  case (Cons r rs)
  have st: "starts [60, 62] (toks (drop p buf))"
    unfolding Cons.prems(4) by (rule items_start [OF Cons.prems(3)]) simp
  obtain t v where r: "item_toks r = [redir_tok t, TWord v]" "r = redir_item t v" "t \<in> {60, 62, 43}"
  proof (cases r)
    case (IIn x) then show ?thesis using that [of 60 x] by (simp add: redir_tok_def redir_item_def)
  next
    case (IOut x) then show ?thesis using that [of 62 x] by (simp add: redir_tok_def redir_item_def)
  next
    case (IApp x) then show ?thesis using that [of 43 x] by (simp add: redir_tok_def redir_item_def)
  qed (use Cons.prems(3) in simp)
  have hd: "toks (drop p buf) = redir_tok t # TWord v # items_toks rs @ ts"
    using Cons.prems(4) r(1) by simp
  have inj: "tok = t" if "tok \<in> {60, 62, 43}" "redir_tok tok = redir_tok t" for tok
    using that r(3) by (auto simp: redir_tok_def)
  obtain tok us where tok: "tok \<in> {60, 62, 43}" "toks (drop p buf) = redir_tok tok # us"
    "(\<exists>w p3. parseredirs buf c p = parseredirs buf (redir_cmd tok w c) p3 \<and> p < p3 \<and> p3 \<le> length buf \<and> span_ok buf w \<and>
        us = TWord (word_of buf w) # toks (drop p3 buf)) \<or> (\<nexists>v vs. us = TWord v # vs)"
    using parseredirs_step [OF Cons.prems(1,2) st, of c] by blast
  then have t: "tok = t" "us = TWord v # items_toks rs @ ts"
    using hd inj by auto
  obtain w p3 where s: "parseredirs buf c p = parseredirs buf (redir_cmd t w c) p3" "p < p3" "p3 \<le> length buf"
    "word_of buf w = v" "toks (drop p3 buf) = items_toks rs @ ts"
    using tok(3) unfolding t by auto
  obtain c' p' where "parseredirs buf (redir_cmd t w c) p3 = POk c' p'" "p3 \<le> p'" "p' \<le> length buf" "toks (drop p' buf) = ts"
    "map_cmd (word_of buf) c' = apply_items rs (map_cmd (word_of buf) (redir_cmd t w c))"
    using Cons.IH [OF Cons.prems(1) s(3) _ s(5) Cons.prems(5), of "redir_cmd t w c"] Cons.prems(3) by (auto split: if_splits)
  then show ?case
    using s r by (auto simp: redir_lemmas)
qed

lemma parse_backs_spec:
  "0 \<notin> set buf \<Longrightarrow> p \<le> length buf \<Longrightarrow> parse_backs buf c p = (c', p') \<Longrightarrow>
   p \<le> p' \<and> p' \<le> length buf \<and> set_cmd c' = set_cmd c \<and> \<not> starts [38] (toks (drop p' buf)) \<and>
   (\<exists>k. toks (drop p buf) = replicate k (TSym 38) @ toks (drop p' buf) \<and> map_cmd f c' = (BACK ^^ k) (map_cmd f c))"
proof (induction "length buf - p" arbitrary: c p rule: less_induct)
  case less
  obtain p1 b where pk: "peek_tok buf p (str ''&'') = (p1, b)"
    by fastforce
  have t: "toks (drop p1 buf) = toks (drop p buf)" "b = starts [38] (toks (drop p buf))"
    using peek_toks [OF less.prems(1) pk peek_strings(3)] by (simp_all add: sh_chars)
  have p1: "p \<le> p1" "p1 \<le> length buf"
    using peek_tok_bounds(1,2) [OF pk] less.prems(2) by simp_all
  show ?case
  proof (cases b)
    case False
    then have "c' = c" "p' = p1"
      using less.prems(3) pk by (simp_all add: parse_backs.simps [of buf c p])
    then show ?thesis
      using t p1 False by (auto intro: exI [of _ 0])
  next
    case True
    obtain tok x y p2 where g: "gettoken buf p1 = (tok, x, y, p2)"
      using prod_cases4 by blast
    have adv: "p < p2" "p2 \<le> length buf" "p < length buf"
      using peek_advances [OF pk g True] by auto
    have h: "toks (drop p buf) = TSym 38 # toks (drop p2 buf)"
      using gettoken_toks(1) [OF less.prems(1) g p1(2)] True t by (auto simp: tok_of_def split: if_splits)
    have r: "parse_backs buf (BACK c) p2 = (c', p')"
      using less.prems(3) pk g True by (simp add: parse_backs.simps [of buf c p])
    have lt: "length buf - p2 < length buf - p"
      using adv by simp
    obtain k where "p2 \<le> p'" "p' \<le> length buf" "set_cmd c' = set_cmd c" "\<not> starts [38] (toks (drop p' buf))"
      "toks (drop p2 buf) = replicate k (TSym 38) @ toks (drop p' buf)" "map_cmd f c' = (BACK ^^ k) (BACK (map_cmd f c))"
      using less.hyps [OF lt less.prems(1) adv(2) r] by auto
    then show ?thesis
      using adv h by (auto simp: funpow_swap1 intro!: exI [of _ "Suc k"])
  qed
qed

lemma add_arg_map [simp]: "map_cmd f (add_arg w c) = add_arg (f w) (map_cmd f c)"
  by (induction c) auto

lemma add_arg_set: "set_cmd (add_arg w c) \<subseteq> insert w (set_cmd c)"
  by (induction c) auto

text \<open>One word of a simple command, with the redirections behind it.\<close>

lemma parse_args_word:
  assumes z: "0 \<notin> set buf" and p: "p \<le> length buf" and w: "toks (drop p buf) = TWord v # ts"
  shows "\<exists>w p2. span_ok buf w \<and> word_of buf w = v \<and> p < p2 \<and> p2 \<le> length buf \<and> toks (drop p2 buf) = ts \<and>
    parse_args buf c n p =
      (if n + 1 \<ge> MAXARGS then PErr (str ''too many args'')
       else case parseredirs buf (add_arg w c) p2 of PErr e \<Rightarrow> PErr e | POk c' p3 \<Rightarrow> parse_args buf c' (n + 1) p3)"
proof -
  obtain p1 b where pk: "peek_tok buf p (str ''|)&;'') = (p1, b)"
    by fastforce
  have t: "toks (drop p1 buf) = toks (drop p buf)" "\<not> b"
    using peek_toks [OF z pk peek_strings(2)] w by (simp_all add: sh_chars)
  have p1: "p \<le> p1" "p1 \<le> length buf"
    using peek_tok_bounds(1,2) [OF pk] p by simp_all
  obtain tok q eq p2 where g: "gettoken buf p1 = (tok, q, eq, p2)"
    using prod_cases4 by blast
  have a: "tok = 97" "word_of buf (q, eq) = v" "toks (drop p2 buf) = ts"
    using gettoken_toks(1) [OF z g p1(2)] w t(1) by (auto simp: tok_of_def split: if_splits)
  moreover have "span_ok buf (q, eq)"
    by (rule gettoken_toks(3) [OF z g p1(2) a(1)])
  moreover have "p < p2" "p2 \<le> length buf"
    using gettoken_bounds [OF g] p1 a(1) by auto
  ultimately show ?thesis
    using pk t(2) g by (intro exI [of _ "(q, eq)"] exI [of _ p2]) (simp add: parse_args.simps [of buf c n p])
qed

lemma parse_args_other:
  assumes z: "0 \<notin> set buf" and p: "p \<le> length buf" and w: "\<nexists>v ts. toks (drop p buf) = TWord v # ts"
  shows "if toks (drop p buf) = [] \<or> starts [124, 41, 38, 59] (toks (drop p buf))
    then \<exists>p1. parse_args buf c n p = POk c p1 \<and> p \<le> p1 \<and> p1 \<le> length buf \<and> toks (drop p1 buf) = toks (drop p buf)
    else parse_args buf c n p = PErr (str ''syntax'')"
proof -
  obtain p1 b where pk: "peek_tok buf p (str ''|)&;'') = (p1, b)"
    by fastforce
  have t: "toks (drop p1 buf) = toks (drop p buf)" "b = starts [124, 41, 38, 59] (toks (drop p buf))"
    using peek_toks [OF z pk peek_strings(2)] by (simp_all add: sh_chars)
  have p1: "p \<le> p1" "p1 \<le> length buf"
    using peek_tok_bounds(1,2) [OF pk] p by simp_all
  obtain tok q eq p2 where g: "gettoken buf p1 = (tok, q, eq, p2)"
    using prod_cases4 by blast
  note tt = gettoken_toks [OF z g p1(2)] and bb = gettoken_bounds [OF g]
  show ?thesis
  proof (cases b)
    case True
    then show ?thesis
      using pk t p1 by (auto simp: parse_args.simps [of buf c n p])
  next
    case False
    have "tok \<noteq> 97"
      using tt(1) w t(1) by (auto simp: tok_of_def)
    then show ?thesis
      using pk t p1 g tt(1,2) bb False by (auto simp: parse_args.simps [of buf c n p])
  qed
qed

lemma parse_args_sound:
  "0 \<notin> set buf \<Longrightarrow> p \<le> length buf \<Longrightarrow> parse_args buf c n p = POk c' p' \<Longrightarrow> \<forall>w \<in> set_cmd c. span_ok buf w \<Longrightarrow> n < MAXARGS \<Longrightarrow>
   p \<le> p' \<and> p' \<le> length buf \<and> (\<forall>w \<in> set_cmd c'. span_ok buf w) \<and>
   (\<exists>xs. n + length (filter is_word xs) < MAXARGS \<and> toks (drop p buf) = items_toks xs @ toks (drop p' buf) \<and>
      map_cmd (word_of buf) c' = apply_items xs (map_cmd (word_of buf) c))"
proof (induction "MAXARGS - n" arbitrary: c n p)
  case (Suc d)
  note z = Suc.prems(1) and p = Suc.prems(2)
  show ?case
  proof (cases "\<exists>v ts. toks (drop p buf) = TWord v # ts")
    case False
    then show ?thesis
      using parse_args_other [OF z p False, of c n] Suc.prems(3,4,5) by (auto intro: exI [of _ "[]"] split: if_splits)
  next
    case True
    then obtain v ts where v: "toks (drop p buf) = TWord v # ts"
      by blast
    obtain w p2 where w: "span_ok buf w" "word_of buf w = v" "p < p2" "p2 \<le> length buf" "toks (drop p2 buf) = ts"
      and s: "parse_args buf c n p = (if n + 1 \<ge> MAXARGS then PErr (str ''too many args'')
         else case parseredirs buf (add_arg w c) p2 of PErr e \<Rightarrow> PErr e | POk c' p3 \<Rightarrow> parse_args buf c' (n + 1) p3)"
      using parse_args_word [OF z p v, of c n] by blast
    obtain c1 p3 where n: "n + 1 < MAXARGS" and c1: "parseredirs buf (add_arg w c) p2 = POk c1 p3" "parse_args buf c1 (n + 1) p3 = POk c' p'"
      using Suc.prems(3) unfolding s by (auto split: if_splits parsed.splits)
    have sp: "\<forall>w \<in> set_cmd (add_arg w c). span_ok buf w"
      using add_arg_set [of w c] Suc.prems(4) w(1) by blast
    obtain rs where r: "p2 \<le> p3" "p3 \<le> length buf" "\<forall>w \<in> set_cmd c1. span_ok buf w" "filter is_word rs = []"
      "toks (drop p2 buf) = items_toks rs @ toks (drop p3 buf)" "map_cmd (word_of buf) c1 = apply_items rs (map_cmd (word_of buf) (add_arg w c))"
      using parseredirs_sound [OF z w(4) c1(1) sp] by auto
    have d: "d = MAXARGS - (n + 1)"
      using Suc.hyps(2) by simp
    obtain xs where x: "p3 \<le> p'" "p' \<le> length buf" "\<forall>w \<in> set_cmd c'. span_ok buf w" "n + 1 + length (filter is_word xs) < MAXARGS"
      "toks (drop p3 buf) = items_toks xs @ toks (drop p' buf)" "map_cmd (word_of buf) c' = apply_items xs (map_cmd (word_of buf) c1)"
      using Suc.hyps(1) [OF d z r(2) c1(2) r(3) n] by auto
    have "toks (drop p buf) = items_toks (IWord v # rs @ xs) @ toks (drop p' buf)"
      "map_cmd (word_of buf) c' = apply_items (IWord v # rs @ xs) (map_cmd (word_of buf) c)"
      "n + length (filter is_word (IWord v # rs @ xs)) < MAXARGS"
      using v w r x by simp_all
    then show ?thesis
      using w(3) r(1) x(1-3) by (intro conjI exI [of _ "IWord v # rs @ xs"]) simp_all
  qed
qed simp

lemma items_not_redir:
  assumes "xs = [] \<or> is_word (hd xs)" "ts = [] \<or> starts [124, 41, 38, 59] ts"
  shows "\<not> starts [60, 62] (items_toks xs @ ts)"
  using assms(1) starts_disjoint [OF assms(2), of "[60, 62]"] by (cases xs; cases "hd xs") simp_all

lemma parse_args_complete:
  "0 \<notin> set buf \<Longrightarrow> p \<le> length buf \<Longrightarrow> toks (drop p buf) = items_toks xs @ ts \<Longrightarrow> ts = [] \<or> starts [124, 41, 38, 59] ts \<Longrightarrow>
   xs = [] \<or> is_word (hd xs) \<Longrightarrow> n + length (filter is_word xs) < MAXARGS \<Longrightarrow>
   \<exists>c' p'. parse_args buf c n p = POk c' p' \<and> p \<le> p' \<and> p' \<le> length buf \<and> toks (drop p' buf) = ts \<and>
     map_cmd (word_of buf) c' = apply_items xs (map_cmd (word_of buf) c)"
proof (induction "length xs" arbitrary: xs c n p rule: less_induct)
  case less
  note z = less.prems(1) and p = less.prems(2)
  show ?case
  proof (cases xs)
    case Nil
    then have "\<nexists>v ts. toks (drop p buf) = TWord v # ts"
      using less.prems(3,4) by auto
    then show ?thesis
      using parse_args_other [OF z p, of c n] less.prems(3,4) Nil by auto
  next
    case (Cons x ys)
    then obtain v where x: "x = IWord v"
      using less.prems(5) by (cases x) auto
    define rs zs where "rs = takeWhile (\<lambda>i. \<not> is_word i) ys" and "zs = dropWhile (\<lambda>i. \<not> is_word i) ys"
    have ys: "ys = rs @ zs" and rs: "filter is_word rs = []" and zs: "zs = [] \<or> is_word (hd zs)"
      using hd_dropWhile [of "\<lambda>i. \<not> is_word i" ys] by (auto simp: rs_def zs_def filter_empty_conv dest: set_takeWhileD)
    have v: "toks (drop p buf) = TWord v # items_toks rs @ items_toks zs @ ts"
      using less.prems(3) by (simp add: Cons x ys)
    obtain w p2 where w: "span_ok buf w" "word_of buf w = v" "p < p2" "p2 \<le> length buf" "toks (drop p2 buf) = items_toks rs @ items_toks zs @ ts"
      and s: "parse_args buf c n p = (if n + 1 \<ge> MAXARGS then PErr (str ''too many args'')
         else case parseredirs buf (add_arg w c) p2 of PErr e \<Rightarrow> PErr e | POk c' p3 \<Rightarrow> parse_args buf c' (n + 1) p3)"
      using parse_args_word [OF z p v, of c n] by blast
    have n: "n + 1 + length (filter is_word zs) < MAXARGS"
      using less.prems(6) rs by (simp add: Cons x ys)
    obtain c1 p3 where c1: "parseredirs buf (add_arg w c) p2 = POk c1 p3" "p2 \<le> p3" "p3 \<le> length buf" "toks (drop p3 buf) = items_toks zs @ ts"
      "map_cmd (word_of buf) c1 = apply_items rs (map_cmd (word_of buf) (add_arg w c))"
      using parseredirs_complete [OF z w(4) rs w(5) items_not_redir [OF zs less.prems(4)], of "add_arg w c"] by blast
    have "length zs < length xs"
      by (simp add: Cons ys)
    from less.hyps [OF this z c1(3,4) less.prems(4) zs n, of c1]
    obtain c' p' where "parse_args buf c1 (n + 1) p3 = POk c' p'" "p3 \<le> p'" "p' \<le> length buf" "toks (drop p' buf) = ts"
      "map_cmd (word_of buf) c' = apply_items zs (map_cmd (word_of buf) c1)"
      by blast
    then show ?thesis
      using s n c1 w(2,3) by (simp add: Cons x ys)
  qed
qed

section \<open>The parser accepts the grammar\<close>

lemma peek_sym:
  assumes "0 \<notin> set buf" "p \<le> length buf" "peek_tok buf p cs = (p1, b)" "cs = [c]" "sh_symbol c" "c \<noteq> 62"
  shows "p \<le> p1" "p1 \<le> length buf" "toks (drop p1 buf) = toks (drop p buf)" "b = starts [c] (toks (drop p buf))"
  using peek_toks [OF assms(1,3)] peek_tok_bounds(1,2) [OF assms(3)] assms(2,4,5) by auto

lemma get_sym:
  assumes "0 \<notin> set buf" "p \<le> length buf" "peek_tok buf p cs = (p1, True)" "cs = [c]" "sh_symbol c" "c \<noteq> 62"
    and g: "gettoken buf p1 = (t, x, y, p2)"
  shows "p < p2" "p2 \<le> length buf" "toks (drop p buf) = TSym c # toks (drop p2 buf)"
proof -
  note k = peek_sym [OF assms(1-6)]
  show "p < p2" "p2 \<le> length buf"
    using peek_advances [OF assms(3) g] by auto
  show "toks (drop p buf) = TSym c # toks (drop p2 buf)"
    using gettoken_toks(1) [OF assms(1) g k(2)] k(3,4) assms(6) by (auto simp: tok_of_def split: if_splits)
qed

lemma peek_get_exists:
  assumes "0 \<notin> set buf" "p \<le> length buf" "cs = [c]" "sh_symbol c" "c \<noteq> 62" "toks (drop p buf) = TSym c # ts"
  shows "\<exists>p1 t x y p2. peek_tok buf p cs = (p1, True) \<and> gettoken buf p1 = (t, x, y, p2) \<and> p < p2 \<and> p2 \<le> length buf \<and>
    p \<le> p1 \<and> p1 \<le> length buf \<and> toks (drop p1 buf) = toks (drop p buf) \<and> toks (drop p2 buf) = ts"
proof -
  obtain p1 b where pk: "peek_tok buf p cs = (p1, b)"
    by fastforce
  note k = peek_sym [OF assms(1,2) pk assms(3-5)]
  have b: b
    using k(4) assms(6) by simp
  obtain t x y p2 where g: "gettoken buf p1 = (t, x, y, p2)"
    using prod_cases4 by blast
  show ?thesis
    using get_sym [OF assms(1,2) pk [unfolded eqTrueI [OF b]] assms(3-5) g] pk b g k assms(6) by auto
qed

lemma peek_none_exists:
  assumes "0 \<notin> set buf" "p \<le> length buf" "cs = [c]" "sh_symbol c" "c \<noteq> 62" "\<not> starts [c] (toks (drop p buf))"
  shows "\<exists>p1. peek_tok buf p cs = (p1, False) \<and> p \<le> p1 \<and> p1 \<le> length buf \<and> toks (drop p1 buf) = toks (drop p buf)"
proof -
  obtain p1 b where pk: "peek_tok buf p cs = (p1, b)"
    by fastforce
  show ?thesis
    using peek_sym [OF assms(1,2) pk assms(3-5)] pk assms(6) by auto
qed

definition parsed_as :: "(tok list \<Rightarrow> bytes cmd \<Rightarrow> bool) \<Rightarrow> bytes \<Rightarrow> nat \<Rightarrow> span cmd \<Rightarrow> nat \<Rightarrow> bool" where
  "parsed_as g buf p c p' \<longleftrightarrow> p \<le> p' \<and> p' \<le> length buf \<and> (\<forall>w \<in> set_cmd c. span_ok buf w) \<and>
     (\<exists>ts. toks (drop p buf) = ts @ toks (drop p' buf) \<and> g ts (map_cmd (word_of buf) c))"

lemma parsed_asI:
  "p \<le> p' \<Longrightarrow> p' \<le> length buf \<Longrightarrow> \<forall>w \<in> set_cmd c. span_ok buf w \<Longrightarrow> toks (drop p buf) = ts @ toks (drop p' buf) \<Longrightarrow>
   g ts (map_cmd (word_of buf) c) \<Longrightarrow> parsed_as g buf p c p'"
  unfolding parsed_as_def by blast

lemma exec_sound:
  assumes z: "0 \<notin> set buf" and p: "p \<le> length buf" and r: "parseredirs buf (EXEC []) p = POk c1 p1" "parse_args buf c1 0 p1 = POk c p'"
  shows "parsed_as g_exec buf p c p'"
proof -
  obtain rs where rs: "p \<le> p1" "p1 \<le> length buf" "\<forall>w \<in> set_cmd c1. span_ok buf w" "filter is_word rs = []"
    "toks (drop p buf) = items_toks rs @ toks (drop p1 buf)" "map_cmd (word_of buf) c1 = apply_items rs (EXEC [])"
    using parseredirs_sound [OF z p r(1)] by auto
  obtain xs where xs: "p1 \<le> p'" "p' \<le> length buf" "\<forall>w \<in> set_cmd c. span_ok buf w" "length (filter is_word xs) < MAXARGS"
    "toks (drop p1 buf) = items_toks xs @ toks (drop p' buf)" "map_cmd (word_of buf) c = apply_items xs (map_cmd (word_of buf) c1)"
    using parse_args_sound [OF z rs(2) r(2) rs(3)] by (auto simp: MAXARGS_def)
  show ?thesis
  proof (rule parsed_asI)
    show "toks (drop p buf) = items_toks (rs @ xs) @ toks (drop p' buf)"
      using rs(5) xs(5) by simp
    have "map_cmd (word_of buf) c = apply_items (rs @ xs) (EXEC [])"
      using rs(6) xs(6) by simp
    then show "g_exec (items_toks (rs @ xs)) (map_cmd (word_of buf) c)"
      using exec_simple [of "rs @ xs"] rs(4) xs(4) by simp
  qed (use rs xs in simp_all)
qed

lemma block_sound:
  assumes z: "0 \<notin> set buf" and p: "p \<le> length buf" and l: "parsed_as g_line buf p2 c1 p3"
    and r: "peek_tok buf p (str ''('') = (p1, True)" "gettoken buf p1 = (t, x, y, p2)"
      "peek_tok buf p3 (str '')'') = (p4, True)" "gettoken buf p4 = (t', x', y', p5)" "parseredirs buf c1 p5 = POk c p'"
  shows "parsed_as g_exec buf p c p'"
proof -
  note a = get_sym [OF z p r(1) sh_chars(8) _ _ r(2), simplified]
  obtain ts where ts: "p2 \<le> p3" "p3 \<le> length buf" "\<forall>w \<in> set_cmd c1. span_ok buf w"
    "toks (drop p2 buf) = ts @ toks (drop p3 buf)" "g_line ts (map_cmd (word_of buf) c1)"
    using l unfolding parsed_as_def by blast
  note b = get_sym [OF z ts(2) r(3) sh_chars(9) _ _ r(4), simplified]
  obtain rs where rs: "p5 \<le> p'" "p' \<le> length buf" "\<forall>w \<in> set_cmd c. span_ok buf w" "filter is_word rs = []"
    "toks (drop p5 buf) = items_toks rs @ toks (drop p' buf)" "map_cmd (word_of buf) c = apply_items rs (map_cmd (word_of buf) c1)"
    using parseredirs_sound [OF z b(2) r(5) ts(3)] by auto
  show ?thesis
  proof (rule parsed_asI)
    show "toks (drop p buf) = (TSym 40 # ts @ TSym 41 # items_toks rs) @ toks (drop p' buf)"
      using a(3) ts(4) b(3) rs(5) by simp
    show "g_exec (TSym 40 # ts @ TSym 41 # items_toks rs) (map_cmd (word_of buf) c)"
      unfolding rs(6) by (rule exec_block [OF ts(5) rs(4)])
  qed (use a b ts rs in simp_all)
qed

lemma line_sound:
  assumes z: "0 \<notin> set buf" and c1: "parsed_as g_pipe buf p c1 p1"
    and r: "parse_backs buf c1 p1 = (c2, p2)" "peek_tok buf p2 (str '';'') = (p3, b)"
  shows "p2 \<le> length buf" "\<not> b \<Longrightarrow> parsed_as g_line buf p c2 p3"
    "b \<Longrightarrow> gettoken buf p3 = (t, x, y, p4) \<Longrightarrow> parsed_as g_line buf p4 d p5 \<Longrightarrow> parsed_as g_line buf p (LIST c2 d) p5"
proof -
  obtain ts where ts: "p \<le> p1" "p1 \<le> length buf" "\<forall>w \<in> set_cmd c1. span_ok buf w"
    "toks (drop p buf) = ts @ toks (drop p1 buf)" "g_pipe ts (map_cmd (word_of buf) c1)"
    using c1 unfolding parsed_as_def by blast
  obtain k where k: "p1 \<le> p2" "p2 \<le> length buf" "set_cmd c2 = set_cmd c1"
    "toks (drop p1 buf) = replicate k (TSym 38) @ toks (drop p2 buf)" "map_cmd (word_of buf) c2 = (BACK ^^ k) (map_cmd (word_of buf) c1)"
    using parse_backs_spec [OF z ts(2) r(1)] by blast
  note pk = peek_sym [OF z k(2) r(2) sh_chars(6), simplified]
  show "p2 \<le> length buf"
    by (rule k)
  show "parsed_as g_line buf p c2 p3" if "\<not> b"
    by (rule parsed_asI [where ts = "ts @ replicate k (TSym 38)"])
      (use ts k pk line_last [OF ts(5), of k] in simp_all)
  assume b: b and g: "gettoken buf p3 = (t, x, y, p4)" and d: "parsed_as g_line buf p4 d p5"
  note g' = get_sym [OF z k(2) r(2) [unfolded eqTrueI [OF b]] sh_chars(6) _ _ g, simplified]
  obtain us where us: "p4 \<le> p5" "p5 \<le> length buf" "\<forall>w \<in> set_cmd d. span_ok buf w"
    "toks (drop p4 buf) = us @ toks (drop p5 buf)" "g_line us (map_cmd (word_of buf) d)"
    using d unfolding parsed_as_def by blast
  show "parsed_as g_line buf p (LIST c2 d) p5"
    by (rule parsed_asI [where ts = "ts @ replicate k (TSym 38) @ TSym 59 # us"])
      (use ts k g' us line_seq [OF ts(5) us(5), of k] in auto)
qed

lemma pipe_sound:
  assumes z: "0 \<notin> set buf" and c1: "parsed_as g_exec buf p c1 p1" and r: "peek_tok buf p1 (str ''|'') = (p2, b)"
  shows "p1 \<le> length buf" "\<not> b \<Longrightarrow> parsed_as g_pipe buf p c1 p2"
    "b \<Longrightarrow> gettoken buf p2 = (t, x, y, p3) \<Longrightarrow> parsed_as g_pipe buf p3 d p4 \<Longrightarrow> parsed_as g_pipe buf p (PIPE c1 d) p4"
proof -
  obtain ts where ts: "p \<le> p1" "p1 \<le> length buf" "\<forall>w \<in> set_cmd c1. span_ok buf w"
    "toks (drop p buf) = ts @ toks (drop p1 buf)" "g_exec ts (map_cmd (word_of buf) c1)"
    using c1 unfolding parsed_as_def by blast
  note pk = peek_sym [OF z ts(2) r sh_chars(7), simplified]
  show "p1 \<le> length buf"
    by (rule ts)
  show "parsed_as g_pipe buf p c1 p2" if "\<not> b"
    by (rule parsed_asI [where ts = ts]) (use ts pk pipe_last [OF ts(5)] in simp_all)
  assume b: b and g: "gettoken buf p2 = (t, x, y, p3)" and d: "parsed_as g_pipe buf p3 d p4"
  note g' = get_sym [OF z ts(2) r [unfolded eqTrueI [OF b]] sh_chars(7) _ _ g, simplified]
  obtain us where us: "p3 \<le> p4" "p4 \<le> length buf" "\<forall>w \<in> set_cmd d. span_ok buf w"
    "toks (drop p3 buf) = us @ toks (drop p4 buf)" "g_pipe us (map_cmd (word_of buf) d)"
    using d unfolding parsed_as_def by blast
  show "parsed_as g_pipe buf p (PIPE c1 d) p4"
    by (rule parsed_asI [where ts = "ts @ TSym 124 # us"]) (use ts g' us pipe_seq [OF ts(5) us(5)] in auto)
qed

lemma parser_sound:
  assumes z: "0 \<notin> set buf"
  shows "p \<le> length buf \<Longrightarrow> parseline n buf p = Some (POk c p') \<Longrightarrow> parsed_as g_line buf p c p'"
    "p \<le> length buf \<Longrightarrow> parsepipe n buf p = Some (POk c p') \<Longrightarrow> parsed_as g_pipe buf p c p'"
    "p \<le> length buf \<Longrightarrow> parseexec n buf p = Some (POk c p') \<Longrightarrow> parsed_as g_exec buf p c p'"
    "p \<le> length buf \<Longrightarrow> parseblock n buf p = Some (POk c p') \<Longrightarrow> parsed_as g_exec buf p c p'"
proof (induction n arbitrary: p c p')
  case (Suc n)
  {
    case 1
    obtain c1 p1 where r1: "parsepipe n buf p = Some (POk c1 p1)"
      using 1(2) by (auto split: option.splits parsed.splits)
    obtain c2 p2 where r2: "parse_backs buf c1 p1 = (c2, p2)"
      by fastforce
    obtain p3 b where r3: "peek_tok buf p2 (str '';'') = (p3, b)"
      by fastforce
    obtain t x y p4 where r4: "gettoken buf p3 = (t, x, y, p4)"
      using prod_cases4 by blast
    note l = line_sound [OF z Suc.IH(2) [OF 1(1) r1] r2 r3]
    have "b \<Longrightarrow> p4 \<le> length buf"
      using get_sym(2) [OF z l(1) _ sh_chars(6) _ _ r4] r3 by simp
    then show ?case
      using 1(2) r1 r2 r3 r4 l(2) l(3) [OF _ r4] Suc.IH(1) [of p4] by (cases b) (auto split: option.splits parsed.splits)
  next
    case 2
    obtain c1 p1 where r1: "parseexec n buf p = Some (POk c1 p1)"
      using 2(2) by (auto split: option.splits parsed.splits)
    obtain p2 b where r2: "peek_tok buf p1 (str ''|'') = (p2, b)"
      by fastforce
    obtain t x y p3 where r3: "gettoken buf p2 = (t, x, y, p3)"
      using prod_cases4 by blast
    note l = pipe_sound [OF z Suc.IH(3) [OF 2(1) r1] r2]
    have "b \<Longrightarrow> p3 \<le> length buf"
      using get_sym(2) [OF z l(1) _ sh_chars(7) _ _ r3] r2 by simp
    then show ?case
      using 2(2) r1 r2 r3 l(2) l(3) [OF _ r3] Suc.IH(2) [of p3] by (cases b) (auto split: option.splits parsed.splits)
  next
    case 3
    obtain p1 b where r1: "peek_tok buf p (str ''('') = (p1, b)"
      by fastforce
    note pk = peek_sym [OF z 3(1) r1 sh_chars(8), simplified]
    have "parsed_as g_exec buf p1 c p'"
      using 3(2) r1 Suc.IH(4) [OF pk(2)] exec_sound [OF z pk(2)] by (cases b) (auto split: parsed.splits)
    then show ?case
      using pk unfolding parsed_as_def by auto
  next
    case 4
    obtain p1 where r1: "peek_tok buf p (str ''('') = (p1, True)"
      using 4(2) by (auto split: prod.splits bool.splits)
    obtain t x y p2 where r2: "gettoken buf p1 = (t, x, y, p2)"
      using prod_cases4 by blast
    obtain c1 p3 where r3: "parseline n buf p2 = Some (POk c1 p3)"
      using 4(2) r1 r2 by (auto split: option.splits parsed.splits)
    obtain p4 where r4: "peek_tok buf p3 (str '')'') = (p4, True)"
      using 4(2) r1 r2 r3 by (auto split: prod.splits bool.splits)
    obtain t' x' y' p5 where r5: "gettoken buf p4 = (t', x', y', p5)"
      using prod_cases4 by blast
    have r6: "parseredirs buf c1 p5 = POk c p'"
      using 4(2) r1 r2 r3 r4 r5 by simp
    have "p2 \<le> length buf"
      using get_sym(2) [OF z 4(1) r1 sh_chars(8) _ _ r2] by simp
    then show ?case
      by (intro block_sound [OF z 4(1) Suc.IH(1) [OF _ r3] r1 r2 r4 r5 r6])
  }
qed simp_all

text \<open>The bound on the recursion is enough: a level of the recursion that does not read a character calls the next level.\<close>

lemma parser_total:
  assumes z: "0 \<notin> set buf"
  shows "p \<le> length buf \<Longrightarrow> 4 * (length buf - p) + 4 \<le> n \<Longrightarrow> \<exists>r. parseline n buf p = Some r"
    "p \<le> length buf \<Longrightarrow> 4 * (length buf - p) + 3 \<le> n \<Longrightarrow> \<exists>r. parsepipe n buf p = Some r"
    "p \<le> length buf \<Longrightarrow> 4 * (length buf - p) + 2 \<le> n \<Longrightarrow> \<exists>r. parseexec n buf p = Some r"
    "p \<le> length buf \<Longrightarrow> 4 * (length buf - p) + 1 \<le> n \<Longrightarrow> \<exists>r. parseblock n buf p = Some r"
proof (induction n arbitrary: p)
  case (Suc n)
  {
    case 1
    obtain r1 where r1: "parsepipe n buf p = Some r1"
      using Suc.IH(2) [of p] 1 by auto
    show ?case
    proof (cases r1)
      case (POk c1 p1)
      obtain c2 p2 where r2: "parse_backs buf c1 p1 = (c2, p2)"
        by fastforce
      obtain p3 b where r3: "peek_tok buf p2 (str '';'') = (p3, b)"
        by fastforce
      obtain t x y p4 where r4: "gettoken buf p3 = (t, x, y, p4)"
        using prod_cases4 by blast
      have s: "parsed_as g_pipe buf p c1 p1"
        by (rule parser_sound(2) [OF z 1(1)]) (use r1 POk in simp)
      have p1: "p \<le> p1" "p1 \<le> length buf" and p2: "p1 \<le> p2" "p2 \<le> length buf"
        using s parse_backs_spec [OF z _ r2] unfolding parsed_as_def by blast+
      show ?thesis
      proof (cases b)
        case True
        then have "p2 < p4" "p4 \<le> length buf"
          using get_sym(1,2) [OF z p2(2) _ sh_chars(6) _ _ r4] r3 by simp_all
        then have "\<exists>r. parseline n buf p4 = Some r"
          using Suc.IH(1) [of p4] p1 p2 1(2) by simp
        then show ?thesis
          using r1 POk r2 r3 r4 True by (auto split: parsed.splits)
      qed (use r1 POk r2 r3 in simp)
    qed (use r1 in simp)
  next
    case 2
    obtain r1 where r1: "parseexec n buf p = Some r1"
      using Suc.IH(3) [of p] 2 by auto
    show ?case
    proof (cases r1)
      case (POk c1 p1)
      obtain p2 b where r2: "peek_tok buf p1 (str ''|'') = (p2, b)"
        by fastforce
      obtain t x y p3 where r3: "gettoken buf p2 = (t, x, y, p3)"
        using prod_cases4 by blast
      have "parsed_as g_exec buf p c1 p1"
        by (rule parser_sound(3) [OF z 2(1)]) (use r1 POk in simp)
      then have p1: "p \<le> p1" "p1 \<le> length buf"
        unfolding parsed_as_def by blast+
      show ?thesis
      proof (cases b)
        case True
        then have "p1 < p3" "p3 \<le> length buf"
          using get_sym(1,2) [OF z p1(2) _ sh_chars(7) _ _ r3] r2 by simp_all
        then have "\<exists>r. parsepipe n buf p3 = Some r"
          using Suc.IH(2) [of p3] p1 2(2) by simp
        then show ?thesis
          using r1 POk r2 r3 True by (auto split: parsed.splits)
      qed (use r1 POk r2 in simp)
    qed (use r1 in simp)
  next
    case 3
    obtain p1 b where r1: "peek_tok buf p (str ''('') = (p1, b)"
      by fastforce
    note pk = peek_sym [OF z 3(1) r1 sh_chars(8), simplified]
    then show ?case
      using r1 3(2) Suc.IH(4) [of p1] by (cases b) (auto split: parsed.splits)
  next
    case 4
    obtain p1 b where r1: "peek_tok buf p (str ''('') = (p1, b)"
      by fastforce
    obtain t x y p2 where r2: "gettoken buf p1 = (t, x, y, p2)"
      using prod_cases4 by blast
    have "\<exists>r. parseline n buf p2 = Some r" if b
    proof -
      have "p < p2" "p2 \<le> length buf"
        using get_sym(1,2) [OF z 4(1) _ sh_chars(8) _ _ r2] r1 that by simp_all
      then show ?thesis
        using Suc.IH(1) [of p2] 4(2) by simp
    qed
    then show ?case
      using r1 r2 by (cases b) (auto split: parsed.splits prod.splits bool.splits)
  }
qed simp_all

definition completes :: "(nat \<Rightarrow> bytes \<Rightarrow> nat \<Rightarrow> span cmd parsed option) \<Rightarrow> nat \<Rightarrow> bytes \<Rightarrow> bytes \<Rightarrow> tok list \<Rightarrow> bytes cmd \<Rightarrow> bool" where
  "completes f k follow buf ts c \<longleftrightarrow>
     (\<forall>p n rest. p \<le> length buf \<longrightarrow> toks (drop p buf) = ts @ rest \<longrightarrow> rest = [] \<or> starts follow rest \<longrightarrow> 4 * (length buf - p) + k \<le> n \<longrightarrow>
        (\<exists>d p'. f n buf p = Some (POk d p') \<and> p \<le> p' \<and> p' \<le> length buf \<and> toks (drop p' buf) = rest \<and> map_cmd (word_of buf) d = c))"

lemma completesD:
  "completes f k follow buf ts c \<Longrightarrow> p \<le> length buf \<Longrightarrow> toks (drop p buf) = ts @ rest \<Longrightarrow> rest = [] \<or> starts follow rest \<Longrightarrow>
   4 * (length buf - p) + k \<le> n \<Longrightarrow>
   \<exists>d p'. f n buf p = Some (POk d p') \<and> p \<le> p' \<and> p' \<le> length buf \<and> toks (drop p' buf) = rest \<and> map_cmd (word_of buf) d = c"
  unfolding completes_def by blast

lemma backs_unique:
  "replicate k (TSym 38) @ us = replicate k' (TSym 38) @ vs \<Longrightarrow> \<not> starts [38] us \<Longrightarrow> \<not> starts [38] vs \<Longrightarrow> k = k' \<and> us = vs"
proof (induction k arbitrary: k')
  case 0
  then show ?case by (cases k') auto
next
  case (Suc k)
  then show ?case by (cases k') auto
qed

lemma backs_complete:
  assumes z: "0 \<notin> set buf" and p: "p \<le> length buf" and t: "toks (drop p buf) = replicate k (TSym 38) @ rest" "\<not> starts [38] rest"
  shows "\<exists>c' p'. parse_backs buf c p = (c', p') \<and> p \<le> p' \<and> p' \<le> length buf \<and> toks (drop p' buf) = rest \<and>
    map_cmd (word_of buf) c' = (BACK ^^ k) (map_cmd (word_of buf) c)"
proof -
  obtain c' p' where r: "parse_backs buf c p = (c', p')"
    by fastforce
  obtain k' where k: "p \<le> p'" "p' \<le> length buf" "\<not> starts [38] (toks (drop p' buf))"
    "replicate k (TSym 38) @ rest = replicate k' (TSym 38) @ toks (drop p' buf)"
    "map_cmd (word_of buf) c' = (BACK ^^ k') (map_cmd (word_of buf) c)"
    using parse_backs_spec [OF z p r, of "word_of buf"] unfolding t(1) by blast
  have "k = k' \<and> rest = toks (drop p' buf)"
    by (rule backs_unique [OF k(4) t(2) k(3)])
  then show ?thesis
    using r k(1,2,5) by (intro exI [of _ c'] exI [of _ p']) simp
qed

lemma line_complete:
  assumes z: "0 \<notin> set buf" and c: "completes parsepipe 3 [41, 38, 59] buf ts c"
  shows "completes parseline 4 [41] buf (ts @ replicate k (TSym 38)) ((BACK ^^ k) c)"
    "completes parseline 4 [41] buf us d \<Longrightarrow>
     completes parseline 4 [41] buf (ts @ replicate k (TSym 38) @ TSym 59 # us) (LIST ((BACK ^^ k) c) d)"
proof -
  have pre: "\<exists>c2 p1 c1 p2. parsepipe n buf p = Some (POk c1 p1) \<and> parse_backs buf c1 p1 = (c2, p2) \<and> p \<le> p2 \<and> p2 \<le> length buf \<and>
      toks (drop p2 buf) = rest \<and> map_cmd (word_of buf) c2 = (BACK ^^ k) c"
    if a: "p \<le> length buf" "toks (drop p buf) = ts @ replicate k (TSym 38) @ rest" "rest = [] \<or> starts [41, 59] rest"
      "4 * (length buf - p) + 3 \<le> n" for p n rest
  proof -
    have f: "replicate k (TSym 38) @ rest = [] \<or> starts [41, 38, 59] (replicate k (TSym 38) @ rest)"
      using a(3) starts_mono [of "[41, 59]" rest "[41, 38, 59]"] by (cases k) auto
    have f': "\<not> starts [38] rest"
      by (rule starts_disjoint [OF a(3)]) simp
    obtain c1 p1 where c1: "parsepipe n buf p = Some (POk c1 p1)" "p \<le> p1" "p1 \<le> length buf"
      "toks (drop p1 buf) = replicate k (TSym 38) @ rest" "map_cmd (word_of buf) c1 = c"
      using completesD [OF c a(1,2) f a(4)] by blast
    obtain c2 p2 where "parse_backs buf c1 p1 = (c2, p2)" "p1 \<le> p2" "p2 \<le> length buf" "toks (drop p2 buf) = rest"
      "map_cmd (word_of buf) c2 = (BACK ^^ k) (map_cmd (word_of buf) c1)"
      using backs_complete [OF z c1(3,4) f', of c1] by blast
    then show ?thesis
      using c1(1,2,5) by (intro exI [of _ c2] exI [of _ p1] exI [of _ c1] exI [of _ p2]) simp
  qed
  show "completes parseline 4 [41] buf (ts @ replicate k (TSym 38)) ((BACK ^^ k) c)"
    unfolding completes_def
  proof (intro allI impI)
    fix p n rest assume a: "p \<le> length buf" "toks (drop p buf) = (ts @ replicate k (TSym 38)) @ rest" "rest = [] \<or> starts [41] rest"
      "4 * (length buf - p) + 4 \<le> n"
    then obtain m where n: "n = Suc m" "4 * (length buf - p) + 3 \<le> m"
      by (cases n) auto
    have f: "rest = [] \<or> starts [41, 59] rest" "\<not> starts [59] rest"
      using a(3) starts_mono [of "[41]" rest "[41, 59]"] starts_disjoint [OF a(3), of "[59]"] by auto
    obtain c2 p1 c1 p2 where r: "parsepipe m buf p = Some (POk c1 p1)" "parse_backs buf c1 p1 = (c2, p2)" "p \<le> p2" "p2 \<le> length buf"
      "toks (drop p2 buf) = rest" "map_cmd (word_of buf) c2 = (BACK ^^ k) c"
      using pre [OF a(1) _ f(1) n(2)] a(2) by auto
    obtain p3 where "peek_tok buf p2 (str '';'') = (p3, False)" "p2 \<le> p3" "p3 \<le> length buf" "toks (drop p3 buf) = rest"
      using peek_none_exists [OF z r(4) sh_chars(6)] f(2) r(5) by auto
    then show "\<exists>d p'. parseline n buf p = Some (POk d p') \<and> p \<le> p' \<and> p' \<le> length buf \<and> toks (drop p' buf) = rest \<and>
        map_cmd (word_of buf) d = (BACK ^^ k) c"
      using r n by auto
  qed
  assume d: "completes parseline 4 [41] buf us d"
  show "completes parseline 4 [41] buf (ts @ replicate k (TSym 38) @ TSym 59 # us) (LIST ((BACK ^^ k) c) d)"
    unfolding completes_def
  proof (intro allI impI)
    fix p n rest assume a: "p \<le> length buf" "toks (drop p buf) = (ts @ replicate k (TSym 38) @ TSym 59 # us) @ rest"
      "rest = [] \<or> starts [41] rest" "4 * (length buf - p) + 4 \<le> n"
    then obtain m where n: "n = Suc m" "4 * (length buf - p) + 3 \<le> m"
      by (cases n) auto
    obtain c2 p1 c1 p2 where r: "parsepipe m buf p = Some (POk c1 p1)" "parse_backs buf c1 p1 = (c2, p2)" "p \<le> p2" "p2 \<le> length buf"
      "toks (drop p2 buf) = TSym 59 # us @ rest" "map_cmd (word_of buf) c2 = (BACK ^^ k) c"
      using pre [OF a(1) _ _ n(2), of "TSym 59 # us @ rest"] a(2) by auto
    obtain p3 t x y p4 where s: "peek_tok buf p2 (str '';'') = (p3, True)" "gettoken buf p3 = (t, x, y, p4)" "p2 < p4" "p4 \<le> length buf"
      "toks (drop p4 buf) = us @ rest"
      using peek_get_exists [OF z r(4) sh_chars(6) _ _ r(5)] by auto
    have "4 * (length buf - p4) + 4 \<le> m"
      using s(3,4) r(3) n(2) by simp
    then obtain e p5 where "parseline m buf p4 = Some (POk e p5)" "p4 \<le> p5" "p5 \<le> length buf" "toks (drop p5 buf) = rest"
      "map_cmd (word_of buf) e = d"
      using completesD [OF d s(4,5) a(3)] by blast
    then show "\<exists>d' p'. parseline n buf p = Some (POk d' p') \<and> p \<le> p' \<and> p' \<le> length buf \<and> toks (drop p' buf) = rest \<and>
        map_cmd (word_of buf) d' = LIST ((BACK ^^ k) c) d"
      using r s n by auto
  qed
qed

lemma pipe_complete:
  assumes z: "0 \<notin> set buf" and c: "completes parseexec 2 [124, 41, 38, 59] buf ts c"
  shows "completes parsepipe 3 [41, 38, 59] buf ts c"
    "completes parsepipe 3 [41, 38, 59] buf us d \<Longrightarrow> completes parsepipe 3 [41, 38, 59] buf (ts @ TSym 124 # us) (PIPE c d)"
proof -
  show "completes parsepipe 3 [41, 38, 59] buf ts c"
    unfolding completes_def
  proof (intro allI impI)
    fix p n rest assume a: "p \<le> length buf" "toks (drop p buf) = ts @ rest" "rest = [] \<or> starts [41, 38, 59] rest"
      "4 * (length buf - p) + 3 \<le> n"
    then obtain m where n: "n = Suc m" "4 * (length buf - p) + 2 \<le> m"
      by (cases n) auto
    have f: "rest = [] \<or> starts [124, 41, 38, 59] rest" "\<not> starts [124] rest"
      using a(3) starts_mono [of "[41, 38, 59]" rest "[124, 41, 38, 59]"] starts_disjoint [OF a(3), of "[124]"] by auto
    obtain c1 p1 where c1: "parseexec m buf p = Some (POk c1 p1)" "p \<le> p1" "p1 \<le> length buf"
      "toks (drop p1 buf) = rest" "map_cmd (word_of buf) c1 = c"
      using completesD [OF c a(1,2) f(1) n(2)] by blast
    obtain p2 where "peek_tok buf p1 (str ''|'') = (p2, False)" "p1 \<le> p2" "p2 \<le> length buf" "toks (drop p2 buf) = rest"
      using peek_none_exists [OF z c1(3) sh_chars(7)] f(2) c1(4) by auto
    then show "\<exists>d p'. parsepipe n buf p = Some (POk d p') \<and> p \<le> p' \<and> p' \<le> length buf \<and> toks (drop p' buf) = rest \<and>
        map_cmd (word_of buf) d = c"
      using c1 n by auto
  qed
  assume d: "completes parsepipe 3 [41, 38, 59] buf us d"
  show "completes parsepipe 3 [41, 38, 59] buf (ts @ TSym 124 # us) (PIPE c d)"
    unfolding completes_def
  proof (intro allI impI)
    fix p n rest assume a: "p \<le> length buf" "toks (drop p buf) = (ts @ TSym 124 # us) @ rest" "rest = [] \<or> starts [41, 38, 59] rest"
      "4 * (length buf - p) + 3 \<le> n"
    then obtain m where n: "n = Suc m" "4 * (length buf - p) + 2 \<le> m"
      by (cases n) auto
    obtain c1 p1 where c1: "parseexec m buf p = Some (POk c1 p1)" "p \<le> p1" "p1 \<le> length buf"
      "toks (drop p1 buf) = TSym 124 # us @ rest" "map_cmd (word_of buf) c1 = c"
      using completesD [OF c a(1) _ _ n(2), of "TSym 124 # us @ rest"] a(2) by auto
    obtain p2 t x y p3 where s: "peek_tok buf p1 (str ''|'') = (p2, True)" "gettoken buf p2 = (t, x, y, p3)" "p1 < p3" "p3 \<le> length buf"
      "toks (drop p3 buf) = us @ rest"
      using peek_get_exists [OF z c1(3) sh_chars(7) _ _ c1(4)] by auto
    have "4 * (length buf - p3) + 3 \<le> m"
      using s(3,4) c1(2) n(2) by simp
    then obtain e p4 where "parsepipe m buf p3 = Some (POk e p4)" "p3 \<le> p4" "p4 \<le> length buf" "toks (drop p4 buf) = rest"
      "map_cmd (word_of buf) e = d"
      using completesD [OF d s(4,5) a(3)] by blast
    then show "\<exists>d' p'. parsepipe n buf p = Some (POk d' p') \<and> p \<le> p' \<and> p' \<le> length buf \<and> toks (drop p' buf) = rest \<and>
        map_cmd (word_of buf) d' = PIPE c d"
      using c1 s n by auto
  qed
qed

lemma simple_complete:
  assumes z: "0 \<notin> set buf" and w: "length (filter is_word xs) < MAXARGS"
  shows "completes parseexec 2 [124, 41, 38, 59] buf (items_toks xs) (apply_items xs (EXEC []))"
  unfolding completes_def
proof (intro allI impI)
  fix p n rest assume a: "p \<le> length buf" "toks (drop p buf) = items_toks xs @ rest" "rest = [] \<or> starts [124, 41, 38, 59] rest"
    "4 * (length buf - p) + 2 \<le> n"
  then obtain m where n: "n = Suc m"
    by (cases n) auto
  define rs zs where "rs = takeWhile (\<lambda>i. \<not> is_word i) xs" and "zs = dropWhile (\<lambda>i. \<not> is_word i) xs"
  have xs: "xs = rs @ zs" and rs: "filter is_word rs = []" and zs: "zs = [] \<or> is_word (hd zs)"
    using hd_dropWhile [of "\<lambda>i. \<not> is_word i" xs] by (auto simp: rs_def zs_def filter_empty_conv dest: set_takeWhileD)
  have "\<not> starts [40] (items_toks xs @ rest)"
    using starts_disjoint [OF a(3), of "[40]"] by (cases xs; cases "hd xs") simp_all
  then obtain p1 where p1: "peek_tok buf p (str ''('') = (p1, False)" "p \<le> p1" "p1 \<le> length buf" "toks (drop p1 buf) = items_toks xs @ rest"
    using peek_none_exists [OF z a(1) sh_chars(8)] a(2) by auto
  then obtain c2 p2 where c2: "parseredirs buf (EXEC []) p1 = POk c2 p2" "p1 \<le> p2" "p2 \<le> length buf" "toks (drop p2 buf) = items_toks zs @ rest"
    "map_cmd (word_of buf) c2 = apply_items rs (map_cmd (word_of buf) (EXEC []))"
    using parseredirs_complete [OF z p1(3) rs _ items_not_redir [OF zs a(3)], of "EXEC []"] xs by auto
  obtain c3 p3 where "parse_args buf c2 0 p2 = POk c3 p3" "p2 \<le> p3" "p3 \<le> length buf" "toks (drop p3 buf) = rest"
    "map_cmd (word_of buf) c3 = apply_items zs (map_cmd (word_of buf) c2)"
    using parse_args_complete [OF z c2(3,4) a(3) zs, of 0 c2] w xs by auto
  then show "\<exists>d p'. parseexec n buf p = Some (POk d p') \<and> p \<le> p' \<and> p' \<le> length buf \<and> toks (drop p' buf) = rest \<and>
      map_cmd (word_of buf) d = apply_items xs (EXEC [])"
    using n p1 c2 xs by auto
qed

lemma block_complete:
  assumes z: "0 \<notin> set buf" and c: "completes parseline 4 [41] buf ts c" and rs: "filter is_word rs = []"
  shows "completes parseexec 2 [124, 41, 38, 59] buf (TSym 40 # ts @ TSym 41 # items_toks rs) (apply_items rs c)"
  unfolding completes_def
proof (intro allI impI)
  fix p n rest assume a: "p \<le> length buf" "toks (drop p buf) = (TSym 40 # ts @ TSym 41 # items_toks rs) @ rest"
    "rest = [] \<or> starts [124, 41, 38, 59] rest" "4 * (length buf - p) + 2 \<le> n"
  then obtain m where n: "n = Suc (Suc m)" "4 * (length buf - p) \<le> m"
    by (cases n; cases "n - 1") auto
  obtain p1 where p1: "peek_tok buf p (str ''('') = (p1, True)" "p \<le> p1" "p1 \<le> length buf"
    "toks (drop p1 buf) = TSym 40 # ts @ TSym 41 # items_toks rs @ rest"
    using peek_get_exists [OF z a(1) sh_chars(8)] a(2) by auto
  obtain p2 t x y p3 where s: "peek_tok buf p1 (str ''('') = (p2, True)" "gettoken buf p2 = (t, x, y, p3)" "p1 < p3" "p3 \<le> length buf"
    "toks (drop p3 buf) = ts @ TSym 41 # items_toks rs @ rest"
    using peek_get_exists [OF z p1(3) sh_chars(8) _ _ p1(4)] by auto
  have "4 * (length buf - p3) + 4 \<le> m"
    using s(3,4) p1(2) n(2) by simp
  then obtain d p4 where d: "parseline m buf p3 = Some (POk d p4)" "p3 \<le> p4" "p4 \<le> length buf"
    "toks (drop p4 buf) = TSym 41 # items_toks rs @ rest" "map_cmd (word_of buf) d = c"
    using completesD [OF c s(4,5) _ \<open>4 * (length buf - p3) + 4 \<le> m\<close>] by auto
  obtain p5 t' x' y' p6 where e: "peek_tok buf p4 (str '')'') = (p5, True)" "gettoken buf p5 = (t', x', y', p6)" "p4 < p6" "p6 \<le> length buf"
    "toks (drop p6 buf) = items_toks rs @ rest"
    using peek_get_exists [OF z d(3) sh_chars(9) _ _ d(4)] by auto
  have "\<not> starts [60, 62] rest"
    using items_not_redir [of "[]" rest] a(3) by simp
  then obtain d' p7 where "parseredirs buf d p6 = POk d' p7" "p6 \<le> p7" "p7 \<le> length buf" "toks (drop p7 buf) = rest"
    "map_cmd (word_of buf) d' = apply_items rs (map_cmd (word_of buf) d)"
    using parseredirs_complete [OF z e(4) rs e(5), of d] by blast
  then show "\<exists>d p'. parseexec n buf p = Some (POk d p') \<and> p \<le> p' \<and> p' \<le> length buf \<and> toks (drop p' buf) = rest \<and>
      map_cmd (word_of buf) d = apply_items rs c"
    using n p1 s d e by auto
qed

lemma parser_complete:
  assumes z: "0 \<notin> set buf"
  shows "g_line ts c \<Longrightarrow> completes parseline 4 [41] buf ts c"
    "g_pipe ts c \<Longrightarrow> completes parsepipe 3 [41, 38, 59] buf ts c"
    "g_exec ts c \<Longrightarrow> completes parseexec 2 [124, 41, 38, 59] buf ts c"
proof (induction rule: g_line_g_pipe_g_exec.inducts)
qed (auto intro: line_complete [OF z] pipe_complete [OF z] simple_complete [OF z] block_complete [OF z])

section \<open>The strings of a command\<close>

text \<open>\<^verbatim>\<open>nulterminate\<close> puts a 0 behind every word and nowhere else, and what is behind a word is in no other word.\<close>

lemma nth_update: "i < length xs \<Longrightarrow> xs[k := x] ! i = (if k = i then x else xs ! i)"
  by (cases "k = i") simp_all

lemma foldl_nul:
  "length (foldl (\<lambda>m w. m[snd w := 0]) m ws) = length m"
  "i < length m \<Longrightarrow> foldl (\<lambda>m w. m[snd w := 0]) m ws ! i = (if i \<in> snd ` set ws then 0 else m ! i)" for m :: bytes
proof (induction ws arbitrary: m)
  case (Cons w ws)
  { case 1 show ?case using Cons.IH(1) [of "m[snd w := 0]"] by simp }
  { case 2 then show ?case using Cons.IH(2) [of "m[snd w := 0]"] by (simp add: nth_update) }
qed simp_all

lemma nulterminate_nth:
  "length (nulterminate c m) = length m"
  "i < length m \<Longrightarrow> nulterminate c m ! i = (if i \<in> snd ` set_cmd c then 0 else m ! i)"
  by (induction c arbitrary: m) (simp_all add: foldl_nul nth_update image_Un)

lemma string_at_word:
  assumes z: "0 \<notin> set buf" and sp: "\<forall>w \<in> set_cmd c. span_ok buf w" and w: "w \<in> set_cmd c"
  shows "string_at (nulterminate c (buf @ [0])) (fst w) = word_of buf w"
proof -
  let ?m = "nulterminate c (buf @ [0])" and ?q = "fst w" and ?e = "snd w"
  have s: "?q < ?e" "?e \<le> length buf" "\<And>i. ?q \<le> i \<Longrightarrow> i < ?e \<Longrightarrow> sh_plain (buf ! i)"
    using sp w by (auto simp: span_ok_def)
  have inside: "?m ! i = buf ! i \<and> buf ! i \<noteq> 0" if i: "?q \<le> i" "i < ?e" for i
  proof -
    have l: "i < length buf"
      using i s by simp
    have "i \<noteq> snd v" if "v \<in> set_cmd c" for v
    proof
      assume "i = snd v"
      then have "\<not> sh_plain (buf ! i)"
        using sp that l by (auto simp: span_ok_def)
      then show False
        using s(3) [OF i] by simp
    qed
    then have "i \<notin> snd ` set_cmd c"
      by blast
    moreover have "buf ! i \<noteq> 0"
      using z nth_mem [OF l] by metis
    ultimately show ?thesis
      using l by (simp add: nulterminate_nth nth_append)
  qed
  have e: "?m ! ?e = 0"
    using s w by (auto simp: nulterminate_nth nth_append)
  have "takeWhile (\<lambda>c. c \<noteq> 0) (drop ?q ?m) = take (?e - ?q) (drop ?q ?m)"
    by (rule takeWhile_eq_take_P_nth) (use s inside e in \<open>auto simp: nulterminate_nth\<close>)
  also have "\<dots> = take (?e - ?q) (drop ?q buf)"
    by (rule nth_equalityI) (use s inside in \<open>auto simp: nulterminate_nth\<close>)
  finally show ?thesis
    by (simp add: string_at_def word_of_def)
qed

section \<open>The parser as a whole\<close>

lemma toks_end: "toks (drop p buf) = [] \<longleftrightarrow> skip_while sh_white buf p = length buf" if "p \<le> length buf"
proof
  assume t: "toks (drop p buf) = []"
  show "skip_while sh_white buf p = length buf"
  proof (rule ccontr)
    assume "skip_while sh_white buf p \<noteq> length buf"
    then have l: "skip_while sh_white buf p < length buf"
      using skip_while_bounds(2) [OF that, of sh_white] by simp
    then have "drop (skip_while sh_white buf p) buf = buf ! skip_while sh_white buf p # drop (Suc (skip_while sh_white buf p)) buf"
      by (simp add: Cons_nth_drop_Suc)
    then have "toks (drop (skip_while sh_white buf p) buf) \<noteq> []"
      using skip_while_stop [OF l] by simp
    then show False
      using t by simp
  qed
next
  assume "skip_while sh_white buf p = length buf"
  then have "toks (drop (skip_while sh_white buf p) buf) = []"
    by simp
  then show "toks (drop p buf) = []"
    by simp
qed

text \<open>A program that stops, in whatever state it is started, stops at a system call or exits.\<close>

definition stops :: "('a ustate_scheme, 'b) kop \<Rightarrow> bool" where
  "stops m \<longleftrightarrow> (\<forall>s. ush m (\<lambda>r t. r = None) s)"

lemma stops_Swtch: "stops m \<Longrightarrow> \<exists>t. m s = Swtch t"
  unfolding stops_def ush_def by (cases "m s") (auto dest: spec [of _ s])

lemma ush_None_stops: "stops m \<Longrightarrow> ush m (\<lambda>r t. r = None) s"
  by (simp add: stops_def)

definition safe :: "('a ustate_scheme, 'b) kop \<Rightarrow> bool" where
  "safe m \<longleftrightarrow> (\<forall>s. ush m (\<lambda>r t. True) s)"

lemma stops_exit: "stops u_exit"
  by (simp add: stops_def)


lemma stops_bind:
  fixes m :: "('a ustate_scheme, 'b) kop"
  assumes "safe m" "\<And>a. stops (f a)"
  shows "stops (kbind m f)"
  unfolding stops_def ush_simps
proof
  fix s :: "'a ustate_scheme"
  show "ush m (\<lambda>r t. case r of None \<Rightarrow> None = None | Some a \<Rightarrow> ush (f a) (\<lambda>r t. r = None) t) s"
    by (rule ush_mono [of _ "\<lambda>r t. True"]) (use assms in \<open>auto simp: stops_def safe_def split: option.split\<close>)
qed

lemma safe_bind:
  fixes m :: "('a ustate_scheme, 'b) kop"
  assumes "safe m" "\<And>a. safe (f a)"
  shows "safe (kbind m f)"
  unfolding safe_def ush_simps
proof
  fix s :: "'a ustate_scheme"
  show "ush m (\<lambda>r t. case r of None \<Rightarrow> True | Some a \<Rightarrow> ush (f a) (\<lambda>r t. True) t) s"
    by (rule ush_mono [of _ "\<lambda>r t. True"]) (use assms in \<open>auto simp: safe_def split: option.split\<close>)
qed

lemma safe_usys: "safe (usys c)"
  by (simp add: safe_def split: list.split)

lemma safe_ret: "safe (kret a)"
  by (simp add: safe_def)

lemma safe_do: "safe (u_do c)" "safe (usys_int c)"
  unfolding u_do_def usys_int_def by (simp_all add: safe_def split: list.split)

lemma safe_when: "safe m \<Longrightarrow> safe (kwhen b m)"
  by (auto simp: safe_def)

lemma safe_printf: "u_format fmt False as = Some out \<Longrightarrow> safe (u_printf fd fmt as)"
  unfolding safe_def by (auto intro: ush_mono [OF ush_printf])

lemmas stops_intros = stops_bind safe_bind safe_usys safe_ret safe_do safe_when stops_exit

lemma sh_formats:
  "u_format (str ''%s\<newline>'') False [CStr (Some x)] = Some (x @ [10])"
  "\<exists>out. u_format (str ''leftovers: %s\<newline>'') False [CStr (Some x)] = Some out"
  "\<exists>out. u_format (str ''exec %s failed\<newline>'') False [CStr (Some x)] = Some out"
  "\<exists>out. u_format (str ''open %s failed\<newline>'') False [CStr (Some x)] = Some out"
  by (simp_all add: str_def)

lemma sh_panic_stops: "stops (sh_panic m)"
  unfolding sh_panic_def by (intro stops_intros safe_printf [OF sh_formats(1)])

lemma sh_printf_safe:
  "safe (u_printf fd (str ''leftovers: %s\<newline>'') [CStr (Some x)])" "safe (u_printf fd (str ''exec %s failed\<newline>'') [CStr (Some x)])"
  "safe (u_printf fd (str ''open %s failed\<newline>'') [CStr (Some x)])"
  using sh_formats(2-4) [of x] by (auto intro: safe_printf)



text \<open>
  C31: The parser of the shell returns a command exactly when the line is a sentence of the grammar of commands, and it is
  the command of that sentence, with the words of the line as its strings; on every other line the
  shell prints a message and exits.
\<close>

theorem parsecmd_grammar:
  assumes z: "0 \<notin> set buf"
  shows "(parsecmd buf s = Ret c t \<longleftrightarrow> t = s \<and> g_line (toks buf) c) \<and>
    ((\<nexists>c. g_line (toks buf) c) \<longrightarrow> (\<exists>t. parsecmd buf s = Swtch t))"
proof -
  obtain r where r: "parseline (parse_depth buf) buf 0 = Some r"
    using parser_total(1) [OF z, of 0 "parse_depth buf"] by (auto simp: parse_depth_def)
  have complete: "\<exists>d p. r = POk d p \<and> p \<le> length buf \<and> toks (drop p buf) = [] \<and> map_cmd (word_of buf) d = c" if "g_line (toks buf) c" for c
    using completesD [OF parser_complete(1) [OF z that], of 0 "[]" "parse_depth buf"] r by (auto simp: parse_depth_def)
  show ?thesis
  proof (cases r)
    case (PErr e)
    then have "parsecmd buf = (sh_panic e :: ('a ustate_scheme, bytes cmd) kop)"
      using r by (simp add: parsecmd_def)
    then obtain u where "parsecmd buf s = Swtch u"
      using stops_Swtch [OF sh_panic_stops, where s = s] by auto
    moreover have "\<not> g_line (toks buf) c" for c
      using complete [of c] PErr by auto
    ultimately show ?thesis
      by simp
  next
    case (POk d p)
    obtain ts where ts: "p \<le> length buf" "\<forall>w \<in> set_cmd d. span_ok buf w" "toks buf = ts @ toks (drop p buf)"
      "g_line ts (map_cmd (word_of buf) d)"
      using parser_sound(1) [OF z _ r [unfolded POk]] unfolding parsed_as_def by auto
    have pk: "fst (peek_tok buf p []) = skip_while sh_white buf p"
      by (simp add: peek_tok_def Let_def)
    show ?thesis
    proof (cases "toks (drop p buf) = []")
      case True
      have w: "map_cmd (\<lambda>w. string_at (nulterminate d (buf @ [0])) (fst w)) d = map_cmd (word_of buf) d"
        by (rule cmd.map_cong [OF refl]) (rule string_at_word [OF z ts(2)])
      have "parsecmd buf s = Ret (map_cmd (word_of buf) d) s"
        unfolding parsecmd_def Let_def using r POk True toks_end [OF ts(1)] pk w by (simp add: kret_def)
      moreover have "g_line (toks buf) (map_cmd (word_of buf) d)"
        using ts(3,4) True by simp
      moreover have "c = map_cmd (word_of buf) d" if "g_line (toks buf) c"
        using complete [OF that] POk by simp
      ultimately show ?thesis
        by auto
    next
      case False
      have "parsecmd buf = (kbind (u_printf 2 (str ''leftovers: %s\<newline>'') [CStr (Some (drop (skip_while sh_white buf p) buf))])
          (\<lambda>_. sh_panic (str ''syntax'')) :: ('a ustate_scheme, bytes cmd) kop)"
        unfolding parsecmd_def Let_def using r POk False toks_end [OF ts(1)] pk by simp
      then have "stops (parsecmd buf :: ('a ustate_scheme, bytes cmd) kop)"
        by (simp add: stops_bind [OF sh_printf_safe(1) sh_panic_stops])
      then obtain u where "parsecmd buf s = Swtch u"
        using stops_Swtch by blast
      moreover have "\<not> g_line (toks buf) c" for c
        using complete [of c] POk False by auto
      ultimately show ?thesis
        by simp
    qed
  qed
qed

theorem parsecmd_grammar_witness:
  "0 \<notin> set (str ''a b|c>d&'') \<and>
   parsecmd (str ''a b|c>d&'') \<lparr>u_rets = [], u_trace = []\<rparr> =
     Ret (BACK (PIPE (EXEC [str ''a'', str ''b'']) (REDIR (EXEC [str ''c'']) (str ''d'') 0x201 1))) \<lparr>u_rets = [], u_trace = []\<rparr>"
proof -
  have z: "0 \<notin> set (str ''a b|c>d&'')"
    by (simp add: str_def)
  have t: "toks (str ''a b|c>d&'') =
      (items_toks [IWord [97], IWord [98]] @ TSym 124 # items_toks [IWord [99], IOut [100]]) @ replicate 1 (TSym 38)"
    by (simp add: str_def sh_white_def sh_symbol_def sh_plain_def)
  have "g_line (toks (str ''a b|c>d&''))
      ((BACK ^^ 1) (PIPE (apply_items [IWord [97], IWord [98]] (EXEC [])) (apply_items [IWord [99], IOut [100]] (EXEC []))))"
    unfolding t by (intro line_last pipe_seq pipe_last exec_simple) (simp_all add: MAXARGS_def)
  then have "g_line (toks (str ''a b|c>d&'')) (BACK (PIPE (EXEC [str ''a'', str ''b'']) (REDIR (EXEC [str ''c'']) (str ''d'') 0x201 1)))"
    by (simp add: str_def O_CREATE_u_def)
  then show ?thesis
    using z parsecmd_grammar [OF z] by blast
qed


end
