(* ===== verification/User_Malloc.thy ===== *)
theory User_Malloc
  imports Xv6_Prelude
begin

text \<open>
  \<^verbatim>\<open>umalloc.c\<close>: the allocator of user programs, a circular list of free blocks in address order.  A
  pointer is a number below \<open>2 ^ 32\<close>, with the wrap-around of pointer arithmetic written out; \<open>um_ptr\<close>
  and \<open>um_size\<close> are the two fields of the \<^verbatim>\<open>Header\<close> at an address.  Sizes count units of 8 bytes.  A loop
  that does not end is \<open>None\<close>.  \<^verbatim>\<open>sbrk\<close> is what \<^verbatim>\<open>growproc\<close> does to the size of the process: \<open>um_brk\<close> is that
  size, and growing it above \<open>um_max\<close> fails for lack of memory.
\<close>

section \<open>The program\<close>













section \<open>Blocks\<close>









section \<open>The ring\<close>






section \<open>The invariant\<close>










section \<open>Allocation\<close>















section \<open>Programs that allocate and free\<close>

















end
