(* ===== verification/Spec2Isabelle.thy ===== *)
theory Spec2Isabelle
  imports Log_Crash Segs Trap Vm_Term Vm_User User_Grep User_Sh User_Malloc
begin

text \<open>
  Verification of the x86 teaching kernel under \<^verbatim>\<open>src/\<close>: a small Unix-like operating system with system
  call statistics, lottery and stride schedulers and threads added to it, its user library and
  its user programs.

  \<^bold>\<open>The model.\<close>  A kernel operation is a function from a state to an outcome (\<open>Xv6_Prelude\<close>): it returns a value and
  a new state, panics, gives up the processor (\<open>Swtch\<close>: it sleeps, yields or exits), loops for ever, or
  makes an access that C leaves undefined.  The state is one record that the components extend
  in turn: memory and free list (\<open>Kalloc\<close>), process table (\<open>ProcTable\<close>), buffer cache and disk (\<open>Bio\<close>), log (\<open>Log\<close>),
  super block and inode cache (\<open>Fs_Block\<close>), console (\<open>Console\<close>), open files and pipes (\<open>Filetab\<close>).  Memory is a
  function from 32-bit addresses to bytes; a C pointer to an element of a table is its index, the
  null pointer is \<open>None\<close>.  Integers have the width of the source where it matters: machine words, or
  integers with the wrap-around written out (\<open>s32\<close>, \<open>s16\<close>, \<open>w32\<close>).  Statements about an operation are total:
  \<open>wp m Q s\<close> says that \<open>m\<close> returns and \<open>Q\<close> holds then.

  \<^bold>\<open>The theories.\<close>
  \<^item> \<open>Strings\<close>: \<^verbatim>\<open>string.c\<close> over byte memory; \<^verbatim>\<open>memmove\<close> for overlapping ranges, \<^verbatim>\<open>safestrcpy\<close>'s bound and terminator.
  \<^item> \<open>Kalloc\<close>: \<^verbatim>\<open>kalloc.c\<close>; the free list threads the free pages, an allocated page has one owner.
  \<^item> \<open>Spinlock\<close>: \<^verbatim>\<open>spinlock.c\<close> on several processors; mutual exclusion in every interleaving, nesting of interrupt flags.
  \<^item> \<open>ProcTable\<close>, \<open>Sleeplock\<close>: the process table with \<^verbatim>\<open>sleep\<close>, \<^verbatim>\<open>wakeup\<close>, \<^verbatim>\<open>kill\<close>, \<^verbatim>\<open>yield\<close>, \<^verbatim>\<open>allocproc\<close> (\<^verbatim>\<open>proc.c\<close>), and \<^verbatim>\<open>sleeplock.c\<close>.
  \<^item> \<open>Bio\<close>: \<^verbatim>\<open>bio.c\<close> on the memory disk \<^verbatim>\<open>memide.c\<close>; the buffer ring implements a least-recently-used list, what is
    written is read back, a buffer has one holder.
  \<^item> \<open>Log\<close>, \<open>Log_Crash\<close>: \<^verbatim>\<open>log.c\<close>; a crash at any point of a commit leaves all or nothing of the transaction.
  \<^item> \<open>Fs_Layout\<close>, \<open>Fs_Block\<close>, \<open>Fs_Inode\<close>, \<open>Fs_Rw\<close>, \<open>Fs_Dir\<close>: the layers of \<^verbatim>\<open>fs.c\<close>.
  \<^item> \<open>Kbd\<close>, \<open>Console\<close>: \<^verbatim>\<open>kbd.c\<close>, \<^verbatim>\<open>console.c\<close> and the character operations of \<^verbatim>\<open>uart.c\<close>.
  \<^item> \<open>Pipe\<close>, \<open>Filetab\<close>: \<^verbatim>\<open>pipe.c\<close> and \<^verbatim>\<open>file.c\<close>; a pipe delivers the bytes sent, in order.
  \<^item> \<open>Vm\<close>, \<open>Vm_Term\<close>, \<open>Vm_User\<close>: \<^verbatim>\<open>vm.c\<close>; its loops end, \<^verbatim>\<open>copyout\<close> stores what it is asked to and nothing else.
  \<^item> \<open>Rand\<close>, \<open>Proc\<close>, \<open>Sched\<close>: \<^verbatim>\<open>rand.c\<close>, the life cycle of processes and threads, the three schedulers and their fairness.
  \<^item> \<open>Syscall\<close>, \<open>Exec\<close>, \<open>Sysfile\<close>, \<open>Trap\<close>, \<open>Segs\<close>: system call arguments and handlers, \<^verbatim>\<open>exec.c\<close>, \<^verbatim>\<open>trap.c\<close>, descriptors.
  \<^item> \<open>User_Lib\<close>, \<open>User_Progs\<close>, \<open>User_Grep\<close>: the user library and programs; a program is a function of
    the results its system calls get, so its theorems hold for every behaviour of the kernel.
\<close>

end
